(* ===== verification/Prelude.thy ===== *)
theory Prelude
  imports "HOL-Library.Word"
begin

text \<open>
  Shared vocabulary of the development: the integer types of
  \<^verbatim>\<open>include/types.h\<close>, C failures as values, little-endian byte access
  to a packet buffer, and the generic lemmas on lists, options and words that the component
  theories use.

  The host is little endian (x86, where Mininet runs): a \<open>u16\<close> or \<open>u32\<close> struct field that
  is read straight from a packet is the little-endian value of its bytes, and
  \<^verbatim>\<open>ntohs\<close>/\<^verbatim>\<open>htons\<close>/\<^verbatim>\<open>ntohl\<close>/\<^verbatim>\<open>htonl\<close> swap bytes.
\<close>

unbundle bit_operations_syntax

named_theorems result_simps \<open>unfolding rules of the result monad\<close>
named_theorems buf_simps \<open>reads and writes of packet buffers\<close>

section \<open>Integer types (types.h)\<close>

type_synonym u8 = "8 word"
type_synonym u16 = "16 word"
type_synonym u32 = "32 word"

text \<open>
  \<open>time_t\<close> is a signed 64-bit count of seconds; the subtractions of the code stay in range for
  every date, so it is an \<open>int\<close>. The cast \<^verbatim>\<open>(int)\<close> to 32 bits does matter and is
  written out.
\<close>

type_synonym time_t = int

definition c_int :: "int \<Rightarrow> int" where
  "c_int x = signed_take_bit 31 x"

lemma c_int_small: "- (2 ^ 31) \<le> x \<Longrightarrow> x < 2 ^ 31 \<Longrightarrow> c_int x = x"
  by (simp add: c_int_def signed_take_bit_int_eq_self)

section \<open>Failures as values\<close>

text \<open>
  What a C statement of the program can do besides returning: follow a null pointer, touch
  memory outside an object (or freed memory), or end the process.
\<close>

datatype c_error = NullDeref | OutOfBounds | Exit int

type_synonym 'a result = "c_error + 'a"

definition bind_r :: "'a result \<Rightarrow> ('a \<Rightarrow> 'b result) \<Rightarrow> 'b result" where
  "bind_r m f = (case m of Inl e \<Rightarrow> Inl e | Inr x \<Rightarrow> f x)"

lemma bind_r_simps [simp, result_simps]:
  "bind_r (Inl e) f = Inl e"
  "bind_r (Inr x) f = f x"
  by (simp_all add: bind_r_def)

lemma bind_r_eq_Inr:
  "bind_r m f = Inr y \<longleftrightarrow> (\<exists>x. m = Inr x \<and> f x = Inr y)"
  by (cases m) simp_all

lemma bind_r_cong [fundef_cong]:
  "m = m' \<Longrightarrow> (\<And>x. m' = Inr x \<Longrightarrow> f x = f' x) \<Longrightarrow> bind_r m f = bind_r m' f'"
  by (cases m') (auto simp: bind_r_def)

text \<open>A counted loop whose body can fail.\<close>

fun fold_r :: "('a \<Rightarrow> 's \<Rightarrow> 's result) \<Rightarrow> 'a list \<Rightarrow> 's \<Rightarrow> 's result" where
  "fold_r f [] s = Inr s"
| "fold_r f (x # xs) s = bind_r (f x s) (fold_r f xs)"

lemma fold_r_append: "fold_r f (xs @ ys) s = bind_r (fold_r f xs s) (fold_r f ys)"
proof (induction xs arbitrary: s)
  case (Cons x xs)
  then show ?case by (cases "f x s") simp_all
qed simp

lemma fold_r_pure: "(\<And>x s. x \<in> set xs \<Longrightarrow> f x s = Inr (g x s)) \<Longrightarrow> fold_r f xs s = Inr (fold g xs s)"
  by (induction xs arbitrary: s) simp_all

text \<open>An invariant of the body is an invariant of the loop.\<close>

lemma fold_r_inv:
  assumes "fold_r f xs s = Inr s'" and "P s"
    and "\<And>x s s'. x \<in> set xs \<Longrightarrow> P s \<Longrightarrow> f x s = Inr s' \<Longrightarrow> P s'"
  shows "P s'"
  using assms
proof (induction xs arbitrary: s)
  case (Cons x xs)
  then obtain s1 where "f x s = Inr s1" "fold_r f xs s1 = Inr s'" by (auto simp: bind_r_eq_Inr)
  with Cons show ?case by (meson list.set_intros)
qed simp

definition deref :: "'a option \<Rightarrow> 'a result" where
  "deref p = (case p of None \<Rightarrow> Inl NullDeref | Some x \<Rightarrow> Inr x)"

lemma deref_simps [simp, result_simps]:
  "deref None = Inl NullDeref"
  "deref (Some x) = Inr x"
  by (simp_all add: deref_def)

section \<open>First match\<close>

text \<open>\<open>find\<close> is what a search loop with an early return computes.\<close>

lemma find_SomeD: "find P xs = Some x \<Longrightarrow> x \<in> set xs \<and> P x"
  by (induction xs) (auto split: if_splits)

lemma find_append:
  "find P (xs @ ys) = (case find P xs of Some y \<Rightarrow> Some y | None \<Rightarrow> find P ys)"
  by (induction xs) auto

lemma find_unique:
  assumes "distinct (map f xs)" and "x \<in> set xs"
  shows "find (\<lambda>y. f y = f x) xs = Some x"
proof (cases "find (\<lambda>y. f y = f x) xs")
  case None
  then show ?thesis using assms(2) by (auto simp: find_None_iff)
next
  case (Some y)
  then have "y \<in> set xs" "f y = f x" by (auto dest: find_SomeD)
  then show ?thesis using Some assms by (auto simp: distinct_map dest: inj_onD)
qed

section \<open>Byte order\<close>

definition le16 :: "u8 \<Rightarrow> u8 \<Rightarrow> u16" where
  "le16 b0 b1 = ucast b0 OR push_bit 8 (ucast b1)"

definition le32 :: "u8 \<Rightarrow> u8 \<Rightarrow> u8 \<Rightarrow> u8 \<Rightarrow> u32" where
  "le32 b0 b1 b2 b3 =
     ucast b0 OR push_bit 8 (ucast b1) OR push_bit 16 (ucast b2) OR push_bit 24 (ucast b3)"

definition bytes16 :: "u16 \<Rightarrow> u8 list" where
  "bytes16 w = [ucast w, ucast (drop_bit 8 w)]"

definition bytes32 :: "u32 \<Rightarrow> u8 list" where
  "bytes32 w = [ucast w, ucast (drop_bit 8 w), ucast (drop_bit 16 w), ucast (drop_bit 24 w)]"

definition ntohs :: "u16 \<Rightarrow> u16" where
  "ntohs w = le16 (ucast (drop_bit 8 w)) (ucast w)"

definition ntohl :: "u32 \<Rightarrow> u32" where
  "ntohl w = le32 (ucast (drop_bit 24 w)) (ucast (drop_bit 16 w)) (ucast (drop_bit 8 w)) (ucast w)"

abbreviation htons :: "u16 \<Rightarrow> u16" where "htons \<equiv> ntohs"
abbreviation htonl :: "u32 \<Rightarrow> u32" where "htonl \<equiv> ntohl"

lemma length_bytes [simp]: "length (bytes16 w) = 2" "length (bytes32 v) = 4"
  by (simp_all add: bytes16_def bytes32_def)

lemma le16_bytes [simp]: "le16 (ucast w) (ucast (drop_bit 8 w)) = w"
  unfolding le16_def by (rule bit_word_eqI) (auto simp: bit_simps)

lemma le32_bytes [simp]:
  "le32 (ucast w) (ucast (drop_bit 8 w)) (ucast (drop_bit 16 w)) (ucast (drop_bit 24 w)) = w"
proof -
  have high: "n - 16 < 8" if "bit w n" "\<not> bit w (24 + (n - 24))" for n
    using that by (cases "24 \<le> n") auto
  show ?thesis
    unfolding le32_def by (intro bit_word_eqI) (auto simp: bit_simps intro: high)
qed

lemma le16_parts [simp]:
  "ucast (le16 b0 b1) = b0" "ucast (drop_bit 8 (le16 b0 b1)) = b1"
  unfolding le16_def by (rule bit_word_eqI; auto simp: bit_simps dest: bit_imp_le_length)+

lemma le32_parts [simp]:
  "ucast (le32 b0 b1 b2 b3) = b0" "ucast (drop_bit 8 (le32 b0 b1 b2 b3)) = b1"
  "ucast (drop_bit 16 (le32 b0 b1 b2 b3)) = b2" "ucast (drop_bit 24 (le32 b0 b1 b2 b3)) = b3"
  unfolding le32_def by (rule bit_word_eqI; auto simp: bit_simps dest: bit_imp_le_length)+

lemma ntohs_ntohs [simp]: "ntohs (ntohs w) = w"
  by (simp add: ntohs_def)

lemma ntohl_ntohl [simp]: "ntohl (ntohl w) = w"
  by (simp add: ntohl_def)

lemma ntohs_inj [simp]: "ntohs a = ntohs b \<longleftrightarrow> a = b"
  by (metis ntohs_ntohs)

lemma ntohl_inj [simp]: "ntohl a = ntohl b \<longleftrightarrow> a = b"
  by (metis ntohl_ntohl)

lemma bytes16_inj [simp]: "bytes16 a = bytes16 b \<longleftrightarrow> a = b"
proof
  assume "bytes16 a = bytes16 b"
  then have "le16 (ucast a) (ucast (drop_bit 8 a)) = le16 (ucast b) (ucast (drop_bit 8 b))"
    by (simp only: bytes16_def list.inject)
  then show "a = b" by simp
qed simp

lemma bytes32_inj [simp]: "bytes32 a = bytes32 b \<longleftrightarrow> a = b"
proof
  assume "bytes32 a = bytes32 b"
  then have "le32 (ucast a) (ucast (drop_bit 8 a)) (ucast (drop_bit 16 a)) (ucast (drop_bit 24 a))
    = le32 (ucast b) (ucast (drop_bit 8 b)) (ucast (drop_bit 16 b)) (ucast (drop_bit 24 b))"
    by (simp only: bytes32_def list.inject)
  then show "a = b" by simp
qed simp

lemma unat_ucast_up [simp]:
  "unat (ucast (b :: u8) :: u16) = unat b" "unat (ucast (b :: u8) :: u32) = unat b"
  "unat (ucast (h :: u16) :: u32) = unat h"
  by (simp_all add: unsigned_ucast_eq take_bit_nat_eq_self_iff order.strict_trans [OF unsigned_less])

section \<open>Packet buffers\<close>

text \<open>
  A packet buffer is the list of its bytes. The pure accessors \<open>get\<close>/\<open>put\<close> are used where the
  offset is known to be inside; the checked ones \<open>rd\<close>/\<open>wr\<close> are what C code performs: an access
  that touches a byte past the end is \<open>OutOfBounds\<close>.
\<close>

type_synonym bytes = "u8 list"

definition get16 :: "bytes \<Rightarrow> nat \<Rightarrow> u16" where
  "get16 buf i = le16 (buf ! i) (buf ! (i + 1))"

definition get32 :: "bytes \<Rightarrow> nat \<Rightarrow> u32" where
  "get32 buf i = le32 (buf ! i) (buf ! (i + 1)) (buf ! (i + 2)) (buf ! (i + 3))"

definition put16 :: "bytes \<Rightarrow> nat \<Rightarrow> u16 \<Rightarrow> bytes" where
  "put16 buf i v = buf[i := ucast v, i + 1 := ucast (drop_bit 8 v)]"

definition put32 :: "bytes \<Rightarrow> nat \<Rightarrow> u32 \<Rightarrow> bytes" where
  "put32 buf i v = buf[i := ucast v, i + 1 := ucast (drop_bit 8 v),
     i + 2 := ucast (drop_bit 16 v), i + 3 := ucast (drop_bit 24 v)]"

definition rd8 :: "bytes \<Rightarrow> nat \<Rightarrow> u8 result" where
  "rd8 buf i = (if i < length buf then Inr (buf ! i) else Inl OutOfBounds)"

definition rd16 :: "bytes \<Rightarrow> nat \<Rightarrow> u16 result" where
  "rd16 buf i = (if i + 2 \<le> length buf then Inr (get16 buf i) else Inl OutOfBounds)"

definition rd32 :: "bytes \<Rightarrow> nat \<Rightarrow> u32 result" where
  "rd32 buf i = (if i + 4 \<le> length buf then Inr (get32 buf i) else Inl OutOfBounds)"

definition wr16 :: "bytes \<Rightarrow> nat \<Rightarrow> u16 \<Rightarrow> bytes result" where
  "wr16 buf i v = (if i + 2 \<le> length buf then Inr (put16 buf i v) else Inl OutOfBounds)"

definition wr32 :: "bytes \<Rightarrow> nat \<Rightarrow> u32 \<Rightarrow> bytes result" where
  "wr32 buf i v = (if i + 4 \<le> length buf then Inr (put32 buf i v) else Inl OutOfBounds)"

lemma length_put [simp]: "length (put16 buf i v) = length buf" "length (put32 buf i w) = length buf"
  by (simp_all add: put16_def put32_def)

lemma rd_ok [buf_simps]:
  "i < length buf \<Longrightarrow> rd8 buf i = Inr (buf ! i)"
  "i + 2 \<le> length buf \<Longrightarrow> rd16 buf i = Inr (get16 buf i)"
  "i + 4 \<le> length buf \<Longrightarrow> rd32 buf i = Inr (get32 buf i)"
  "i + 2 \<le> length buf \<Longrightarrow> wr16 buf i v = Inr (put16 buf i v)"
  "i + 4 \<le> length buf \<Longrightarrow> wr32 buf i w = Inr (put32 buf i w)"
  by (simp_all add: rd8_def rd16_def rd32_def wr16_def wr32_def)

lemma nth_put16:
  "i + 2 \<le> length buf \<Longrightarrow> put16 buf i v ! j =
     (if j = i then ucast v else if j = i + 1 then ucast (drop_bit 8 v) else buf ! j)"
  by (auto simp: put16_def nth_list_update)

lemma nth_put32:
  "i + 4 \<le> length buf \<Longrightarrow> put32 buf i v ! j =
     (if j = i then ucast v else if j = i + 1 then ucast (drop_bit 8 v)
      else if j = i + 2 then ucast (drop_bit 16 v)
      else if j = i + 3 then ucast (drop_bit 24 v) else buf ! j)"
  by (auto simp: put32_def nth_list_update)

lemma nth_put_other [buf_simps]:
  "j < i \<or> i + 2 \<le> j \<Longrightarrow> put16 buf i v ! j = buf ! j"
  "j < i \<or> i + 4 \<le> j \<Longrightarrow> put32 buf i w ! j = buf ! j"
  by (auto simp: put16_def put32_def nth_list_update_neq)

lemma get_put_same [buf_simps]:
  "i + 2 \<le> length buf \<Longrightarrow> get16 (put16 buf i v) i = v"
  "i + 4 \<le> length buf \<Longrightarrow> get32 (put32 buf i w) i = w"
  by (simp_all add: get16_def get32_def nth_put16 nth_put32)

lemma get16_put_other [buf_simps]:
  "j + 2 \<le> i \<or> i + 2 \<le> j \<Longrightarrow> get16 (put16 buf i v) j = get16 buf j"
  "j + 2 \<le> i \<or> i + 4 \<le> j \<Longrightarrow> get16 (put32 buf i w) j = get16 buf j"
  by (auto simp: get16_def nth_put_other)

lemma get32_put_other [buf_simps]:
  "j + 4 \<le> i \<or> i + 2 \<le> j \<Longrightarrow> get32 (put16 buf i v) j = get32 buf j"
  "j + 4 \<le> i \<or> i + 4 \<le> j \<Longrightarrow> get32 (put32 buf i w) j = get32 buf j"
  by (auto simp: get32_def nth_put_other)

lemma put_id [simp]: "put16 buf i (get16 buf i) = buf" "put32 buf i (get32 buf i) = buf"
  by (simp_all add: put16_def put32_def get16_def get32_def)

end
