(* ===== verification/ListHead.thy ===== *)
theory ListHead
  imports Prelude
begin

text \<open>
  The intrusive doubly linked list of \<^verbatim>\<open>include/list.h\<close> (the same file in
  \<^verbatim>\<open>nat_stack\<close> and \<^verbatim>\<open>switch_stack\<close>), on an explicit store of list nodes.
  A node that was never allocated, or was freed, is absent from the store, and touching it is
  \<open>OutOfBounds\<close>. The predicate \<open>dlist h hd xs\<close> says that the circular list with pseudo node \<open>hd\<close>
  links exactly the nodes \<open>xs\<close>, in this order, in both directions. The lemmas show that every
  operation of the header keeps \<open>dlist\<close> and computes the functional list operation, and that the
  two iteration macros visit the nodes in order, the safe one also when its body deletes and
  frees the current node. This is what lets the tables of the other theories be lists.
\<close>

section \<open>Nodes and the store\<close>

type_synonym addr = nat

record list_head =
  nxt :: addr
  prv :: addr

type_synonym heap = "addr \<Rightarrow> list_head option"

definition ld_next :: "heap \<Rightarrow> addr \<Rightarrow> addr result" where
  "ld_next h a = (case h a of None \<Rightarrow> Inl OutOfBounds | Some n \<Rightarrow> Inr (nxt n))"

definition ld_prev :: "heap \<Rightarrow> addr \<Rightarrow> addr result" where
  "ld_prev h a = (case h a of None \<Rightarrow> Inl OutOfBounds | Some n \<Rightarrow> Inr (prv n))"

definition st_next :: "heap \<Rightarrow> addr \<Rightarrow> addr \<Rightarrow> heap result" where
  "st_next h a v = (case h a of None \<Rightarrow> Inl OutOfBounds | Some n \<Rightarrow> Inr (h(a \<mapsto> n\<lparr>nxt := v\<rparr>)))"

definition st_prev :: "heap \<Rightarrow> addr \<Rightarrow> addr \<Rightarrow> heap result" where
  "st_prev h a v = (case h a of None \<Rightarrow> Inl OutOfBounds | Some n \<Rightarrow> Inr (h(a \<mapsto> n\<lparr>prv := v\<rparr>)))"

definition free_node :: "heap \<Rightarrow> addr \<Rightarrow> heap" where
  "free_node h a = h(a := None)"

section \<open>The operations of list.h\<close>

definition list_empty :: "heap \<Rightarrow> addr \<Rightarrow> bool result" where
  "list_empty h l = bind_r (ld_next h l) (\<lambda>n. Inr (n = l))"

definition init_list_head :: "heap \<Rightarrow> addr \<Rightarrow> heap result" where
  "init_list_head h l = bind_r (st_prev h l l) (\<lambda>h. st_next h l l)"

definition list_insert :: "heap \<Rightarrow> addr \<Rightarrow> addr \<Rightarrow> addr \<Rightarrow> heap result" where
  "list_insert h new prv_node nxt_node =
     bind_r (st_prev h nxt_node new) (\<lambda>h.
     bind_r (st_next h prv_node new) (\<lambda>h.
     bind_r (st_next h new nxt_node) (\<lambda>h.
     st_prev h new prv_node)))"

definition list_add_head :: "heap \<Rightarrow> addr \<Rightarrow> addr \<Rightarrow> heap result" where
  "list_add_head h new head = bind_r (ld_next h head) (\<lambda>n. list_insert h new head n)"

definition list_add_tail :: "heap \<Rightarrow> addr \<Rightarrow> addr \<Rightarrow> heap result" where
  "list_add_tail h new head = bind_r (ld_prev h head) (\<lambda>p. list_insert h new p head)"

definition list_delete_entry :: "heap \<Rightarrow> addr \<Rightarrow> heap result" where
  "list_delete_entry h entry =
     bind_r (ld_next h entry) (\<lambda>n.
     bind_r (ld_prev h entry) (\<lambda>p.
     bind_r (st_prev h n p) (\<lambda>h.
     bind_r (ld_prev h entry) (\<lambda>p'.
     bind_r (ld_next h entry) (\<lambda>n'.
     st_next h p' n')))))"

text \<open>
  The iteration macros. The loop body works on the node store and on the data \<open>'d\<close> of the
  caller; it either goes on or returns from the surrounding function. A loop may run forever on
  a corrupted list, so the loops are partial functions: \<open>None\<close> is divergence.
\<close>

datatype ('d, 'r) flow = Continue 'd | Return 'r 'd

partial_function (option) for_each_entry ::
  "(addr \<Rightarrow> heap \<times> 'd \<Rightarrow> (heap \<times> 'd, 'r) flow result) \<Rightarrow> addr \<Rightarrow> addr \<Rightarrow> heap \<times> 'd
     \<Rightarrow> (heap \<times> 'd, 'r) flow result option" where
  "for_each_entry body pos head s =
     (if pos = head then Some (Inr (Continue s))
      else case body pos s of
        Inl e \<Rightarrow> Some (Inl e)
      | Inr (Return r s') \<Rightarrow> Some (Inr (Return r s'))
      | Inr (Continue s') \<Rightarrow>
          (case ld_next (fst s') pos of
             Inl e \<Rightarrow> Some (Inl e)
           | Inr n \<Rightarrow> for_each_entry body n head s'))"

definition list_for_each_entry ::
  "(addr \<Rightarrow> heap \<times> 'd \<Rightarrow> (heap \<times> 'd, 'r) flow result) \<Rightarrow> addr \<Rightarrow> heap \<times> 'd
     \<Rightarrow> (heap \<times> 'd, 'r) flow result option" where
  "list_for_each_entry body head s =
     (case ld_next (fst s) head of
        Inl e \<Rightarrow> Some (Inl e)
      | Inr pos \<Rightarrow> for_each_entry body pos head s)"

partial_function (option) for_each_entry_safe ::
  "(addr \<Rightarrow> heap \<times> 'd \<Rightarrow> (heap \<times> 'd, 'r) flow result) \<Rightarrow> addr \<Rightarrow> addr \<Rightarrow> addr \<Rightarrow> heap \<times> 'd
     \<Rightarrow> (heap \<times> 'd, 'r) flow result option" where
  "for_each_entry_safe body pos q head s =
     (if pos = head then Some (Inr (Continue s))
      else case body pos s of
        Inl e \<Rightarrow> Some (Inl e)
      | Inr (Return r s') \<Rightarrow> Some (Inr (Return r s'))
      | Inr (Continue s') \<Rightarrow>
          (case ld_next (fst s') q of
             Inl e \<Rightarrow> Some (Inl e)
           | Inr q' \<Rightarrow> for_each_entry_safe body q q' head s'))"

definition list_for_each_entry_safe ::
  "(addr \<Rightarrow> heap \<times> 'd \<Rightarrow> (heap \<times> 'd, 'r) flow result) \<Rightarrow> addr \<Rightarrow> heap \<times> 'd
     \<Rightarrow> (heap \<times> 'd, 'r) flow result option" where
  "list_for_each_entry_safe body head s =
     (case bind_r (ld_next (fst s) head) (\<lambda>pos. bind_r (ld_next (fst s) pos) (\<lambda>q. Inr (pos, q))) of
        Inl e \<Rightarrow> Some (Inl e)
      | Inr (pos, q) \<Rightarrow> for_each_entry_safe body pos q head s)"

section \<open>The shape of a list\<close>

definition link :: "heap \<Rightarrow> addr \<Rightarrow> addr \<Rightarrow> bool" where
  "link h a b \<longleftrightarrow> map_option nxt (h a) = Some b \<and> map_option prv (h b) = Some a"

fun chain :: "heap \<Rightarrow> addr list \<Rightarrow> bool" where
  "chain h (a # b # ns) \<longleftrightarrow> link h a b \<and> chain h (b # ns)"
| "chain h _ \<longleftrightarrow> True"

definition dlist :: "heap \<Rightarrow> addr \<Rightarrow> addr list \<Rightarrow> bool" where
  "dlist h head xs \<longleftrightarrow> distinct (head # xs) \<and> chain h (head # xs @ [head])"

lemma chain_append:
  "xs \<noteq> [] \<Longrightarrow> ys \<noteq> [] \<Longrightarrow>
     chain h (xs @ ys) \<longleftrightarrow> chain h xs \<and> link h (last xs) (hd ys) \<and> chain h ys"
proof (induction xs rule: induct_list012)
  case (2 x)
  then show ?case by (cases ys) auto
next
  case (3 x y zs)
  then show ?case by auto
qed simp

lemma chain_frame:
  assumes "\<forall>x \<in> set (butlast ns). map_option nxt (h' x) = map_option nxt (h x)"
    and "\<forall>x \<in> set (tl ns). map_option prv (h' x) = map_option prv (h x)"
  shows "chain h' ns = chain h ns"
  using assms
proof (induction h ns rule: chain.induct)
  case (1 h a b ns)
  then show ?case by (cases ns) (auto simp: link_def)
qed auto

lemma dlist_split:
  "dlist h head (xs @ ys) \<longleftrightarrow>
     distinct (head # xs @ ys) \<and> chain h (head # xs) \<and>
     link h (last (head # xs)) (hd (ys @ [head])) \<and> chain h (ys @ [head])"
  using chain_append [of "head # xs" "ys @ [head]" h] by (auto simp: dlist_def)

text \<open>Only the \<open>next\<close> of the node before a gap and the \<open>prev\<close> of the node after it may change.\<close>

lemma chain_frame_gap:
  assumes "distinct (head # xs @ ys)" and "X \<inter> set (head # xs @ ys) = {}"
    and "\<forall>x. x \<noteq> last (head # xs) \<longrightarrow> x \<notin> X \<longrightarrow> map_option nxt (h' x) = map_option nxt (h x)"
    and "\<forall>x. x \<noteq> hd (ys @ [head]) \<longrightarrow> x \<notin> X \<longrightarrow> map_option prv (h' x) = map_option prv (h x)"
  shows "chain h' (head # xs) = chain h (head # xs)" "chain h' (ys @ [head]) = chain h (ys @ [head])"
proof -
  define p where "p = last (head # xs)"
  define n where "n = hd (ys @ [head])"
  note keep = assms(3,4) [folded p_def n_def]
  have d: "distinct (head # xs)" using assms(1) by simp
  have eq: "butlast (head # xs) @ [p] = head # xs" unfolding p_def by (rule append_butlast_last_id) simp
  have "distinct (butlast (head # xs) @ [p])" by (subst eq) (rule d)
  then have "p \<notin> set (butlast (head # xs))" by simp
  then have "set (butlast (head # xs)) \<subseteq> set (head # xs) - {p}" by (auto dest: in_set_butlastD split: if_splits)
  moreover have "n \<notin> set xs" "n \<notin> set (tl (ys @ [head]))"
    using assms(1) unfolding n_def by (cases ys; simp; fail)+
  moreover have "p \<notin> set ys"
    using assms(1) unfolding p_def by (cases xs rule: rev_cases) auto
  moreover have "set (tl (ys @ [head])) \<subseteq> set (head # ys)"
    by (cases ys) auto
  ultimately show "chain h' (head # xs) = chain h (head # xs)"
    "chain h' (ys @ [head]) = chain h (ys @ [head])"
    using assms(2) by (auto intro!: chain_frame keep [rule_format])
qed

section \<open>The operations keep the shape\<close>

lemma link_dom: "link h a b \<Longrightarrow> a \<in> dom h \<and> b \<in> dom h"
  by (auto simp: link_def)

lemma ld_link: "link h a b \<Longrightarrow> ld_next h a = Inr b \<and> ld_prev h b = Inr a"
  by (auto simp: link_def ld_next_def ld_prev_def)

lemma init_list_head_dlist:
  assumes "l \<in> dom h"
  obtains h' where "init_list_head h l = Inr h'" "dlist h' l []" "\<forall>x. x \<noteq> l \<longrightarrow> h' x = h x"
  using assms by (auto simp: init_list_head_def st_next_def st_prev_def dlist_def link_def)

lemma list_insert_link:
  assumes "link h p n" and "new \<in> dom h" and "new \<noteq> p" and "new \<noteq> n"
  obtains h' where "list_insert h new p n = Inr h'" "link h' p new" "link h' new n"
    "\<forall>x. x \<noteq> p \<longrightarrow> x \<notin> {new} \<longrightarrow> map_option nxt (h' x) = map_option nxt (h x)"
    "\<forall>x. x \<noteq> n \<longrightarrow> x \<notin> {new} \<longrightarrow> map_option prv (h' x) = map_option prv (h x)"
    "dom h' = dom h" "\<forall>x. x \<notin> {p, n, new} \<longrightarrow> h' x = h x"
proof -
  obtain np nn nw where *: "h p = Some np" "h n = Some nn" "h new = Some nw"
    using assms by (auto simp: link_def)
  show thesis
    by (rule that [of "h(n := map_option (prv_update (\<lambda>_. new)) (h n),
          p := map_option (nxt_update (\<lambda>_. new))
            ((h(n := map_option (prv_update (\<lambda>_. new)) (h n))) p),
          new := Some (nw\<lparr>nxt := n, prv := p\<rparr>))"])
      (use * assms in \<open>auto simp: list_insert_def st_prev_def st_next_def link_def fun_eq_iff\<close>)
qed

lemma list_insert_dlist:
  assumes "dlist h head (xs @ ys)" and "new \<in> dom h" and "new \<notin> set (head # xs @ ys)"
  obtains h' where "list_insert h new (last (head # xs)) (hd (ys @ [head])) = Inr h'"
    "dlist h' head (xs @ new # ys)" "dom h' = dom h" "\<forall>x. x \<notin> set (head # new # xs @ ys) \<longrightarrow> h' x = h x"
proof -
  let ?p = "last (head # xs)" and ?n = "hd (ys @ [head])"
  have mem: "?p \<in> set (head # xs)" "?n \<in> set (ys @ [head])" by (rule last_in_set, simp) (cases ys, auto)
  from assms(1) have l: "link h ?p ?n" and d: "distinct (head # xs @ ys)" by (auto simp: dlist_split)
  have "new \<noteq> ?p" "new \<noteq> ?n" using assms(3) mem by (auto simp del: last.simps)
  then obtain h' where h': "list_insert h new ?p ?n = Inr h'" "link h' ?p new" "link h' new ?n"
    "\<forall>x. x \<noteq> ?p \<longrightarrow> x \<notin> {new} \<longrightarrow> map_option nxt (h' x) = map_option nxt (h x)"
    "\<forall>x. x \<noteq> ?n \<longrightarrow> x \<notin> {new} \<longrightarrow> map_option prv (h' x) = map_option prv (h x)"
    "dom h' = dom h" "\<forall>x. x \<notin> {?p, ?n, new} \<longrightarrow> h' x = h x"
    using list_insert_link [OF l assms(2)] by metis
  have "chain h' (head # xs)" "chain h' (ys @ [head])"
    using chain_frame_gap [OF d _ h'(4,5)] assms(1,3) by (simp_all add: dlist_split)
  moreover have "chain h' (new # ys @ [head])" using \<open>chain h' (ys @ [head])\<close> h'(3) by (cases ys) auto
  ultimately have "dlist h' head (xs @ new # ys)"
    using d h'(2) assms(3) by (simp add: dlist_split del: last.simps)
  moreover have "\<forall>x. x \<notin> set (head # new # xs @ ys) \<longrightarrow> h' x = h x"
    by (intro allI impI h'(7) [rule_format]) (use mem in \<open>auto simp del: last.simps\<close>)
  ultimately show thesis using h'(1,6) that by blast
qed

lemma list_add_tail_dlist:
  assumes "dlist h head xs" and "new \<in> dom h" and "new \<notin> set (head # xs)"
  obtains h' where "list_add_tail h new head = Inr h'" "dlist h' head (xs @ [new])"
    "dom h' = dom h" "\<forall>x. x \<notin> set (head # new # xs) \<longrightarrow> h' x = h x"
proof -
  have "link h (last (head # xs)) head" using assms(1) dlist_split [of h head xs "[]"] by simp
  then have "list_add_tail h new head = list_insert h new (last (head # xs)) (hd ([] @ [head]))"
    by (simp add: list_add_tail_def ld_link del: last.simps)
  then show thesis
    using list_insert_dlist [of h head xs "[]" new thesis] that assms by (simp del: last.simps)
qed

lemma list_add_head_dlist:
  assumes "dlist h head xs" and "new \<in> dom h" and "new \<notin> set (head # xs)"
  obtains h' where "list_add_head h new head = Inr h'" "dlist h' head (new # xs)"
    "dom h' = dom h" "\<forall>x. x \<notin> set (head # new # xs) \<longrightarrow> h' x = h x"
proof -
  have "link h head (hd (xs @ [head]))" using assms(1) dlist_split [of h head "[]" xs] by simp
  then have "list_add_head h new head = list_insert h new (last [head]) (hd (xs @ [head]))"
    by (simp add: list_add_head_def ld_link)
  then show thesis
    using list_insert_dlist [of h head "[]" xs new thesis] that assms by simp
qed

lemma list_delete_link:
  assumes "link h p e" and "link h e n" and "e \<noteq> p" and "e \<noteq> n"
  obtains h' where "list_delete_entry h e = Inr h'" "link h' p n"
    "\<forall>x. x \<noteq> p \<longrightarrow> x \<notin> {e} \<longrightarrow> map_option nxt (h' x) = map_option nxt (h x)"
    "\<forall>x. x \<noteq> n \<longrightarrow> x \<notin> {e} \<longrightarrow> map_option prv (h' x) = map_option prv (h x)"
    "dom h' = dom h" "\<forall>x. x \<notin> {p, n} \<longrightarrow> h' x = h x"
proof -
  obtain np nn ne where *: "h p = Some np" "h n = Some nn" "h e = Some ne"
    using assms by (auto simp: link_def)
  show thesis
    by (rule that [of "h(n := map_option (prv_update (\<lambda>_. p)) (h n),
          p := map_option (nxt_update (\<lambda>_. n))
            ((h(n := map_option (prv_update (\<lambda>_. p)) (h n))) p))"])
      (use * assms in \<open>auto simp: list_delete_entry_def ld_next_def ld_prev_def st_prev_def
         st_next_def link_def fun_eq_iff\<close>)
qed

lemma list_delete_dlist:
  assumes "dlist h head (xs @ e # ys)"
  obtains h' where "list_delete_entry h e = Inr h'" "dlist h' head (xs @ ys)"
    "dom h' = dom h" "\<forall>x. x \<notin> set (head # xs @ ys) \<longrightarrow> h' x = h x"
proof -
  let ?p = "last (head # xs)" and ?n = "hd (ys @ [head])"
  have mem: "?p \<in> set (head # xs)" "?n \<in> set (ys @ [head])" by (rule last_in_set, simp) (cases ys, auto)
  from assms have l: "link h ?p e" "link h e ?n" and d: "distinct (head # xs @ e # ys)"
    using dlist_split [of h head "xs @ [e]" ys] by (auto simp: dlist_split)
  have "e \<noteq> ?p" "e \<noteq> ?n" using d mem by (auto simp del: last.simps)
  then obtain h' where h': "list_delete_entry h e = Inr h'" "link h' ?p ?n"
    "\<forall>x. x \<noteq> ?p \<longrightarrow> x \<notin> {e} \<longrightarrow> map_option nxt (h' x) = map_option nxt (h x)"
    "\<forall>x. x \<noteq> ?n \<longrightarrow> x \<notin> {e} \<longrightarrow> map_option prv (h' x) = map_option prv (h x)"
    "dom h' = dom h" "\<forall>x. x \<notin> {?p, ?n} \<longrightarrow> h' x = h x"
    using list_delete_link [OF l] by metis
  have d': "distinct (head # xs @ ys)" using d by auto
  have "chain h' (head # xs)" "chain h' (ys @ [head])"
    using chain_frame_gap [OF d' _ h'(3,4)] d assms dlist_split [of h head xs "e # ys"]
      dlist_split [of h head "xs @ [e]" ys] by simp_all
  then have "dlist h' head (xs @ ys)"
    using d' h'(2) by (simp add: dlist_split del: last.simps)
  moreover have "\<forall>x. x \<notin> set (head # xs @ ys) \<longrightarrow> h' x = h x"
    by (intro allI impI h'(6) [rule_format]) (use mem in \<open>auto simp del: last.simps\<close>)
  ultimately show thesis using h'(1,5) that by blast
qed

lemma list_empty_dlist:
  "dlist h head xs \<Longrightarrow> list_empty h head = Inr (xs = [])"
  using dlist_split [of h head "[]" xs]
  by (cases xs) (auto simp: list_empty_def ld_link)

lemma free_node_dlist:
  assumes "dlist h head xs" and "a \<notin> set (head # xs)"
  shows "dlist (free_node h a) head xs"
proof -
  have "chain (free_node h a) (head # xs @ [head]) = chain h (head # xs @ [head])"
    using assms(2) by (intro chain_frame) (auto simp: free_node_def dest: in_set_butlastD)
  with assms(1) show ?thesis by (simp add: dlist_def)
qed

lemma dlist_unique: "dlist h head xs \<Longrightarrow> dlist h head ys \<Longrightarrow> xs = ys"
proof -
  have step: "chain h (a # us @ [head]) \<Longrightarrow> chain h (a # vs @ [head]) \<Longrightarrow>
      head \<notin> set us \<Longrightarrow> head \<notin> set vs \<Longrightarrow> us = vs" for a us vs
  proof (induction us arbitrary: a vs)
    case Nil
    then show ?case by (cases vs) (auto simp: link_def)
  next
    case (Cons u us)
    then show ?case by (cases vs) (auto simp: link_def)
  qed
  show "dlist h head xs \<Longrightarrow> dlist h head ys \<Longrightarrow> xs = ys"
    by (rule step [of head]) (auto simp: dlist_def)
qed

section \<open>The loops\<close>

lemma ld_next_chain: "chain h (a # b # ns) \<Longrightarrow> ld_next h a = Inr b"
  by (simp add: ld_link)

lemma ld_next_dlist:
  "dlist h head (xs @ a # ys) \<Longrightarrow> ld_next h a = Inr (hd (ys @ [head]))"
  using dlist_split [of h head "xs @ [a]" ys] by (auto dest: ld_link)

lemma ld_next_head: "dlist h head xs \<Longrightarrow> ld_next h head = Inr (hd (xs @ [head]))"
  using dlist_split [of h head "[]" xs] by (auto dest: ld_link)

text \<open>The node after the one the safe loop remembers in \<open>q\<close> can always be read.\<close>

lemma ld_next_ahead:
  assumes "dlist h head (ks @ xs)"
  obtains q where "ld_next h (hd (xs @ [head])) = Inr q" "xs = [] \<or> q = hd (tl xs @ [head])"
proof (cases xs)
  case Nil
  then show thesis using that assms ld_next_head [of h head ks] by simp
next
  case (Cons y ys)
  then show thesis using that assms ld_next_dlist [of h head ks y ys] by simp
qed

text \<open>A search loop: return the first node that satisfies \<open>P\<close>.\<close>

definition search_body :: "(addr \<Rightarrow> bool) \<Rightarrow> addr \<Rightarrow> heap \<times> 'd \<Rightarrow> (heap \<times> 'd, addr) flow result" where
  "search_body P pos s = Inr (if P pos then Return pos s else Continue s)"

definition search_result :: "(addr \<Rightarrow> bool) \<Rightarrow> addr list \<Rightarrow> 's \<Rightarrow> ('s, addr) flow" where
  "search_result P xs s = (case find P xs of None \<Rightarrow> Continue s | Some a \<Rightarrow> Return a s)"

lemma for_each_entry_search:
  "dlist h head (ks @ xs) \<Longrightarrow>
     for_each_entry (search_body P) (hd (xs @ [head])) head (h, d)
       = Some (Inr (search_result P xs (h, d)))"
proof (induction xs arbitrary: ks)
  case Nil
  then show ?case by (simp add: for_each_entry.simps search_result_def)
next
  case (Cons x xs)
  have "x \<noteq> head" and "ld_next h x = Inr (hd (xs @ [head]))"
    using Cons.prems ld_next_dlist by (auto simp: dlist_def)
  with Cons.IH [of "ks @ [x]"] Cons.prems show ?case
    by (simp add: for_each_entry.simps [of _ x] search_body_def search_result_def)
qed

lemma for_each_entry_safe_search:
  "dlist h head (ks @ xs) \<Longrightarrow> xs = [] \<or> q = hd (tl xs @ [head]) \<Longrightarrow>
     for_each_entry_safe (search_body P) (hd (xs @ [head])) q head (h, d)
       = Some (Inr (search_result P xs (h, d)))"
proof (induction xs arbitrary: ks q)
  case Nil
  then show ?case by (simp add: for_each_entry_safe.simps search_result_def)
next
  case (Cons x xs)
  have q: "q = hd (xs @ [head])" and x: "x \<noteq> head" using Cons.prems by (auto simp: dlist_def)
  obtain q' where "ld_next h q = Inr q'" "xs = [] \<or> q' = hd (tl xs @ [head])"
    using ld_next_ahead [of h head "ks @ [x]" xs] Cons.prems(1) q by auto
  with Cons.IH [of "ks @ [x]" q'] Cons.prems q x show ?case
    by (simp add: for_each_entry_safe.simps [of _ x] search_body_def search_result_def)
qed

lemma list_for_each_entry_search:
  "dlist h head xs \<Longrightarrow>
     list_for_each_entry (search_body P) head (h, d) = Some (Inr (search_result P xs (h, d)))"
  using for_each_entry_search [of h head "[]" xs P d]
  by (simp add: list_for_each_entry_def ld_next_head)

lemma list_for_each_entry_safe_start:
  assumes "dlist h head xs"
  obtains q where "list_for_each_entry_safe body head (h, d)
      = for_each_entry_safe body (hd (xs @ [head])) q head (h, d)"
    "xs = [] \<or> q = hd (tl xs @ [head])"
proof -
  obtain q where "ld_next h (hd (xs @ [head])) = Inr q" "xs = [] \<or> q = hd (tl xs @ [head])"
    using ld_next_ahead [of h head "[]" xs] assms by auto
  then show thesis
    using that assms by (simp add: list_for_each_entry_safe_def ld_next_head)
qed

lemma list_for_each_entry_safe_search:
  assumes "dlist h head xs"
  shows "list_for_each_entry_safe (search_body P) head (h, d)
    = Some (Inr (search_result P xs (h, d)))"
proof -
  obtain q where "list_for_each_entry_safe (search_body P) head (h, d)
      = for_each_entry_safe (search_body P) (hd (xs @ [head])) q head (h, d)"
    "xs = [] \<or> q = hd (tl xs @ [head])"
    using list_for_each_entry_safe_start [OF assms, of "search_body P" d] by auto
  with for_each_entry_safe_search [of h head "[]" xs q P d] assms show ?thesis by simp
qed

text \<open>
  A sweep loop: delete and free every node that satisfies \<open>P\<close>. \<open>f\<close> is what the body does to the
  caller's data at each node.
\<close>

definition sweep_body ::
  "(addr \<Rightarrow> bool) \<Rightarrow> (addr \<Rightarrow> 'd \<Rightarrow> 'd) \<Rightarrow> addr \<Rightarrow> heap \<times> 'd \<Rightarrow> (heap \<times> 'd, 'r) flow result" where
  "sweep_body P f pos s =
     (if P pos then
        bind_r (list_delete_entry (fst s) pos) (\<lambda>h. Inr (Continue (free_node h pos, f pos (snd s))))
      else Inr (Continue (fst s, f pos (snd s))))"

lemma sweep_body_step:
  "P x \<Longrightarrow> list_delete_entry h x = Inr h1 \<Longrightarrow>
     sweep_body P f x (h, d) = Inr (Continue (free_node h1 x, f x d))"
  "\<not> P x \<Longrightarrow> sweep_body P f x (h, d) = Inr (Continue (h, f x d))"
  by (simp_all add: sweep_body_def)

lemma free_node_apply: "free_node h a x = (if x = a then None else h x)"
  by (simp add: free_node_def)

lemma for_each_entry_safe_sweep:
  assumes "dlist h head (ks @ xs)" and "xs = [] \<or> q = hd (tl xs @ [head])"
  shows "\<exists>h'. for_each_entry_safe (sweep_body P f) (hd (xs @ [head])) q head (h, d)
      = Some (Inr (Continue (h', fold f xs d)))
    \<and> dlist h' head (ks @ filter (\<lambda>x. \<not> P x) xs)
    \<and> (\<forall>x. x \<notin> set (head # ks @ xs) \<longrightarrow> h' x = h x)
    \<and> (\<forall>x \<in> set xs. P x \<longrightarrow> h' x = None)"
  using assms
proof (induction xs arbitrary: ks q h d)
  case Nil
  then show ?case by (simp add: for_each_entry_safe.simps)
next
  case (Cons x xs)
  have q: "q = hd (xs @ [head])" and x: "x \<noteq> head" "x \<notin> set (ks @ xs)"
    using Cons.prems by (auto simp: dlist_def)
  show ?case
  proof (cases "P x")
    case True
    obtain h1 where h1: "list_delete_entry h x = Inr h1" "dlist h1 head (ks @ xs)" "dom h1 = dom h"
      "\<forall>y. y \<notin> set (head # ks @ xs) \<longrightarrow> h1 y = h y"
      using list_delete_dlist [OF Cons.prems(1)] by blast
    have dl: "dlist (free_node h1 x) head (ks @ xs)"
      using free_node_dlist [OF h1(2), of x] x by simp
    obtain q' where q': "ld_next (free_node h1 x) q = Inr q'" "xs = [] \<or> q' = hd (tl xs @ [head])"
      using ld_next_ahead [OF dl] q by auto
    have frame: "\<forall>y. y \<notin> set (head # ks @ xs) \<longrightarrow> free_node h1 x y = (if y = x then None else h y)"
      using h1(4) by (simp add: free_node_apply)
    from Cons.IH [OF dl q'(2), of "f x d"] True h1(1) q q' x frame show ?thesis
      by (auto simp: for_each_entry_safe.simps [of _ x] sweep_body_step)
  next
    case False
    have dl: "dlist h head ((ks @ [x]) @ xs)" using Cons.prems by simp
    obtain q' where q': "ld_next h q = Inr q'" "xs = [] \<or> q' = hd (tl xs @ [head])"
      using ld_next_ahead [OF dl] q by auto
    from Cons.IH [OF dl q'(2), of "f x d"] False q q' x show ?thesis
      by (auto simp: for_each_entry_safe.simps [of _ x] sweep_body_step)
  qed
qed

lemma list_for_each_entry_safe_sweep:
  assumes "dlist h head xs"
  shows "\<exists>h'. list_for_each_entry_safe (sweep_body P f :: _ \<Rightarrow> _ \<Rightarrow> (_, 'r) flow result) head (h, d)
      = Some (Inr (Continue (h', fold f xs d)))
    \<and> dlist h' head (filter (\<lambda>x. \<not> P x) xs)
    \<and> (\<forall>x. x \<notin> set (head # xs) \<longrightarrow> h' x = h x)
    \<and> (\<forall>x \<in> set xs. P x \<longrightarrow> h' x = None)"
proof -
  obtain q where "list_for_each_entry_safe (sweep_body P f :: _ \<Rightarrow> _ \<Rightarrow> (_, 'r) flow result) head (h, d)
      = for_each_entry_safe (sweep_body P f) (hd (xs @ [head])) q head (h, d)"
    "xs = [] \<or> q = hd (tl xs @ [head])"
    using list_for_each_entry_safe_start [OF assms, of "sweep_body P f" d] by auto
  with for_each_entry_safe_sweep [of h head "[]" xs q P f d] assms show ?thesis by simp
qed

lemma ld_next_freed: "ld_next (free_node h a) a = Inl OutOfBounds"
  by (simp add: ld_next_def free_node_def)

text \<open>
  The plain macro reads \<open>pos->next\<close> after the body: with a body that frees the node, that read is
  an access to freed memory.
\<close>

lemma list_for_each_entry_sweep_fails:
  assumes "dlist h head (x # xs)" and "P x"
  shows "list_for_each_entry (sweep_body P f) head (h, d) = Some (Inl OutOfBounds)"
proof -
  have "x \<noteq> head" using assms(1) by (auto simp: dlist_def)
  moreover obtain h1 where "list_delete_entry h x = Inr h1"
    by (rule list_delete_dlist [of h head "[]" x xs]) (use assms(1) in simp_all)
  ultimately show ?thesis
    using assms by (simp add: list_for_each_entry_def ld_next_head for_each_entry.simps [of _ x]
      sweep_body_step ld_next_freed)
qed

text \<open>A loop that only updates the caller's data visits every node once, in list order.\<close>

definition visit_body :: "(addr \<Rightarrow> 'd \<Rightarrow> 'd) \<Rightarrow> addr \<Rightarrow> heap \<times> 'd \<Rightarrow> (heap \<times> 'd, 'r) flow result" where
  "visit_body f pos s = Inr (Continue (fst s, f pos (snd s)))"

lemma for_each_entry_visit:
  "dlist h head (ks @ xs) \<Longrightarrow>
     for_each_entry (visit_body f) (hd (xs @ [head])) head (h, d)
       = Some (Inr (Continue (h, fold f xs d)))"
proof (induction xs arbitrary: ks d)
  case Nil
  then show ?case by (simp add: for_each_entry.simps)
next
  case (Cons x xs)
  have "x \<noteq> head" and "ld_next h x = Inr (hd (xs @ [head]))"
    using Cons.prems ld_next_dlist by (auto simp: dlist_def)
  with Cons.IH [of "ks @ [x]" "f x d"] Cons.prems show ?case
    by (simp add: for_each_entry.simps [of _ x] visit_body_def)
qed

lemma list_for_each_entry_visit:
  "dlist h head xs \<Longrightarrow>
     list_for_each_entry (visit_body f) head (h, d) = Some (Inr (Continue (h, fold f xs d)))"
  using for_each_entry_visit [of h head "[]" xs f d]
  by (simp add: list_for_each_entry_def ld_next_head)

section \<open>The interface the clients of list.h rely on\<close>

text \<open>
  What a client may assume of a list implementation on a store \<open>'h\<close> with nodes \<open>'n\<close>: a new node
  goes to the end, a member can be unlinked, the allocated nodes stay the same.
\<close>

locale list_impl =
  fixes repr :: "'h \<Rightarrow> 'n \<Rightarrow> 'n list \<Rightarrow> bool"
    and allocated :: "'h \<Rightarrow> 'n set"
    and add_tail :: "'h \<Rightarrow> 'n \<Rightarrow> 'n \<Rightarrow> 'h result"
    and unlink :: "'h \<Rightarrow> 'n \<Rightarrow> 'h result"
  assumes repr_add_tail: "repr h l xs \<Longrightarrow> n \<in> allocated h \<Longrightarrow> n \<notin> set (l # xs) \<Longrightarrow>
      \<exists>h'. add_tail h n l = Inr h' \<and> repr h' l (xs @ [n]) \<and> allocated h' = allocated h"
    and repr_unlink: "repr h l (xs @ n # ys) \<Longrightarrow>
      \<exists>h'. unlink h n = Inr h' \<and> repr h' l (xs @ ys) \<and> allocated h' = allocated h"
begin

lemma add_all:
  "repr h l xs \<Longrightarrow> set ns \<subseteq> allocated h \<Longrightarrow> distinct ns \<Longrightarrow> set ns \<inter> set (l # xs) = {} \<Longrightarrow>
     \<exists>h'. fold_r (\<lambda>n h. add_tail h n l) ns h = Inr h' \<and> repr h' l (xs @ ns) \<and> allocated h' = allocated h"
proof (induction ns arbitrary: h xs)
  case Nil
  then show ?case by simp
next
  case (Cons n ns)
  then obtain h1 where h1: "add_tail h n l = Inr h1" "repr h1 l (xs @ [n])" "allocated h1 = allocated h"
    using repr_add_tail [of h l xs n] by auto
  from Cons.IH [OF h1(2)] h1 Cons.prems show ?case by auto
qed

lemma unlink_all:
  "repr h l xs \<Longrightarrow> \<exists>h'. fold_r (\<lambda>n h. unlink h n) xs h = Inr h' \<and> repr h' l [] \<and> allocated h' = allocated h"
proof (induction xs arbitrary: h)
  case (Cons x xs)
  then obtain h1 where "unlink h x = Inr h1" "repr h1 l xs" "allocated h1 = allocated h"
    using repr_unlink [of h l "[]" x xs] by auto
  with Cons.IH [of h1] show ?case by auto
qed simp

lemma add_then_unlink:
  assumes "repr h l xs" "n \<in> allocated h" "n \<notin> set (l # xs)"
  shows "\<exists>h'. bind_r (add_tail h n l) (\<lambda>h. unlink h n) = Inr h' \<and> repr h' l xs"
proof -
  obtain h1 where h1: "add_tail h n l = Inr h1" "repr h1 l (xs @ [n])"
    using repr_add_tail [OF assms] by auto
  then show ?thesis using repr_unlink [of h1 l xs n "[]"] by auto
qed

end

interpretation clist: list_impl dlist dom list_add_tail list_delete_entry
proof unfold_locales
  show "\<exists>h'. list_add_tail h n l = Inr h' \<and> dlist h' l (xs @ [n]) \<and> dom h' = dom h"
    if "dlist h l xs" "n \<in> dom h" "n \<notin> set (l # xs)" for h l xs n
    using list_add_tail_dlist [OF that] by metis
  show "\<exists>h'. list_delete_entry h n = Inr h' \<and> dlist h' l (xs @ ys) \<and> dom h' = dom h"
    if "dlist h l (xs @ n # ys)" for h l xs n ys
    using list_delete_dlist [OF that] by metis
qed

section \<open>Properties\<close>

definition demo_heap :: heap where
  "demo_heap = [0 \<mapsto> \<lparr>nxt = 1, prv = 2\<rparr>, 1 \<mapsto> \<lparr>nxt = 2, prv = 0\<rparr>, 2 \<mapsto> \<lparr>nxt = 0, prv = 1\<rparr>,
     3 \<mapsto> \<lparr>nxt = 0, prv = 0\<rparr>, 4 \<mapsto> \<lparr>nxt = 0, prv = 0\<rparr>]"

lemma demo_heap_dlist: "dlist demo_heap 0 [1, 2]" "dom demo_heap = {0, 1, 2, 3, 4}"
  by (auto simp: dlist_def link_def demo_heap_def)

text \<open>Filling and emptying a list: adding distinct new nodes one after the other with
  \<open>list_add_tail\<close> gives the list in that order, and unlinking its elements front to back gives the
  empty list. No operation fails, and none allocates or frees a node.\<close>

theorem list_fill_and_empty:
  assumes "dlist h l xs" and "set ns \<subseteq> dom h" and "distinct ns" and "set ns \<inter> set (l # xs) = {}"
  shows "\<exists>h1 h2. fold_r (\<lambda>n h. list_add_tail h n l) ns h = Inr h1 \<and> dlist h1 l (xs @ ns)
    \<and> fold_r (\<lambda>n h. list_delete_entry h n) (xs @ ns) h1 = Inr h2 \<and> dlist h2 l [] \<and> dom h2 = dom h"
proof -
  obtain h1 where "fold_r (\<lambda>n h. list_add_tail h n l) ns h = Inr h1" "dlist h1 l (xs @ ns)" "dom h1 = dom h"
    using clist.add_all [OF assms] by blast
  moreover obtain h2 where "fold_r (\<lambda>n h. list_delete_entry h n) (xs @ ns) h1 = Inr h2" "dlist h2 l []" "dom h2 = dom h1"
    using clist.unlink_all calculation(2) by blast
  ultimately show ?thesis by simp
qed

theorem list_fill_and_empty_witness:
  "\<exists>h1 h2. fold_r (\<lambda>n h. list_add_tail h n 0) [4, 3] demo_heap = Inr h1 \<and> dlist h1 0 ([1, 2] @ [4, 3])
    \<and> fold_r (\<lambda>n h. list_delete_entry h n) ([1, 2] @ [4, 3]) h1 = Inr h2 \<and> dlist h2 0 [] \<and> dom h2 = dom demo_heap"
  by (rule list_fill_and_empty [OF demo_heap_dlist(1)]) (simp_all add: demo_heap_dlist)

text \<open>C33. \<open>list_for_each_entry_safe\<close> with a body that unlinks and frees the nodes that satisfy \<open>P\<close>
  terminates without touching freed memory: it visits every node once and in order, what is left
  is a well-formed list of the other nodes, the nodes outside the list are unchanged and the removed
  ones are freed.\<close>

theorem safe_sweep_correct:
  assumes "dlist h head xs"
  shows "\<exists>h'. list_for_each_entry_safe (sweep_body P f :: _ \<Rightarrow> _ \<Rightarrow> (_, unit) flow result) head (h, d)
      = Some (Inr (Continue (h', fold f xs d)))
    \<and> dlist h' head (filter (\<lambda>x. \<not> P x) xs)
    \<and> (\<forall>x. x \<notin> set (head # xs) \<longrightarrow> h' x = h x)
    \<and> (\<forall>x \<in> set xs. P x \<longrightarrow> h' x = None)"
  by (rule list_for_each_entry_safe_sweep [OF assms])

theorem safe_sweep_correct_witness:
  "\<exists>h'. list_for_each_entry_safe (sweep_body (\<lambda>x. x = 1) (#) :: _ \<Rightarrow> _ \<Rightarrow> (_, unit) flow result) 0 (demo_heap, [])
      = Some (Inr (Continue (h', [2, 1]))) \<and> dlist h' 0 [2]"
  using safe_sweep_correct [OF demo_heap_dlist(1), of "\<lambda>x. x = 1" "(#)" "[]"] by auto

text \<open>The plain macro is not enough for that: as soon as the body frees the first element,
  \<open>list_for_each_entry\<close> reads the freed node.\<close>

theorem plain_sweep_use_after_free:
  assumes "dlist h head (x # xs)" and "P x"
  shows "list_for_each_entry (sweep_body P f :: _ \<Rightarrow> _ \<Rightarrow> (_, unit) flow result) head (h, d) = Some (Inl OutOfBounds)"
  by (rule list_for_each_entry_sweep_fails) (use assms in auto)

theorem plain_sweep_use_after_free_witness:
  "list_for_each_entry (sweep_body (\<lambda>x. x = 1) (\<lambda>_ d. d) :: _ \<Rightarrow> _ \<Rightarrow> (_, unit) flow result) 0 (demo_heap, ())
     = Some (Inl OutOfBounds)"
  by (rule plain_sweep_use_after_free [OF demo_heap_dlist(1)]) simp

end
