(* ===== verification/Buckets.thy ===== *)
theory Buckets
  imports ListHead
begin

text \<open>
  Tables of the programs as they lie in memory: an array of list heads, and on every list the
  entries the program allocated. A store maps the address of an entry to its data; the list nodes
  inside the entries are in the heap of theory \<open>ListHead\<close>, under the same addresses
  (\<^verbatim>\<open>list_entry\<close> subtracts the offset of the node in the struct). The array of heads
  occupies the addresses from 1 on; address 0 is the null pointer.

  A loop over the array with one of the iteration macros inside is \<open>for_buckets\<close>. The
  lemmas show, once for all loops, that a loop whose body looks at the current
  entry and then keeps it, or unlinks and frees it, and goes on or returns, computes the
  recursion \<open>visit_buckets\<close> on lists of lists: it ends, touches no freed memory, and frees exactly what it unlinks.
\<close>

section \<open>Entries\<close>

type_synonym 'e store = "addr \<Rightarrow> 'e option"

definition bucket_head :: "nat \<Rightarrow> addr" where
  "bucket_head i = Suc i"

definition ld_entry :: "'e store \<Rightarrow> addr \<Rightarrow> 'e result" where
  "ld_entry d a = (case d a of None \<Rightarrow> Inl OutOfBounds | Some e \<Rightarrow> Inr e)"

text \<open>\<open>malloc\<close> and \<open>bzero\<close> of an entry at a new address: its list node is cleared.\<close>

definition malloc_node :: "heap \<Rightarrow> addr \<Rightarrow> heap" where
  "malloc_node h a = h(a \<mapsto> \<lparr>nxt = 0, prv = 0\<rparr>)"

text \<open>The array of heads after \<open>bzero\<close> or \<open>memset\<close>.\<close>

definition zeroed_heads :: "nat \<Rightarrow> heap" where
  "zeroed_heads n = (\<lambda>a. if 1 \<le> a \<and> a \<le> n then Some \<lparr>nxt = 0, prv = 0\<rparr> else None)"

text \<open>\<open>free\<close> of an entry with its list node; freeing what is not allocated is an error.\<close>

definition free_entry :: "heap \<Rightarrow> 'e store \<Rightarrow> addr \<Rightarrow> (heap \<times> 'e store) result" where
  "free_entry h d a = bind_r (ld_entry d a) (\<lambda>e. Inr (free_node h a, d(a := None)))"

text \<open>
  The addresses \<open>malloc\<close> returns are a parameter of the model; what the programs rely on is
  that it succeeds with an address that is not in use.
\<close>

definition malloc_fresh :: "(heap \<Rightarrow> addr) \<Rightarrow> bool" where
  "malloc_fresh malloc \<longleftrightarrow> (\<forall>h. finite (dom h) \<longrightarrow> malloc h \<notin> dom h \<and> malloc h \<noteq> 0)"

section \<open>Loops\<close>

text \<open>\<open>for (i = 0; ...)\<close> over the given indices; the body may return from the function.\<close>

fun for_buckets :: "(nat \<Rightarrow> 's \<Rightarrow> ('s, 'r) flow result option) \<Rightarrow> nat list \<Rightarrow> 's \<Rightarrow> ('s, 'r) flow result option" where
  "for_buckets body [] s = Some (Inr (Continue s))"
| "for_buckets body (i # is) s =
     (case body i s of
        Some (Inr (Continue s')) \<Rightarrow> for_buckets body is s'
      | r \<Rightarrow> r)"

text \<open>The code behind a loop: \<open>fin\<close> if the loop ran to its end, \<open>ret\<close> if its body returned.\<close>

definition after_loop :: "('s \<Rightarrow> 'x) \<Rightarrow> ('r \<Rightarrow> 's \<Rightarrow> 'x) \<Rightarrow> ('s, 'r) flow result option \<Rightarrow> 'x result option" where
  "after_loop fin ret r = (case r of
     None \<Rightarrow> None
   | Some (Inl e) \<Rightarrow> Some (Inl e)
   | Some (Inr (Continue s)) \<Rightarrow> Some (Inr (fin s))
   | Some (Inr (Return x s)) \<Rightarrow> Some (Inr (ret x s)))"

text \<open>Sequencing with a loop: it may not end, or fail.\<close>

definition bind_p :: "'a result option \<Rightarrow> ('a \<Rightarrow> 'b result option) \<Rightarrow> 'b result option" where
  "bind_p m f = (case m of None \<Rightarrow> None | Some (Inl e) \<Rightarrow> Some (Inl e) | Some (Inr x) \<Rightarrow> f x)"

text \<open>A search loop that returns the address of the first entry with a property.\<close>

definition find_entry :: "('e \<Rightarrow> bool) \<Rightarrow> addr \<Rightarrow> heap \<times> 'e store \<Rightarrow> (heap \<times> 'e store, addr) flow result" where
  "find_entry P pos s = bind_r (ld_entry (snd s) pos) (\<lambda>e. Inr (if P e then Return pos s else Continue s))"

text \<open>
  The general body: from the entry and the caller's variables, \<open>f\<close> decides whether the
  entry is unlinked and freed, and whether the loop goes on.
\<close>

definition visit_entry ::
  "('e \<Rightarrow> 'c \<Rightarrow> (bool \<times> ('c, 'r) flow) result) \<Rightarrow> addr \<Rightarrow> heap \<times> 'e store \<times> 'c
     \<Rightarrow> (heap \<times> 'e store \<times> 'c, 'r) flow result" where
  "visit_entry f pos s = (case s of (h, d, c) \<Rightarrow>
     bind_r (ld_entry d pos) (\<lambda>e.
     bind_r (f e c) (\<lambda>(del, fl).
       if del then bind_r (list_delete_entry h pos) (\<lambda>h.
         Inr (map_flow (\<lambda>c. (free_node h pos, d(pos := None), c)) id fl))
       else Inr (map_flow (\<lambda>c. (h, d, c)) id fl))))"

fun visit_list :: "('e \<Rightarrow> 'c \<Rightarrow> (bool \<times> ('c, 'r) flow) result) \<Rightarrow> 'e list \<Rightarrow> 'c \<Rightarrow> ('e list \<times> ('c, 'r) flow) result" where
  "visit_list f [] c = Inr ([], Continue c)"
| "visit_list f (e # es) c =
     bind_r (f e c) (\<lambda>(del, fl).
       case fl of
         Return r c \<Rightarrow> Inr (if del then es else e # es, Return r c)
       | Continue c \<Rightarrow> bind_r (visit_list f es c) (\<lambda>(es, fl). Inr (if del then es else e # es, fl)))"

fun visit_buckets :: "('e \<Rightarrow> 'c \<Rightarrow> (bool \<times> ('c, 'r) flow) result) \<Rightarrow> 'e list list \<Rightarrow> 'c \<Rightarrow> ('e list list \<times> ('c, 'r) flow) result" where
  "visit_buckets f [] c = Inr ([], Continue c)"
| "visit_buckets f (b # bs) c =
     bind_r (visit_list f b c) (\<lambda>(b, fl).
       case fl of
         Return r c \<Rightarrow> Inr (b # bs, Return r c)
       | Continue c \<Rightarrow> bind_r (visit_buckets f bs c) (\<lambda>(bs, fl). Inr (b # bs, fl)))"

section \<open>Tables in memory\<close>

definition entries_at :: "'e store \<Rightarrow> addr list \<Rightarrow> 'e list \<Rightarrow> bool" where
  "entries_at d xs es \<longleftrightarrow> list_all2 (\<lambda>a e. d a = Some e) xs es"

text \<open>
  \<open>table_at h d G ass t\<close>: list \<open>i\<close> of the array links the nodes \<open>ass ! i\<close>, whose entries are \<open>t ! i\<close>;
  the lists share no node. Apart from the heads and these nodes, only the entries \<open>G\<close> are
  allocated: they are on no list, the program has lost them.
\<close>

definition table_at :: "heap \<Rightarrow> 'e store \<Rightarrow> addr set \<Rightarrow> addr list list \<Rightarrow> 'e list list \<Rightarrow> bool" where
  "table_at h d G ass t \<longleftrightarrow> length ass = length t
     \<and> (\<forall>i < length t. dlist h (bucket_head i) (ass ! i) \<and> entries_at d (ass ! i) (t ! i))
     \<and> (\<forall>i < length t. \<forall>j < length t. i \<noteq> j \<longrightarrow> set (ass ! i) \<inter> set (ass ! j) = {})
     \<and> (\<forall>i < length t. G \<inter> set (ass ! i) = {})
     \<and> dom d = (\<Union>i < length t. set (ass ! i)) \<union> G \<and> (\<forall>a \<in> dom d. length t < a)
     \<and> dom h = {1..length t} \<union> dom d"

text \<open>What a loop that removes entries of one list may change: \<open>xs\<close> became \<open>ys\<close>, the rest was freed.\<close>

definition swept :: "addr \<Rightarrow> heap \<Rightarrow> 'e store \<Rightarrow> addr list \<Rightarrow> heap \<Rightarrow> 'e store \<Rightarrow> addr list \<Rightarrow> bool" where
  "swept l h d xs h' d' ys \<longleftrightarrow> set ys \<subseteq> set xs \<and> dlist h' l ys
     \<and> (\<forall>x. x \<notin> set (l # xs) \<longrightarrow> h' x = h x)
     \<and> dom h' = dom h - (set xs - set ys)
     \<and> (\<forall>x. d' x = (if x \<in> set xs - set ys then None else d x))"

lemma swept_refl: "dlist h l xs \<Longrightarrow> swept l h d xs h d xs"
  by (simp add: swept_def)

lemma swept_trans:
  assumes "swept l h d xs h1 d1 ys" and "swept l h1 d1 ys h2 d2 zs"
  shows "swept l h d xs h2 d2 zs"
  using assms unfolding swept_def by (intro conjI; auto; blast?)

lemma entries_at_simps [simp]:
  "entries_at d [] es \<longleftrightarrow> es = []"
  "entries_at d (x # xs) es \<longleftrightarrow> (\<exists>e es'. es = e # es' \<and> d x = Some e \<and> entries_at d xs es')"
  "entries_at d xs [] \<longleftrightarrow> xs = []"
  by (cases es; auto simp: entries_at_def)+

lemma entries_at_cong:
  "(\<And>x. x \<in> set xs \<Longrightarrow> d' x = d x) \<Longrightarrow> entries_at d' xs es = entries_at d xs es"
  by (induction xs arbitrary: es) auto

lemma entries_at_upd [simp]: "x \<notin> set xs \<Longrightarrow> entries_at (d(x := v)) xs es = entries_at d xs es"
  by (rule entries_at_cong) auto

lemma entries_at_snoc: "entries_at d xs es \<Longrightarrow> d a = Some e \<Longrightarrow> entries_at d (xs @ [a]) (es @ [e])"
  by (simp add: entries_at_def list_all2_appendI)

lemma entries_at_in_dom: "entries_at d xs es \<Longrightarrow> set xs \<subseteq> dom d"
  by (induction xs arbitrary: es) auto

text \<open>Unlinking and freeing one node.\<close>

lemma delete_free_swept:
  assumes "dlist h l (ks @ x # xs)"
  obtains h' where "list_delete_entry h x = Inr h'"
    "swept l h d (ks @ x # xs) (free_node h' x) (d(x := None)) (ks @ xs)"
proof -
  obtain h1 where h1: "list_delete_entry h x = Inr h1" "dlist h1 l (ks @ xs)" "dom h1 = dom h"
    "\<forall>y. y \<notin> set (l # ks @ xs) \<longrightarrow> h1 y = h y"
    using list_delete_dlist [OF assms] by blast
  have x: "x \<notin> set (l # ks @ xs)" using assms by (auto simp: dlist_def)
  have "dom (free_node h1 x) = dom h - {x}" using h1(3) by (auto simp: free_node_def)
  moreover have "set (ks @ x # xs) - set (ks @ xs) = {x}" using x by auto
  ultimately have "swept l h d (ks @ x # xs) (free_node h1 x) (d(x := None)) (ks @ xs)"
    using free_node_dlist [OF h1(2) x] h1(4) x by (auto simp: swept_def free_node_apply fun_eq_iff)
  then show thesis using that h1(1) by blast
qed

section \<open>The loop over one list\<close>

lemma visit_entry_step:
  assumes "d x = Some e"
  shows "f e c = Inl er \<Longrightarrow> visit_entry f x (h, d, c) = Inl er"
    "f e c = Inr (False, fl) \<Longrightarrow> visit_entry f x (h, d, c) = Inr (map_flow (\<lambda>c. (h, d, c)) id fl)"
    "f e c = Inr (True, fl) \<Longrightarrow> list_delete_entry h x = Inr h' \<Longrightarrow>
       visit_entry f x (h, d, c) = Inr (map_flow (\<lambda>c. (free_node h' x, d(x := None), c)) id fl)"
  using assms by (simp_all add: visit_entry_def ld_entry_def)

text \<open>The result of a loop on memory, compared with the result on lists.\<close>

definition loop_ok ::
  "addr \<Rightarrow> heap \<Rightarrow> 'e store \<Rightarrow> addr list \<Rightarrow> addr list \<Rightarrow> (heap \<times> 'e store \<times> 'c, 'r) flow result option
     \<Rightarrow> ('e list \<times> ('c, 'r) flow) result \<Rightarrow> bool" where
  "loop_ok l h d ks xs r m \<longleftrightarrow> (case m of
     Inl er \<Rightarrow> r = Some (Inl er)
   | Inr (es, fl) \<Rightarrow> (\<exists>h' d' ys. r = Some (Inr (map_flow (\<lambda>c. (h', d', c)) id fl))
       \<and> swept l h d (ks @ xs) h' d' (ks @ ys) \<and> entries_at d' ys es))"

lemma loop_okI:
  "r = Some (Inr (map_flow (\<lambda>c. (h', d', c)) id fl)) \<Longrightarrow> swept l h d (ks @ xs) h' d' (ks @ ys) \<Longrightarrow>
     entries_at d' ys es \<Longrightarrow> loop_ok l h d ks xs r (Inr (es, fl))"
  by (auto simp: loop_ok_def)

lemma loop_ok_step:
  assumes sw: "swept l h d (ks @ x # xs) h2 d2 (ks2 @ xs)" and ok: "loop_ok l h2 d2 ks2 xs r m"
    and ks2: "ks2 = (if del then ks else ks @ [x])" and x: "\<not> del \<Longrightarrow> d2 x = Some e"
  shows "loop_ok l h d ks (x # xs) r (bind_r m (\<lambda>(es, fl). Inr (if del then es else e # es, fl)))"
proof (cases m)
  case (Inl er)
  then show ?thesis using ok by (simp add: loop_ok_def)
next
  case (Inr p)
  obtain es fl where p: "p = (es, fl)" by (cases p)
  obtain h' d' ys where r: "r = Some (Inr (map_flow (\<lambda>c. (h', d', c)) id fl))"
    "swept l h2 d2 (ks2 @ xs) h' d' (ks2 @ ys)" "entries_at d' ys es"
    using ok Inr p by (auto simp: loop_ok_def)
  have "swept l h d (ks @ x # xs) h' d' (ks @ (if del then ys else x # ys))"
    using swept_trans [OF sw r(2)] by (simp add: ks2 split: if_splits)
  moreover have "d' x = Some e" if "\<not> del" using r(2) x that by (simp add: swept_def ks2)
  then have "entries_at d' (if del then ys else x # ys) (if del then es else e # es)" using r(3) by auto
  ultimately show ?thesis using loop_okI [OF r(1)] Inr p by simp
qed

lemma for_each_entry_safe_visit:
  assumes "dlist h l (ks @ xs)" and "entries_at d xs es" and "xs = [] \<or> q = hd (tl xs @ [l])"
  shows "loop_ok l h d ks xs (for_each_entry_safe (visit_entry f) (hd (xs @ [l])) q l (h, d, c)) (visit_list f es c)"
  using assms
proof (induction xs arbitrary: ks q h d c es)
  case Nil
  then show ?case by (auto simp: loop_ok_def for_each_entry_safe.simps intro!: exI [of _ "[]"] swept_refl)
next
  case (Cons x xs)
  from Cons.prems obtain e es1 where es: "es = e # es1" "d x = Some e" "entries_at d xs es1" by auto
  have q: "q = hd (xs @ [l])" and x: "x \<noteq> l" "x \<notin> set (ks @ xs)" using Cons.prems by (auto simp: dlist_def)
  note loop = for_each_entry_safe.simps [of "visit_entry f" x q l "(h, d, c)"]
  show ?case
  proof (cases "f e c")
    case (Inl er)
    then show ?thesis using x es by (simp add: loop_ok_def loop visit_entry_step(1) [of d x e])
  next
    case (Inr p)
    obtain del fl where p: "p = (del, fl)" by (cases p)
    define h2 where "h2 = (if del then free_node (case list_delete_entry h x of Inr h' \<Rightarrow> h' | Inl _ \<Rightarrow> h) x else h)"
    define d2 where "d2 = (if del then d(x := None) else d)"
    define ks2 where "ks2 = (if del then ks else ks @ [x])"
    have body: "visit_entry f x (h, d, c) = Inr (map_flow (\<lambda>c. (h2, d2, c)) id fl)"
      and sw: "swept l h d (ks @ x # xs) h2 d2 (ks2 @ xs)"
    proof -
      obtain h' where "list_delete_entry h x = Inr h'"
        "swept l h d (ks @ x # xs) (free_node h' x) (d(x := None)) (ks @ xs)"
        using delete_free_swept [OF Cons.prems(1)] by blast
      then show "visit_entry f x (h, d, c) = Inr (map_flow (\<lambda>c. (h2, d2, c)) id fl)"
        "swept l h d (ks @ x # xs) h2 d2 (ks2 @ xs)"
        using Inr p es(2) Cons.prems(1)
        by (auto simp: visit_entry_step h2_def d2_def ks2_def intro: swept_refl)
    qed
    have dl: "dlist h2 l (ks2 @ xs)" using sw by (simp add: swept_def)
    have ent: "entries_at d2 xs es1" using es(3) x(2) by (simp add: d2_def)
    have mem: "entries_at d2 (if del then ys else x # ys) (if del then es' else e # es')"
      if "entries_at d2 ys es'" for ys es' using that es(2) by (auto simp: d2_def)
    show ?thesis
    proof (cases fl)
      case (Return r c')
      have "swept l h d (ks @ x # xs) h2 d2 (ks @ (if del then xs else x # xs))"
        using sw by (simp add: ks2_def split: if_splits)
      moreover have "for_each_entry_safe (visit_entry f) (hd ((x # xs) @ [l])) q l (h, d, c)
          = Some (Inr (map_flow (\<lambda>c. (h2, d2, c)) id fl))"
        using x body Return by (simp add: loop)
      moreover have "visit_list f es c = Inr (if del then es1 else e # es1, fl)"
        using es(1) Inr p Return by simp
      ultimately show ?thesis using loop_okI [OF _ _ mem [OF ent], of _ h2 fl l h d ks "x # xs"] by simp
    next
      case (Continue c')
      obtain q' where q': "ld_next h2 q = Inr q'" "xs = [] \<or> q' = hd (tl xs @ [l])"
        using ld_next_ahead [OF dl] q by auto
      have ok: "loop_ok l h2 d2 ks2 xs (for_each_entry_safe (visit_entry f) q q' l (h2, d2, c')) (visit_list f es1 c')"
        using Cons.IH [OF dl ent q'(2), of c'] q by simp
      have run: "for_each_entry_safe (visit_entry f) (hd ((x # xs) @ [l])) q l (h, d, c)
          = for_each_entry_safe (visit_entry f) q q' l (h2, d2, c')"
        using x body Continue q' by (simp add: loop)
      have res: "visit_list f es c = bind_r (visit_list f es1 c') (\<lambda>(es, fl). Inr (if del then es else e # es, fl))"
        by (simp add: es(1) Inr p Continue)
      show ?thesis
        unfolding run res by (rule loop_ok_step [OF sw ok ks2_def]) (simp add: d2_def es(2))
    qed
  qed
qed

lemma list_for_each_entry_safe_visit:
  assumes "dlist h l xs" and "entries_at d xs es"
  shows "loop_ok l h d [] xs (list_for_each_entry_safe (visit_entry f) l (h, d, c)) (visit_list f es c)"
proof -
  obtain q where "list_for_each_entry_safe (visit_entry f) l (h, d, c)
      = for_each_entry_safe (visit_entry f) (hd (xs @ [l])) q l (h, d, c)" "xs = [] \<or> q = hd (tl xs @ [l])"
    using list_for_each_entry_safe_start [OF assms(1), of "visit_entry f" "(d, c)"] by auto
  then show ?thesis using for_each_entry_safe_visit [of h l "[]" xs d es q f c] assms by simp
qed

text \<open>
  The plain macro with a body that removes nothing: \<open>g\<close> is what it does to the caller's variables.
\<close>

definition keep :: "('e \<Rightarrow> 'c \<Rightarrow> ('c, 'r) flow result) \<Rightarrow> 'e \<Rightarrow> 'c \<Rightarrow> (bool \<times> ('c, 'r) flow) result" where
  "keep g e c = bind_r (g e c) (\<lambda>fl. Inr (False, fl))"

lemma visit_list_keep: "visit_list (keep g) es c = Inr (es', fl) \<Longrightarrow> es' = es"
proof (induction es arbitrary: c es' fl)
  case (Cons e es)
  then obtain fl1 where g: "g e c = Inr fl1" by (auto simp: keep_def bind_r_eq_Inr)
  with Cons show ?case by (cases fl1) (auto simp: keep_def bind_r_eq_Inr)
qed simp

lemma for_each_entry_visit_keep:
  assumes "dlist h l (ks @ xs)" and "entries_at d xs es"
  shows "for_each_entry (visit_entry (keep g)) (hd (xs @ [l])) l (h, d, c)
    = Some (bind_r (visit_list (keep g) es c) (\<lambda>(es, fl). Inr (map_flow (\<lambda>c. (h, d, c)) id fl)))"
  using assms
proof (induction xs arbitrary: ks es c)
  case Nil
  then show ?case by (simp add: for_each_entry.simps)
next
  case (Cons x xs)
  from Cons.prems obtain e es1 where es: "es = e # es1" "d x = Some e" "entries_at d xs es1" by auto
  have x: "x \<noteq> l" "ld_next h x = Inr (hd (xs @ [l]))"
    using Cons.prems(1) ld_next_dlist by (auto simp: dlist_def)
  note IH = Cons.IH [of "ks @ [x]" es1]
  have keep: "g e c = Inl er \<Longrightarrow> keep g e c = Inl er" "g e c = Inr fl \<Longrightarrow> keep g e c = Inr (False, fl)" for er fl
    by (simp_all add: keep_def)
  show ?case
  proof (cases "g e c")
    case (Inl er)
    then show ?thesis
      using es x by (simp add: for_each_entry.simps [of _ x] visit_entry_step(1) [of d x e] keep)
  next
    case (Inr fl)
    have run: "for_each_entry (visit_entry (keep g)) x l (h, d, c)
        = (case fl of Return r c \<Rightarrow> Some (Inr (Return r (h, d, c)))
           | Continue c \<Rightarrow> for_each_entry (visit_entry (keep g)) (hd (xs @ [l])) l (h, d, c))"
      using es(2) x Inr by (simp add: for_each_entry.simps [of _ x] visit_entry_step(2) [of d x e] keep split: flow.splits)
    show ?thesis
    proof (cases fl)
      case (Continue c')
      then show ?thesis
        using run IH [of c'] Cons.prems es Inr keep(2)
        by (cases "visit_list (keep g) es1 c'") (auto split: prod.splits)
    qed (use run es Inr keep(2) in simp)
  qed
qed

lemma list_for_each_entry_visit_keep:
  assumes "dlist h l xs" and "entries_at d xs es"
  shows "loop_ok l h d [] xs (list_for_each_entry (visit_entry (keep g)) l (h, d, c))
    (visit_list (keep g) es c :: ('e list \<times> ('c, 'r) flow) result)"
proof -
  have "list_for_each_entry (visit_entry (keep g)) l (h, d, c)
    = Some (bind_r (visit_list (keep g) es c) (\<lambda>(es, fl). Inr (map_flow (\<lambda>c. (h, d, c)) id fl)))"
    using for_each_entry_visit_keep [of h l "[]" xs d es g c] assms
    by (simp add: list_for_each_entry_def ld_next_head)
  moreover have "loop_ok l h d [] xs (Some (Inr (map_flow (\<lambda>c. (h, d, c)) id fl))) (Inr (es, fl))" for fl :: "('c, 'r) flow"
    by (rule loop_okI [OF refl _ assms(2)]) (simp add: swept_refl [OF assms(1)])
  ultimately show ?thesis
    using visit_list_keep [of g es c] by (cases "visit_list (keep g) es c") (auto simp: loop_ok_def)
qed

text \<open>\<open>pointer_to d p v\<close>: the pointer \<open>p\<close> (possibly null) points to \<open>v\<close>.\<close>

definition pointer_to :: "'e store \<Rightarrow> addr option \<Rightarrow> 'e option \<Rightarrow> bool" where
  "pointer_to d p v \<longleftrightarrow> (case p of None \<Rightarrow> v = None | Some a \<Rightarrow> v \<noteq> None \<and> d a = v)"

lemma for_each_entry_safe_find:
  assumes "dlist h l (ks @ xs)" and "entries_at d xs es" and "xs = [] \<or> q = hd (tl xs @ [l])"
  shows "\<exists>p. for_each_entry_safe (find_entry P) (hd (xs @ [l])) q l (h, d)
      = Some (Inr (case p of None \<Rightarrow> Continue (h, d) | Some a \<Rightarrow> Return a (h, d)))
    \<and> pointer_to d p (find P es)"
  using assms
proof (induction xs arbitrary: ks q es)
  case Nil
  then show ?case by (auto simp: for_each_entry_safe.simps pointer_to_def intro!: exI [of _ None])
next
  case (Cons x xs)
  from Cons.prems obtain e es1 where es: "es = e # es1" "d x = Some e" "entries_at d xs es1" by auto
  have q: "q = hd (xs @ [l])" and x: "x \<noteq> l" using Cons.prems by (auto simp: dlist_def)
  obtain q' where q': "ld_next h q = Inr q'" "xs = [] \<or> q' = hd (tl xs @ [l])"
    using ld_next_ahead [of h l "ks @ [x]" xs] Cons.prems(1) q by auto
  show ?case
  proof (cases "P e")
    case True
    then show ?thesis using es x
      by (intro exI [of _ "Some x"]) (simp add: for_each_entry_safe.simps [of _ x] find_entry_def ld_entry_def pointer_to_def)
  next
    case False
    then show ?thesis using es x q q' Cons.IH [of "ks @ [x]" es1 q'] Cons.prems(1)
      by (simp add: for_each_entry_safe.simps [of _ x] find_entry_def ld_entry_def)
  qed
qed

lemma list_for_each_entry_safe_find:
  assumes "dlist h l xs" and "entries_at d xs es"
  shows "\<exists>p. list_for_each_entry_safe (find_entry P) l (h, d)
      = Some (Inr (case p of None \<Rightarrow> Continue (h, d) | Some a \<Rightarrow> Return a (h, d)))
    \<and> pointer_to d p (find P es)"
proof -
  obtain q where "list_for_each_entry_safe (find_entry P) l (h, d)
      = for_each_entry_safe (find_entry P) (hd (xs @ [l])) q l (h, d)" "xs = [] \<or> q = hd (tl xs @ [l])"
    using list_for_each_entry_safe_start [OF assms(1), of "find_entry P" d] by auto
  then show ?thesis using for_each_entry_safe_find [of h l "[]" xs d es q P] assms by simp
qed

lemma bind_p_simps [simp, result_simps]:
  "bind_p None f = None" "bind_p (Some (Inl e)) f = Some (Inl e)" "bind_p (Some (Inr x)) f = f x"
  by (simp_all add: bind_p_def)

section \<open>The loop over the array\<close>

lemma table_at_lists:
  assumes "table_at h d G ass t" and "i < length t"
  shows "dlist h (bucket_head i) (ass ! i)" "entries_at d (ass ! i) (t ! i)"
  using assms by (auto simp: table_at_def)

lemma dlist_frame: "(\<And>x. x \<in> set (l # xs) \<Longrightarrow> h' x = h x) \<Longrightarrow> dlist h' l xs = dlist h l xs"
  unfolding dlist_def by (subst chain_frame) (auto dest: in_set_butlastD)

lemma dlist_malloc: "a \<notin> set (l # xs) \<Longrightarrow> dlist (malloc_node h a) l xs = dlist h l xs"
  by (rule dlist_frame) (auto simp: malloc_node_def)

lemma table_at_dom:
  assumes "table_at h d G ass t"
  shows "a \<in> dom d \<Longrightarrow> length t < a" "i < length t \<Longrightarrow> set (ass ! i) \<subseteq> dom d"
    "dom h = {1..length t} \<union> dom d"
proof -
  have "dom d = (\<Union>i < length t. set (ass ! i)) \<union> G" "\<forall>a \<in> dom d. length t < a"
    using assms by (simp_all add: table_at_def)
  then show "a \<in> dom d \<Longrightarrow> length t < a" "i < length t \<Longrightarrow> set (ass ! i) \<subseteq> dom d" by blast+
qed (use assms in \<open>simp add: table_at_def\<close>)

text \<open>The memory of one list is disjoint from that of the others and from the array.\<close>

lemma table_at_disjoint:
  assumes "table_at h d G ass t" and "i < length t" and "j < length t" and "i \<noteq> j"
  shows "set (bucket_head i # ass ! i) \<inter> set (bucket_head j # ass ! j) = {}"
proof -
  have "length t < a" if "k < length t" "a \<in> set (ass ! k)" for k a
    using table_at_dom [OF assms(1)] that by blast
  then have "bucket_head i \<notin> set (ass ! j)" "bucket_head j \<notin> set (ass ! i)" "bucket_head i \<noteq> bucket_head j"
    using assms(2-4) by (force simp: bucket_head_def)+
  moreover have "set (ass ! i) \<inter> set (ass ! j) = {}" using assms by (simp add: table_at_def)
  ultimately show ?thesis by auto
qed

text \<open>Replacing one list: it may lose nodes and get new ones.\<close>

lemma table_at_replace:
  assumes tab: "table_at h d G ass t" and i: "i < length t"
    and new: "dlist h' (bucket_head i) ys" "entries_at d' ys es"
    and frame: "\<And>x. x \<noteq> bucket_head i \<Longrightarrow> x \<notin> set (ass ! i) \<Longrightarrow> x \<notin> set ys \<Longrightarrow> h' x = h x \<and> d' x = d x"
    and ys: "\<And>x. x \<in> set ys \<Longrightarrow> x \<notin> set (ass ! i) \<Longrightarrow> length t < x \<and> x \<notin> dom d"
    and dom': "dom d' = dom d - set (ass ! i) \<union> set ys" "dom h' = {1..length t} \<union> dom d'"
  shows "table_at h' d' G (ass[i := ys]) (t[i := es])"
proof -
  have len: "length ass = length t" using tab by (simp add: table_at_def)
  have dom: "dom d = (\<Union>j < length t. set (ass ! j)) \<union> G" "\<forall>a \<in> dom d. length t < a"
    using tab by (simp_all add: table_at_def)
  have apart: "set ys \<inter> set (ass ! j) = {}" "bucket_head j \<notin> set ys" "set (ass ! i) \<inter> set (ass ! j) = {}"
    "bucket_head j \<notin> set (bucket_head i # ass ! i)" "bucket_head i \<notin> set (ass ! j)" if "j < length t" "j \<noteq> i" for j
  proof -
    have d: "set (bucket_head i # ass ! i) \<inter> set (bucket_head j # ass ! j) = {}"
      using table_at_disjoint [OF tab i that(1)] that(2) by auto
    have h: "bucket_head j \<le> length t" using that(1) by (simp add: bucket_head_def)
    have sub: "set (ass ! j) \<subseteq> dom d" using dom(1) that(1) by blast
    show "set (ass ! i) \<inter> set (ass ! j) = {}" "bucket_head j \<notin> set (bucket_head i # ass ! i)"
      "bucket_head i \<notin> set (ass ! j)" using d by auto
    then show "set ys \<inter> set (ass ! j) = {}" using ys sub by blast
    show "bucket_head j \<notin> set ys" using ys [of "bucket_head j"] h d by fastforce
  qed
  have other: "dlist h' (bucket_head j) (ass ! j)" "entries_at d' (ass ! j) (t ! j)" if "j < length t" "j \<noteq> i" for j
  proof -
    have "\<forall>x \<in> set (bucket_head j # ass ! j). h' x = h x \<and> d' x = d x"
    proof
      fix x assume "x \<in> set (bucket_head j # ass ! j)"
      then have "x \<noteq> bucket_head i" "x \<notin> set (ass ! i)" "x \<notin> set ys" using apart [OF that] by auto
      then show "h' x = h x \<and> d' x = d x" by (rule frame)
    qed
    then show "dlist h' (bucket_head j) (ass ! j)" "entries_at d' (ass ! j) (t ! j)"
      using table_at_lists [OF tab that(1)]
      by (auto intro!: iffD2 [OF dlist_frame [of _ _ h' h]] simp: entries_at_cong [of _ d' d])
  qed
  have "\<forall>j < length t. dlist h' (bucket_head j) (ass[i := ys] ! j) \<and> entries_at d' (ass[i := ys] ! j) (t[i := es] ! j)"
    using other new len i by (auto simp: nth_list_update)
  moreover have "\<forall>j < length t. \<forall>k < length t. j \<noteq> k \<longrightarrow> set (ass[i := ys] ! j) \<inter> set (ass[i := ys] ! k) = {}"
    using tab apart(1) len i by (auto simp: table_at_def nth_list_update)
  moreover have "\<forall>j < length t. G \<inter> set (ass[i := ys] ! j) = {}"
  proof -
    have "G \<subseteq> dom d" "G \<inter> set (ass ! i) = {}" using dom(1) tab i by (auto simp: table_at_def)
    then have "G \<inter> set ys = {}" using ys by blast
    then show ?thesis using tab i len by (auto simp: table_at_def nth_list_update)
  qed
  moreover have "dom d' = (\<Union>j < length t. set (ass[i := ys] ! j)) \<union> G"
  proof -
    have "(\<Union>j < length t. set (ass[i := ys] ! j)) = set ys \<union> (\<Union>j \<in> {..<length t} - {i}. set (ass ! j))"
      using i len by (auto simp: nth_list_update split: if_splits)
    moreover have "G \<inter> set (ass ! i) = {}" using tab i by (simp add: table_at_def)
    then have "dom d - set (ass ! i) = (\<Union>j \<in> {..<length t} - {i}. set (ass ! j)) \<union> G"
      unfolding dom(1) using apart(3) by blast
    ultimately show ?thesis using dom'(1) by (simp add: Un_ac)
  qed
  moreover have "\<forall>a \<in> dom d'. length t < a"
  proof
    fix a assume "a \<in> dom d'"
    then have "a \<in> dom d \<or> a \<in> set ys \<and> a \<notin> set (ass ! i)" using dom'(1) dom(1) i by blast
    then show "length t < a" using dom(2) ys by blast
  qed
  ultimately show ?thesis using dom'(2) len by (simp add: table_at_def)
qed

lemma table_at_swept:
  assumes tab: "table_at h d G ass t" and i: "i < length t"
    and sw: "swept (bucket_head i) h d (ass ! i) h' d' ys" and es: "entries_at d' ys es"
  shows "table_at h' d' G (ass[i := ys]) (t[i := es])"
proof (rule table_at_replace [OF tab i _ es])
  have sub: "set (ass ! i) \<subseteq> dom d" "{1..length t} \<inter> set (ass ! i) = {}"
    using table_at_dom(1) [OF tab] table_at_dom(2) [OF tab i] by fastforce+
  have ys: "set ys \<subseteq> set (ass ! i)" using sw by (simp add: swept_def)
  have "\<forall>x. d' x = (if x \<in> set (ass ! i) - set ys then None else d x)" using sw by (simp add: swept_def)
  then have "d' = (\<lambda>x. if x \<in> set (ass ! i) - set ys then None else d x)" by blast
  then have "dom d' = dom d - (set (ass ! i) - set ys)" by (auto split: if_splits)
  then show dd: "dom d' = dom d - set (ass ! i) \<union> set ys" using sub(1) ys by blast
  have "dom h' = {1..length t} \<union> dom d - (set (ass ! i) - set ys)"
    using tab sw by (simp add: table_at_def swept_def)
  then show "dom h' = {1..length t} \<union> dom d'" unfolding dd using sub ys by blast
qed (use sw in \<open>auto simp: swept_def\<close>)

lemma for_buckets_visit:
  assumes "table_at h d G ass t" and "k \<le> length t"
    and step: "\<And>h l xs d es c. dlist h l xs \<Longrightarrow> entries_at d xs es \<Longrightarrow>
      loop_ok l h d [] xs (loop l (h, d, c)) (visit_list f es c)"
  shows "case visit_buckets f (drop k t) c of
     Inl er \<Rightarrow> for_buckets (\<lambda>i. loop (bucket_head i)) [k..<length t] (h, d, c) = Some (Inl er)
   | Inr (bs, fl) \<Rightarrow> \<exists>h' d' ass'.
       for_buckets (\<lambda>i. loop (bucket_head i)) [k..<length t] (h, d, c) = Some (Inr (map_flow (\<lambda>c. (h', d', c)) id fl))
       \<and> table_at h' d' G ass' (take k t @ bs)"
  using assms(1,2)
proof (induction "length t - k" arbitrary: k h d ass t c)
  case 0
  then show ?case by auto
next
  case (Suc n)
  then have k: "k < length t" by simp
  then have dr: "drop k t = t ! k # drop (Suc k) t" "[k..<length t] = k # [Suc k..<length t]"
    by (simp_all add: Cons_nth_drop_Suc upt_conv_Cons)
  note lk = step [OF table_at_lists [OF Suc.prems(1) k], of c]
  show ?case
  proof (cases "visit_list f (t ! k) c")
    case (Inl er)
    then show ?thesis using lk dr by (simp add: loop_ok_def)
  next
    case (Inr p)
    obtain b fl where p: "p = (b, fl)" by (cases p)
    obtain h' d' ys where s: "loop (bucket_head k) (h, d, c) = Some (Inr (map_flow (\<lambda>c. (h', d', c)) id fl))"
      "swept (bucket_head k) h d (ass ! k) h' d' ys" "entries_at d' ys b"
      using lk Inr p by (auto simp: loop_ok_def)
    have tab: "table_at h' d' G (ass[k := ys]) (t[k := b])"
      by (rule table_at_swept [OF Suc.prems(1) k s(2,3)])
    show ?thesis
    proof (cases fl)
      case (Return r c')
      then show ?thesis using s(1) tab Inr p dr k by (auto simp: upd_conv_take_nth_drop)
    next
      case (Continue c')
      have "case visit_buckets f (drop (Suc k) (t[k := b])) c' of
         Inl er \<Rightarrow> for_buckets (\<lambda>i. loop (bucket_head i)) [Suc k..<length (t[k := b])] (h', d', c') = Some (Inl er)
       | Inr (bs, fl) \<Rightarrow> \<exists>h'' d'' ass'.
         for_buckets (\<lambda>i. loop (bucket_head i)) [Suc k..<length (t[k := b])] (h', d', c')
           = Some (Inr (map_flow (\<lambda>c. (h'', d'', c)) id fl))
         \<and> table_at h'' d'' G ass' (take (Suc k) (t[k := b]) @ bs)"
        by (rule Suc.hyps(1) [OF _ tab]) (use Suc.hyps(2) k in auto)
      then show ?thesis using s(1) Continue Inr p dr k
        by (auto simp: take_Suc_conv_app_nth split: sum.splits)
    qed
  qed
qed

text \<open>
  The whole array, with both macros. \<open>in_memory h d G t\<close> is the relation between the memory and the
  table that every operation keeps; \<open>table_ok\<close> says that a loop computes a given result.
\<close>

definition in_memory :: "heap \<Rightarrow> 'e store \<Rightarrow> addr set \<Rightarrow> 'e list list \<Rightarrow> bool" where
  "in_memory h d G t \<longleftrightarrow> finite G \<and> (\<exists>ass. table_at h d G ass t)"

definition table_ok ::
  "addr set \<Rightarrow> (heap \<times> 'e store \<times> 'c, 'r) flow result option \<Rightarrow> ('e list list \<times> ('c, 'r) flow) result \<Rightarrow> bool" where
  "table_ok G r m \<longleftrightarrow> (case m of
     Inl er \<Rightarrow> r = Some (Inl er)
   | Inr (t, fl) \<Rightarrow> (\<exists>h d. r = Some (Inr (map_flow (\<lambda>c. (h, d, c)) id fl)) \<and> in_memory h d G t))"

lemma for_buckets_table_ok:
  assumes tab: "in_memory h d G t"
    and step: "\<And>h l xs d es c. dlist h l xs \<Longrightarrow> entries_at d xs es \<Longrightarrow>
      loop_ok l h d [] xs (loop l (h, d, c)) (visit_list f es c)"
  shows "table_ok G (for_buckets (\<lambda>i. loop (bucket_head i)) [0..<length t] (h, d, c)) (visit_buckets f t c)"
proof -
  obtain ass where a: "table_at h d G ass t" and G: "finite G" using tab by (auto simp: in_memory_def)
  have "case visit_buckets f (drop 0 t) c of
     Inl er \<Rightarrow> for_buckets (\<lambda>i. loop (bucket_head i)) [0..<length t] (h, d, c) = Some (Inl er)
   | Inr (bs, fl) \<Rightarrow> \<exists>h' d' ass'.
       for_buckets (\<lambda>i. loop (bucket_head i)) [0..<length t] (h, d, c) = Some (Inr (map_flow (\<lambda>c. (h', d', c)) id fl))
       \<and> table_at h' d' G ass' (take 0 t @ bs)"
    by (rule for_buckets_visit [OF a]) (auto intro: step)
  then show ?thesis using G by (auto simp: table_ok_def in_memory_def split: sum.splits)
qed

lemma for_buckets_safe:
  "in_memory h d G t \<Longrightarrow>
   table_ok G (for_buckets (\<lambda>i. list_for_each_entry_safe (visit_entry f) (bucket_head i)) [0..<length t] (h, d, c))
     (visit_buckets f t c)"
  by (rule for_buckets_table_ok [OF _ list_for_each_entry_safe_visit])

lemma for_buckets_plain:
  "in_memory h d G t \<Longrightarrow>
   table_ok G (for_buckets (\<lambda>i. list_for_each_entry (visit_entry (keep g)) (bucket_head i)) [0..<length t] (h, d, c))
     (visit_buckets (keep g) t c)"
  by (rule for_buckets_table_ok [OF _ list_for_each_entry_visit_keep])

text \<open>Two uses: the loop ran to its end, or it returned a value.\<close>

lemma table_okE:
  assumes "table_ok G r m" and "m = Inr (t, fl)"
  obtains h d where "r = Some (Inr (map_flow (\<lambda>c. (h, d, c)) id fl))" "in_memory h d G t"
  using assms by (auto simp: table_ok_def)

section \<open>Setting up and extending a table\<close>

text \<open>The nodes of the entries in memory are those of the table: nothing leaks.\<close>

lemma in_memory_card:
  assumes "in_memory h d G t"
  shows "finite (dom d)" "card (dom d) = length (concat t) + card G" "dom h = {1..length t} \<union> dom d"
proof -
  obtain ass where tab: "table_at h d G ass t" using assms by (auto simp: in_memory_def)
  have G: "finite G" using assms by (simp add: in_memory_def)
  let ?U = "\<Union>i \<in> {..<length t}. set (ass ! i)"
  have dom: "dom d = ?U \<union> G" using tab by (simp add: table_at_def)
  then show "finite (dom d)" using G by simp
  have len: "card (set (ass ! i)) = length (t ! i)" if "i < length t" for i
    using table_at_lists [OF tab that] by (auto simp: dlist_def entries_at_def distinct_card dest: list_all2_lengthD)
  have "card ?U = (\<Sum>i \<in> {..<length t}. card (set (ass ! i)))"
    by (rule card_UN_disjoint) (use tab in \<open>auto simp: table_at_def\<close>)
  also have "\<dots> = (\<Sum>i < length t. length (t ! i))" using len by simp
  finally have "card ?U = length (concat t)"
    by (simp add: length_concat sum_list_sum_nth atLeast0LessThan)
  moreover have "?U \<inter> G = {}" using tab by (auto simp: table_at_def)
  ultimately show "card (dom d) = length (concat t) + card G"
    using G unfolding dom by (simp add: card_Un_disjoint)
  show "dom h = {1..length t} \<union> dom d" using tab by (simp add: table_at_def)
qed

lemma in_memory_lost: "in_memory h d G t \<Longrightarrow> G \<subseteq> dom h"
proof -
  assume "in_memory h d G t"
  then obtain ass where tab: "table_at h d G ass t" by (auto simp: in_memory_def)
  then have "G \<subseteq> dom d" by (simp add: table_at_def)
  then show "G \<subseteq> dom h" using table_at_dom(3) [OF tab] by blast
qed

lemma in_memory_fresh:
  assumes "malloc_fresh malloc" and "in_memory h d G t"
  shows "malloc h \<notin> dom h" "malloc h \<noteq> 0"
proof -
  have "finite (dom h)" using in_memory_card(1,3) [OF assms(2)] by simp
  then show "malloc h \<notin> dom h" "malloc h \<noteq> 0" using assms(1) by (simp_all add: malloc_fresh_def)
qed

lemma in_memory_empty:
  assumes "dom h = {1..n}" and "\<forall>i < n. dlist h (bucket_head i) []"
  shows "in_memory h Map.empty {} (replicate n [])"
  using assms by (auto simp: in_memory_def table_at_def intro!: exI [of _ "replicate n []"])

lemma init_heads_ok:
  "\<exists>h. fold_r (\<lambda>i h. init_list_head h (bucket_head i)) [0..<n] (zeroed_heads n) = Inr h
     \<and> in_memory h (Map.empty :: 'a store) {} (replicate n [])"
proof -
  have step: "\<exists>h'. fold_r (\<lambda>i h. init_list_head h (bucket_head i)) [k..<n] h = Inr h' \<and> dom h' = {1..n}
      \<and> (\<forall>i < n. dlist h' (bucket_head i) [])"
    if "dom h = {1..n}" "\<forall>i < k. dlist h (bucket_head i) []" "k \<le> n" for k n h
    using that
  proof (induction "n - k" arbitrary: k h)
    case 0
    then show ?case by auto
  next
    case (Suc m)
    then have k: "k < n" by simp
    then have "bucket_head k \<in> dom h" using Suc.prems(1) by (simp add: bucket_head_def)
    then obtain h1 where h1: "init_list_head h (bucket_head k) = Inr h1" "dlist h1 (bucket_head k) []"
      "\<forall>x. x \<noteq> bucket_head k \<longrightarrow> h1 x = h x"
      using init_list_head_dlist by blast
    have "dlist h1 (bucket_head i) []" if "i < Suc k" for i
    proof (cases "i = k")
      case False
      then have "dlist h1 (bucket_head i) [] = dlist h (bucket_head i) []"
        using h1(3) by (intro dlist_frame) (auto simp: bucket_head_def)
      then show ?thesis using Suc.prems(2) that False by auto
    qed (use h1 in simp)
    moreover have "dom h1 = {1..n}"
    proof -
      have "bucket_head k \<in> dom h1" using h1(2) by (auto simp: dlist_def link_def)
      then have "x \<in> dom h1 \<longleftrightarrow> x \<in> dom h" for x
        using h1(3) \<open>bucket_head k \<in> dom h\<close> by (cases "x = bucket_head k") (auto simp: dom_def)
      then show ?thesis using Suc.prems(1) by blast
    qed
    ultimately show ?case
      using Suc.hyps(1) [of "Suc k" h1] Suc.hyps(2) k h1(1) by (simp add: upt_conv_Cons)
  qed
  have "dom (zeroed_heads n) = {1..n}" by (auto simp: zeroed_heads_def split: if_splits)
  then obtain h where "fold_r (\<lambda>i h. init_list_head h (bucket_head i)) [0..<n] (zeroed_heads n) = Inr h"
    "dom h = {1..n}" "\<forall>i < n. dlist h (bucket_head i) []"
    using step [of "zeroed_heads n" n 0] by auto
  then show ?thesis using in_memory_empty by blast
qed

text \<open>A body that unlinks the current entry first and frees it then.\<close>

lemma list_delete_entry_error: "list_delete_entry h a = Inl er \<Longrightarrow> er = OutOfBounds"
  by (auto simp: list_delete_entry_def ld_next_def ld_prev_def st_next_def st_prev_def bind_r_def
      split: option.splits sum.splits)

lemma delete_free_visit:
  "bind_r (list_delete_entry h pos) (\<lambda>h. bind_r (free_entry h d pos) (\<lambda>(h, d). Inr (k (h, d))))
   = bind_r (ld_entry d pos) (\<lambda>e. bind_r (list_delete_entry h pos) (\<lambda>h. Inr (k (free_node h pos, d(pos := None)))))"
proof (cases "d pos")
  case None
  then show ?thesis
    by (cases "list_delete_entry h pos") (auto simp: free_entry_def ld_entry_def dest: list_delete_entry_error)
qed (simp add: free_entry_def ld_entry_def)

text \<open>A concrete \<open>malloc\<close>.\<close>

definition bump_malloc :: "heap \<Rightarrow> addr" where
  "bump_malloc h = Suc (Max (insert 0 (dom h)))"

lemma bump_malloc_fresh: "malloc_fresh bump_malloc"
proof -
  have "Suc (Max (insert 0 (dom h))) \<notin> dom h" if "finite (dom h)" for h :: heap
  proof
    assume "Suc (Max (insert 0 (dom h))) \<in> dom h"
    then have "Suc (Max (insert 0 (dom h))) \<le> Max (insert 0 (dom h))" using that by (intro Max_ge) auto
    then show False by simp
  qed
  then show ?thesis by (simp add: malloc_fresh_def bump_malloc_def)
qed

section \<open>Entries that are filled in before they are linked, and written later\<close>

text \<open>Taking a lost entry out of memory, and putting one in.\<close>

lemma table_at_frame:
  assumes "a \<notin> set (bucket_head i # xs)"
  shows "dlist (h(a := n)) (bucket_head i) xs = dlist h (bucket_head i) xs" "entries_at (d(a := e)) xs es = entries_at d xs es"
  using assms by (auto intro!: dlist_frame)

lemma table_at_unleak:
  assumes tab: "table_at h d G ass t" and a: "a \<in> G"
  shows "table_at (h(a := None)) (d(a := None)) (G - {a}) ass t"
proof -
  have t: "length ass = length t" "\<forall>i < length t. \<forall>j < length t. i \<noteq> j \<longrightarrow> set (ass ! i) \<inter> set (ass ! j) = {}"
    "\<forall>i < length t. G \<inter> set (ass ! i) = {}" "dom d = (\<Union>i < length t. set (ass ! i)) \<union> G" "\<forall>a \<in> dom d. length t < a"
    "dom h = {1..length t} \<union> dom d"
    using tab unfolding table_at_def by blast+
  have a': "length t < a" "\<forall>i < length t. a \<notin> set (ass ! i)" using t(3-5) a by auto
  have "\<forall>i < length t. dlist (h(a := None)) (bucket_head i) (ass ! i) \<and> entries_at (d(a := None)) (ass ! i) (t ! i)"
  proof (intro allI impI)
    fix i assume i: "i < length t"
    then have "a \<notin> set (bucket_head i # ass ! i)" using a' by (auto simp: bucket_head_def)
    then show "dlist (h(a := None)) (bucket_head i) (ass ! i) \<and> entries_at (d(a := None)) (ass ! i) (t ! i)"
      using table_at_lists [OF tab i] by (simp add: table_at_frame)
  qed
  moreover have "dom (d(a := None)) = (\<Union>i < length t. set (ass ! i)) \<union> (G - {a})"
    using t(4) a'(2) by auto
  moreover have "dom (h(a := None)) = {1..length t} \<union> dom (d(a := None))" using t(6) a'(1) by auto
  moreover have "\<forall>i < length t. (G - {a}) \<inter> set (ass ! i) = {}" "\<forall>x \<in> dom (d(a := None)). length t < x"
    using t(3,5) by auto
  ultimately show ?thesis using t(1,2) unfolding table_at_def by blast
qed

lemma table_at_leak:
  assumes tab: "table_at h d G ass t" and a: "a \<notin> dom h" "a \<noteq> 0"
  shows "table_at (h(a \<mapsto> n)) (d(a \<mapsto> e)) (insert a G) ass t"
proof -
  note dom = table_at_dom(3) [OF tab] table_at_dom(2) [OF tab]
  have fresh: "length t < a" "a \<notin> dom d" using a dom(1) by auto
  have "dlist (h(a \<mapsto> n)) (bucket_head i) (ass ! i)" "entries_at (d(a \<mapsto> e)) (ass ! i) (t ! i)"
    if i: "i < length t" for i
  proof -
    have "a \<notin> set (bucket_head i # ass ! i)" using fresh dom(2) [OF i] i by (auto simp: bucket_head_def)
    then show "dlist (h(a \<mapsto> n)) (bucket_head i) (ass ! i)" "entries_at (d(a \<mapsto> e)) (ass ! i) (t ! i)"
      using table_at_lists [OF tab i] by (simp_all add: table_at_frame)
  qed
  moreover have "\<forall>i < length t. insert a G \<inter> set (ass ! i) = {}"
    using tab fresh(2) dom(2) by (auto simp: table_at_def)
  ultimately show ?thesis using tab fresh by (simp add: table_at_def)
qed

lemma table_at_lostD: "table_at h d G ass t \<Longrightarrow> a \<in> G \<Longrightarrow> a \<in> dom h \<and> a \<noteq> 0 \<and> a \<in> dom d"
proof -
  assume tab: "table_at h d G ass t" and a: "a \<in> G"
  then have "a \<in> dom d" unfolding table_at_def by blast
  then show ?thesis using table_at_dom(1,3) [OF tab] by fastforce
qed

text \<open>Any write to an entry that is on no list.\<close>

lemma table_at_lost:
  assumes "table_at h d G ass t" and "a \<in> G"
  shows "table_at (h(a \<mapsto> n)) (d(a \<mapsto> e)) G ass t" "table_at (h(a \<mapsto> n)) d G ass t" "table_at h (d(a \<mapsto> e)) G ass t"
proof -
  have a: "a \<notin> dom (h(a := None))" "a \<noteq> 0" and in_dom: "a \<in> dom h" "a \<in> dom d" using table_at_lostD [OF assms] by auto
  have *: "table_at (h(a \<mapsto> n)) (d(a \<mapsto> e)) G ass t" for n e
    using table_at_leak [OF table_at_unleak [OF assms] a, of n e] insert_Diff [OF assms(2)] by simp
  obtain n0 e0 where "h a = Some n0" "d a = Some e0" using in_dom by blast
  then have "h(a \<mapsto> n0) = h" "d(a \<mapsto> e0) = d" by (simp_all add: fun_upd_idem)
  with * show "table_at (h(a \<mapsto> n)) (d(a \<mapsto> e)) G ass t" "table_at (h(a \<mapsto> n)) d G ass t"
    "table_at h (d(a \<mapsto> e)) G ass t" by metis+
qed

lemma init_list_head_lost:
  assumes "table_at h d G ass t" and "a \<in> G"
  obtains h' where "init_list_head h a = Inr h'" "table_at h' d G ass t"
proof -
  obtain n where n: "h a = Some n" using table_at_lostD [OF assms] by blast
  then have "init_list_head h a = Inr (h(a \<mapsto> n\<lparr>prv := a, nxt := a\<rparr>))"
    by (simp add: init_list_head_def st_prev_def st_next_def)
  then show thesis using that table_at_lost(2) [OF assms] by blast
qed

text \<open>Linking an entry that was lost.\<close>

lemma table_at_link:
  assumes tab: "table_at h d G ass t" and i: "i < length t" and a: "a \<in> G" "d a = Some e"
  obtains h' where "list_add_tail h a (bucket_head i) = Inr h'"
    "table_at h' d (G - {a}) (ass[i := ass ! i @ [a]]) (t[i := t ! i @ [e]])"
proof -
  let ?h = "h(a := None)" and ?d = "d(a := None)"
  note tab0 = table_at_unleak [OF tab a(1)]
  have in_dom: "a \<in> dom h" "a \<in> dom d" "length t < a" using table_at_lostD [OF tab a(1)] table_at_dom(1) [OF tab] by auto
  have "a \<notin> set (ass ! i)" using tab a(1) i by (auto simp: table_at_def)
  then have fresh: "a \<notin> set (bucket_head i # ass ! i)" using in_dom(3) i by (auto simp: bucket_head_def)
  obtain h' where h': "list_add_tail h a (bucket_head i) = Inr h'"
    "dlist h' (bucket_head i) (ass ! i @ [a])" "dom h' = dom h"
    "\<forall>x. x \<notin> set (bucket_head i # a # ass ! i) \<longrightarrow> h' x = h x"
    using list_add_tail_dlist [OF table_at_lists(1) [OF tab i] in_dom(1) fresh] by metis
  have ent: "entries_at d (ass ! i @ [a]) (t ! i @ [e])"
    using table_at_lists(2) [OF tab i] a(2) by (rule entries_at_snoc)
  have sub: "set (ass ! i) \<subseteq> dom d" by (rule table_at_dom(2) [OF tab i])
  have "table_at h' d (G - {a}) (ass[i := ass ! i @ [a]]) (t[i := t ! i @ [e]])"
    by (rule table_at_replace [OF tab0 i h'(2) ent]) (use fresh in_dom h'(3,4) sub table_at_dom(3) [OF tab] in auto)
  then show thesis using that h'(1) by blast
qed

text \<open>A write through a pointer to an entry of the table.\<close>

lemma entries_at_write:
  assumes "entries_at d xs es" and "distinct xs" and "j < length es"
  shows "entries_at (d(xs ! j \<mapsto> e)) xs (es[j := e])"
  using assms by (auto simp: entries_at_def list_all2_conv_all_nth nth_list_update nth_eq_iff_index_eq)

lemma table_at_write:
  assumes tab: "table_at h d G ass t" and i: "i < length t" and j: "j < length (t ! i)"
  shows "table_at h (d(ass ! i ! j \<mapsto> e)) G ass (t[i := (t ! i)[j := e]])"
proof -
  note l = table_at_lists [OF tab i]
  have len: "length (ass ! i) = length (t ! i)" using l(2) by (simp add: entries_at_def list_all2_lengthD)
  then have mem: "ass ! i ! j \<in> set (ass ! i)" using j by simp
  have sub: "set (ass ! i) \<subseteq> dom d" by (rule table_at_dom(2) [OF tab i])
  have "entries_at (d(ass ! i ! j \<mapsto> e)) (ass ! i) ((t ! i)[j := e])"
    by (rule entries_at_write [OF l(2) _ j]) (use l(1) in \<open>simp add: dlist_def\<close>)
  then have "table_at h (d(ass ! i ! j \<mapsto> e)) G (ass[i := ass ! i]) (t[i := (t ! i)[j := e]])"
    by (rule table_at_replace [OF tab i l(1)]) (use mem sub table_at_dom(3) [OF tab] in auto)
  then show ?thesis by simp
qed

lemma table_at_entry:
  assumes "table_at h d G ass t" and "i < length t" and "j < length (t ! i)"
  shows "d (ass ! i ! j) = Some (t ! i ! j)"
  using table_at_lists(2) [OF assms(1,2)] assms(3) by (auto simp: entries_at_def list_all2_conv_all_nth)

text \<open>An entry that is allocated and never linked is lost; one that is linked is at the end of list \<open>i\<close>.\<close>

lemma in_memory_leak:
  assumes "in_memory h d G t" and "a \<notin> dom h" "a \<noteq> 0"
  shows "in_memory (malloc_node h a) (d(a \<mapsto> e)) (insert a G) t"
proof -
  obtain ass where "finite G" "table_at h d G ass t" using assms(1) by (auto simp: in_memory_def)
  from this(1) table_at_leak [OF this(2) assms(2,3)] show ?thesis
    unfolding in_memory_def malloc_node_def by (intro conjI exI) simp_all
qed

lemma in_memory_add_tail:
  assumes "in_memory h d G t" and i: "i < length t" and a: "a \<notin> dom h" "a \<noteq> 0"
  obtains h' where "list_add_tail (malloc_node h a) a (bucket_head i) = Inr h'"
    "in_memory h' (d(a \<mapsto> e)) G (t[i := t ! i @ [e]])"
proof -
  have G: "finite G" "a \<notin> G" using assms(1) a(1) in_memory_lost [OF assms(1)] by (auto simp: in_memory_def)
  obtain ass where "table_at (malloc_node h a) (d(a \<mapsto> e)) (insert a G) ass t"
    using in_memory_leak [OF assms(1) a] by (auto simp: in_memory_def)
  from table_at_link [OF this i, of a e] obtain h' where "list_add_tail (malloc_node h a) a (bucket_head i) = Inr h'"
    "table_at h' (d(a \<mapsto> e)) (insert a G - {a}) (ass[i := ass ! i @ [a]]) (t[i := t ! i @ [e]])" by auto
  then show thesis using that G by (auto simp: in_memory_def)
qed

end
