(* ===== verification/Checksum.thy ===== *)
theory Checksum
  imports Prelude
begin

text \<open>
  The Internet checksum of \<^verbatim>\<open>include/checksum.h\<close>. The reference is the one's
  complement sum of RFC 1071, stated on natural numbers: the sum of the 16-bit words modulo
  65535. The lemmas show when the 32-bit accumulator of the code computes it (an even number of
  bytes, no carry out of 32 bits), that a block whose checksum field was filled in that way
  verifies, and where the code departs from it.
\<close>

section \<open>The code\<close>

fun checksum_loop :: "bytes \<Rightarrow> nat \<Rightarrow> nat \<Rightarrow> u32 \<Rightarrow> u32 result" where
  "checksum_loop buf off 0 acc = Inr acc"
| "checksum_loop buf off (Suc n) acc =
     bind_r (rd16 buf off) (\<lambda>w. checksum_loop buf (off + 2) n (acc + ucast w))"

text \<open>\<open>buf\<close> is the pointer \<open>off\<close> bytes into the buffer.\<close>

definition checksum :: "bytes \<Rightarrow> nat \<Rightarrow> nat \<Rightarrow> u32 \<Rightarrow> u16 result" where
  "checksum buf off nbytes acc =
     bind_r (checksum_loop buf off (nbytes div 2) acc) (\<lambda>acc.
       let acc = drop_bit 16 acc + (acc AND 0xffff);
           acc = acc + drop_bit 16 acc
       in bind_r (if nbytes mod 2 \<noteq> 0
                  then bind_r (rd8 buf (off + nbytes - 1)) (\<lambda>b. Inr (acc + ucast b))
                  else Inr acc)
            (\<lambda>acc. Inr (ucast (NOT acc))))"

section \<open>The reference\<close>

definition word_sum :: "bytes \<Rightarrow> nat \<Rightarrow> nat \<Rightarrow> nat" where
  "word_sum buf off n = (\<Sum>i<n. unat (get16 buf (off + 2 * i)))"

text \<open>Two end-around carries bring a 32-bit sum down to 16 bits.\<close>

definition fold16 :: "nat \<Rightarrow> nat" where
  "fold16 s = (let s1 = s div 65536 + s mod 65536 in (s1 + s1 div 65536) mod 65536)"

lemma fold16_less: "fold16 s < 65536"
  by (simp add: fold16_def Let_def)

lemma fold16_bound: "(s :: nat) < 2 ^ 32 \<Longrightarrow> s div 65536 + s mod 65536 \<le> 131070"
proof -
  assume "s < 2 ^ 32"
  then have "s div 65536 < 65536" by (simp add: less_mult_imp_div_less)
  moreover have "s mod 65536 < 65536" by simp
  ultimately show ?thesis by linarith
qed

lemma fold16_cases:
  assumes "s < 2 ^ 32"
  defines "s1 \<equiv> s div 65536 + s mod 65536"
  shows "fold16 s = (if s1 < 65536 then s1 else s1 - 65535)"
proof (cases "s1 < 65536")
  case True
  then show ?thesis by (simp add: fold16_def Let_def flip: s1_def)
next
  case False
  then have "s1 div 65536 = 1" "s1 \<le> 131070"
    using fold16_bound [OF assms(1)] by (auto simp: s1_def [symmetric] intro!: div_nat_eqI)
  moreover then have "(s1 + 1) mod 65536 = s1 - 65535"
    using False by (simp add: mod_if)
  ultimately show ?thesis using False by (simp add: fold16_def Let_def flip: s1_def)
qed

lemma fold16_mod:
  assumes "s < 2 ^ 32"
  shows "fold16 s mod 65535 = s mod 65535"
proof -
  let ?s1 = "s div 65536 + s mod 65536"
  have "s = 65535 * (s div 65536) + ?s1" using div_mult_mod_eq [of s 65536] by linarith
  then have "s mod 65535 = ?s1 mod 65535" by (metis mod_mult_self4)
  moreover have "(?s1 - 65535) mod 65535 = ?s1 mod 65535" if "\<not> ?s1 < 65536"
    using that by (simp add: le_mod_geq [of 65535 ?s1])
  ultimately show ?thesis by (simp add: fold16_cases [OF assms])
qed

lemma fold16_pos: "s < 2 ^ 32 \<Longrightarrow> 0 < s \<Longrightarrow> 0 < fold16 s"
  using div_mult_mod_eq [of s 65536] by (auto simp: fold16_cases)

lemma fold16_full:
  assumes "s < 2 ^ 32" "0 < s" "s mod 65535 = 0"
  shows "fold16 s = 65535"
proof -
  have "fold16 s mod 65535 = 0" "0 < fold16 s" "fold16 s < 65536"
    using fold16_mod fold16_pos assms fold16_less by simp_all
  then show ?thesis by (auto simp: mod_eq_0_iff_dvd elim!: dvdE)
qed

section \<open>The code computes the reference\<close>

lemma checksum_loop_sum:
  "off + 2 * n \<le> length buf \<Longrightarrow>
     checksum_loop buf off n acc = Inr (acc + of_nat (word_sum buf off n))"
proof (induction n arbitrary: off acc)
  case 0
  then show ?case by (simp add: word_sum_def)
next
  case (Suc n)
  have "word_sum buf off (Suc n) = unat (get16 buf off) + word_sum buf (off + 2) n"
    unfolding word_sum_def by (subst sum.lessThan_Suc_shift) (simp add: algebra_simps)
  with Suc show ?case by (simp add: rd_ok add.assoc)
qed

lemma unat_and_ffff: "unat (a AND 0xffff :: u32) = unat a mod 65536"
proof -
  have "a AND 0xffff = a mod 65536" using take_bit_eq_mask [of 16 a] by (simp add: mask_numeral take_bit_eq_mod)
  then show ?thesis by (simp add: unat_mod_distrib)
qed

lemma unat_drop16: "unat (drop_bit 16 a :: u32) = unat a div 65536"
  by (simp add: drop_bit_eq_div unat_div_distrib)

lemma unat_u32_less: "unat (a :: u32) < 2 ^ 32"
  using unsigned_less [of a, where 'a = nat] by simp

lemma ucast_fold:
  fixes a :: u32
  defines "a1 \<equiv> drop_bit 16 a + (a AND 0xffff)"
  shows "ucast (a1 + drop_bit 16 a1) = (of_nat (fold16 (unat a)) :: u16)"
proof -
  let ?s1 = "unat a div 65536 + unat a mod 65536"
  have le: "?s1 \<le> 131070" using fold16_bound [OF unat_u32_less] .
  then have a1: "unat a1 = ?s1"
    unfolding a1_def by (subst unat_word_ariths) (simp add: unat_and_ffff unat_drop16)
  have "?s1 div 65536 \<le> 1" using le by (simp add: div_le_mono [of _ 131070 65536, simplified])
  with le a1 have "unat (a1 + drop_bit 16 a1) = ?s1 + ?s1 div 65536"
    by (subst unat_word_ariths) (simp add: unat_drop16)
  then have "unat (ucast (a1 + drop_bit 16 a1) :: u16) = fold16 (unat a)"
    by (simp add: unsigned_ucast_eq take_bit_eq_mod fold16_def Let_def)
  then show ?thesis using fold16_less by (simp add: word_unat_eq_iff unat_of_nat)
qed

lemma ucast_not: "ucast (NOT (a :: u32)) = NOT (ucast a :: u16)"
  by (rule bit_word_eqI) (simp add: bit_simps)

lemma unat_not16: "unat (NOT (w :: u16)) = 65535 - unat w"
proof -
  have "NOT w = 65535 - w" by (simp add: not_eq_complement)
  moreover have "w \<le> 65535" using word_le_nat_alt [of w 65535] unsigned_less [of w, where 'a = nat] by simp
  ultimately show ?thesis by (simp add: unat_sub)
qed

lemma unat_not_fold16: "unat (NOT (of_nat (fold16 s) :: u16)) = 65535 - fold16 s"
  using fold16_less [of s] by (simp add: unat_not16 unat_of_nat)

theorem checksum_even:
  assumes "off + nbytes \<le> length buf" and "even nbytes"
    and "unat acc + word_sum buf off (nbytes div 2) < 2 ^ 32"
  shows "checksum buf off nbytes acc
    = Inr (NOT (of_nat (fold16 (unat acc + word_sum buf off (nbytes div 2)))))"
proof -
  let ?s = "word_sum buf off (nbytes div 2)"
  have "unat (acc + of_nat ?s) = unat acc + ?s"
    using assms(3) by (subst unat_word_ariths) (simp add: unat_of_nat)
  then show ?thesis
    using assms(1,2) by (simp add: checksum_def checksum_loop_sum Let_def ucast_not ucast_fold)
qed

theorem checksum_odd:
  assumes "off + nbytes \<le> length buf" and "odd nbytes"
    and "unat acc + word_sum buf off (nbytes div 2) < 2 ^ 32"
  shows "checksum buf off nbytes acc
    = Inr (NOT (of_nat (fold16 (unat acc + word_sum buf off (nbytes div 2)))
        + ucast (buf ! (off + nbytes - 1))))"
proof -
  let ?s = "word_sum buf off (nbytes div 2)"
  have "unat (acc + of_nat ?s) = unat acc + ?s"
    using assms(3) by (subst unat_word_ariths) (simp add: unat_of_nat)
  moreover have "ucast (a + ucast (b :: u8)) = (ucast a + ucast b :: u16)" for a :: u32 and b
    by (simp add: word_unat_eq_iff unsigned_ucast_eq take_bit_eq_mod unat_word_ariths mod_mod_cancel mod_add_left_eq)
  ultimately show ?thesis
    using assms(1,2) odd_pos [OF assms(2)]
    by (simp add: checksum_def checksum_loop_sum Let_def ucast_not ucast_fold rd_ok odd_iff_mod_2_eq_one)
qed

section \<open>Filling in a checksum field\<close>

lemma word_sum_put16:
  assumes "off + 2 * n \<le> length buf" and "k < n"
  shows "word_sum (put16 buf (off + 2 * k) v) off n + unat (get16 buf (off + 2 * k))
    = word_sum buf off n + unat v"
proof -
  let ?o = "off + 2 * k" and ?b = "put16 buf (off + 2 * k) v"
  have split: "word_sum b off n
      = unat (get16 b ?o) + (\<Sum>i \<in> {..<n} - {k}. unat (get16 b (off + 2 * i)))" for b
    unfolding word_sum_def using assms(2) by (subst sum.remove [of _ k]) simp_all
  have "(\<Sum>i \<in> {..<n} - {k}. unat (get16 ?b (off + 2 * i)))
      = (\<Sum>i \<in> {..<n} - {k}. unat (get16 buf (off + 2 * i)))"
  proof (rule sum.cong)
    fix i assume "i \<in> {..<n} - {k}"
    then have "off + 2 * i + 2 \<le> ?o \<or> ?o + 2 \<le> off + 2 * i" by auto
    then show "unat (get16 ?b (off + 2 * i)) = unat (get16 buf (off + 2 * i))"
      by (simp add: get16_put_other)
  qed simp
  moreover have "get16 ?b ?o = v" using assms by (simp add: buf_simps)
  ultimately show ?thesis using split [of ?b] split [of buf] by simp
qed

text \<open>
  The main fact of this theory: compute the checksum with the checksum field cleared, store it,
  and the one's complement sum of the block (with the given start value) is zero, so that a
  receiver that runs the same routine over the block gets 0.
\<close>

lemma checksum_fill:
  assumes len: "off + nbytes \<le> length buf" and ev: "even nbytes" and k: "k < nbytes div 2"
    and s: "unat acc + word_sum (put16 buf (off + 2 * k) 0) off (nbytes div 2) + 65535 < 2 ^ 32"
    and c: "checksum (put16 buf (off + 2 * k) 0) off nbytes acc = Inr c"
  defines "buf' \<equiv> put16 buf (off + 2 * k) c"
  shows "(unat acc + word_sum buf' off (nbytes div 2)) mod 65535 = 0"
    and "checksum buf' off nbytes acc = Inr 0"
proof -
  let ?n = "nbytes div 2" and ?b0 = "put16 buf (off + 2 * k) 0"
  let ?s = "unat acc + word_sum ?b0 off ?n"
  have len2: "off + 2 * ?n \<le> length buf" and in_: "off + 2 * k + 2 \<le> length buf"
    using len ev k by auto
  have c_eq: "unat c = 65535 - fold16 ?s"
    using c checksum_even [of off nbytes ?b0 acc] len ev s by (simp add: unat_not_fold16)
  have "word_sum (put16 ?b0 (off + 2 * k) c) off ?n = word_sum ?b0 off ?n + unat c"
    using word_sum_put16 [of off ?n ?b0 k c] len2 k in_ by (simp add: buf_simps)
  moreover have "put16 ?b0 (off + 2 * k) c = buf'"
    by (simp add: buf'_def put16_def list_update_swap)
  ultimately have s': "unat acc + word_sum buf' off ?n = ?s + (65535 - fold16 ?s)"
    by (simp add: c_eq)
  have small: "?s < 2 ^ 32" using s by simp
  have "(?s + (65535 - fold16 ?s)) mod 65535 = (fold16 ?s + (65535 - fold16 ?s)) mod 65535"
    by (rule mod_add_cong) (simp_all only: fold16_mod [OF small])
  also have "\<dots> = 0" using fold16_less [of ?s] by simp
  finally show m: "(unat acc + word_sum buf' off ?n) mod 65535 = 0" by (simp only: s')
  have lt: "unat acc + word_sum buf' off ?n < 2 ^ 32" using s s' by linarith
  have "0 < ?s + (65535 - fold16 ?s)"
    by (cases "?s = 0") (simp_all add: fold16_def)
  then have "0 < unat acc + word_sum buf' off ?n" by (simp only: s')
  then have "fold16 (unat acc + word_sum buf' off ?n) = 65535"
    by (rule fold16_full [OF lt _ m])
  then show "checksum buf' off nbytes acc = Inr 0"
    using checksum_even [of off nbytes buf' acc] len ev lt by (simp add: buf'_def)
qed

text \<open>
  Without a bound on the sum: the accumulator holds it modulo \<open>2\<^sup>3\<^sup>2\<close>, and the stored checksum makes the
  block sum up to zero from there.
\<close>

lemma checksum_fill_wrap:
  assumes len: "off + nbytes \<le> length buf" and ev: "even nbytes" and k: "k < nbytes div 2"
    and c: "checksum (put16 buf (off + 2 * k) 0) off nbytes acc = Inr c"
  shows "((unat acc + word_sum (put16 buf (off + 2 * k) 0) off (nbytes div 2)) mod 2 ^ 32 + unat c) mod 65535 = 0"
    and "word_sum (put16 buf (off + 2 * k) c) off (nbytes div 2) = word_sum (put16 buf (off + 2 * k) 0) off (nbytes div 2) + unat c"
proof -
  let ?n = "nbytes div 2" and ?b0 = "put16 buf (off + 2 * k) 0"
  let ?s = "(unat acc + word_sum ?b0 off ?n) mod 2 ^ 32"
  have len2: "off + 2 * ?n \<le> length buf" and in_: "off + 2 * k + 2 \<le> length buf"
    using len ev k by auto
  have "unat (acc + of_nat (word_sum ?b0 off ?n)) = ?s"
    by (subst unat_word_ariths) (simp add: unat_of_nat mod_add_right_eq)
  then have c_eq: "unat c = 65535 - fold16 ?s"
    using c len2 ev by (simp add: checksum_def checksum_loop_sum Let_def ucast_not ucast_fold unat_not_fold16 [symmetric])
  have small: "?s < 2 ^ 32" by simp
  have "(?s + unat c) mod 65535 = (fold16 ?s + (65535 - fold16 ?s)) mod 65535"
    unfolding c_eq by (rule mod_add_cong) (simp_all only: fold16_mod [OF small])
  also have "\<dots> = 0" using fold16_less [of ?s] by simp
  finally show "(?s + unat c) mod 65535 = 0" .
  have "put16 ?b0 (off + 2 * k) c = put16 buf (off + 2 * k) c"
    by (simp add: put16_def list_update_swap)
  then show "word_sum (put16 buf (off + 2 * k) c) off ?n = word_sum ?b0 off ?n + unat c"
    using word_sum_put16 [of off ?n ?b0 k c] len2 k in_ by (simp add: buf_simps)
qed

lemma word_sum_bound: "word_sum buf off n \<le> 65535 * n"
proof (induction n)
  case (Suc n)
  have "unat (get16 buf (off + 2 * n)) \<le> 65535"
    using unsigned_less [of "get16 buf (off + 2 * n)", where 'a = nat] by simp
  with Suc show ?case by (simp add: word_sum_def)
qed (simp add: word_sum_def)

text \<open>The routine reads the block only, and fails only if the block leaves the buffer.\<close>

lemma checksum_total: "off + nbytes \<le> length buf \<Longrightarrow> \<exists>c. checksum buf off nbytes acc = Inr c"
  by (auto simp: checksum_def checksum_loop_sum Let_def rd8_def)

lemma checksum_cong:
  assumes len: "length buf' = length buf"
    and eq: "\<And>i. off \<le> i \<Longrightarrow> i < off + nbytes \<Longrightarrow> buf' ! i = buf ! i"
  shows "checksum buf' off nbytes acc = checksum buf off nbytes acc"
proof -
  have "checksum_loop buf' off n acc = checksum_loop buf off n acc"
    if "\<And>i. off \<le> i \<Longrightarrow> i < off + 2 * n \<Longrightarrow> buf' ! i = buf ! i" for n off acc
    using that len by (induction n arbitrary: off acc) (auto simp: rd16_def get16_def)
  from this [of off "nbytes div 2"] have "checksum_loop buf' off (nbytes div 2) = checksum_loop buf off (nbytes div 2)"
    using eq by (auto simp: fun_eq_iff)
  moreover have "rd8 buf' (off + nbytes - 1) = rd8 buf (off + nbytes - 1)" if "odd nbytes"
    using that eq [of "off + nbytes - 1"] len odd_pos [OF that] by (simp add: rd8_def)
  ultimately show ?thesis
    by (auto simp: checksum_def Let_def odd_iff_mod_2_eq_one intro!: bind_r_cong)
qed

section \<open>Properties\<close>

text \<open>C28. The checksum of RFC 1071: for an even number of bytes and a sum that fits 32 bits, \<open>checksum\<close>
  is the one's complement of the sum of the 16-bit words with end-around carry. Storing it in a
  16-bit field that was zero makes the words add up to a multiple of 65535, and the receiver's
  check, the checksum over the block with the field, gives 0.\<close>

theorem checksum_verifies:
  assumes "off + nbytes \<le> length buf" and "even nbytes" and "k < nbytes div 2"
    and "unat acc + word_sum (put16 buf (off + 2 * k) 0) off (nbytes div 2) + 65535 < 2 ^ 32"
  shows "\<exists>c. checksum (put16 buf (off + 2 * k) 0) off nbytes acc = Inr c
    \<and> unat c = 65535 - fold16 (unat acc + word_sum (put16 buf (off + 2 * k) 0) off (nbytes div 2))
    \<and> (unat acc + word_sum (put16 buf (off + 2 * k) c) off (nbytes div 2)) mod 65535 = 0
    \<and> checksum (put16 buf (off + 2 * k) c) off nbytes acc = Inr 0"
proof -
  let ?c = "NOT (of_nat (fold16 (unat acc + word_sum (put16 buf (off + 2 * k) 0) off (nbytes div 2)))) :: u16"
  have c: "checksum (put16 buf (off + 2 * k) 0) off nbytes acc = Inr ?c"
    using checksum_even [of off nbytes "put16 buf (off + 2 * k) 0" acc] assms by simp
  show ?thesis
    by (rule exI [of _ ?c], intro conjI) (use c checksum_fill [OF assms c] in \<open>simp_all only: unat_not_fold16\<close>)
qed

theorem checksum_verifies_witness:
  "\<exists>c. checksum (put16 [1, 2, 3, 4] (0 + 2 * 1) 0) 0 4 0 = Inr c
    \<and> unat c = 65535 - fold16 (unat (0 :: u32) + word_sum (put16 [1, 2, 3, 4] (0 + 2 * 1) 0) 0 (4 div 2))
    \<and> (unat (0 :: u32) + word_sum (put16 [1, 2, 3, 4] (0 + 2 * 1) c) 0 (4 div 2)) mod 65535 = 0
    \<and> checksum (put16 [1, 2, 3, 4] (0 + 2 * 1) c) 0 4 0 = Inr 0"
  by (rule checksum_verifies) (use word_sum_bound [of "put16 [1, 2, 3, 4] (Suc (Suc 0)) 0" 0 2] in simp_all)

text \<open>With an odd number of bytes the last byte is added after the carries were folded in, and a carry out
  of 16 bits is lost: the three bytes \<open>ff ff 01\<close> and the same bytes padded with a zero byte, which have the same
  Internet checksum, get different ones.\<close>

theorem checksum_odd_loses_carry:
  "checksum [0xff, 0xff, 1] 0 3 0 = Inr 0xffff \<and> checksum [0xff, 0xff, 1, 0] 0 4 0 = Inr 0xfffe"
  by code_simp

end
