(* ===== verification/Headers.thy ===== *)
theory Headers
  imports Checksum
begin

text \<open>
  The packet headers of \<^verbatim>\<open>include/ether.h\<close>, \<^verbatim>\<open>ip.h\<close>, \<^verbatim>\<open>tcp.h\<close>
  and \<^verbatim>\<open>icmp.h\<close>. A header is a struct laid over the packet buffer, so a field is a
  checked access at the offset the (packed) struct layout gives it. The pointers
  \<^verbatim>\<open>packet_to_ip_hdr\<close> and \<^verbatim>\<open>packet_to_tcp_hdr\<close> are offsets into the buffer.
\<close>

section \<open>Ethernet (ether.h)\<close>

definition ETH_ALEN :: nat where "ETH_ALEN = 6"
definition ETH_FRAME_LEN :: nat where "ETH_FRAME_LEN = 1514"
definition ETH_P_IP :: u16 where "ETH_P_IP = 0x0800"
definition ETH_P_ARP :: u16 where "ETH_P_ARP = 0x0806"
definition ETHER_HDR_SIZE :: nat where "ETHER_HDR_SIZE = 14"

text \<open>\<open>rd_bytes\<close> is what \<open>memcpy\<close>/\<open>memcmp\<close> read: \<open>n\<close> bytes from offset \<open>i\<close>.\<close>

definition rd_bytes :: "bytes \<Rightarrow> nat \<Rightarrow> nat \<Rightarrow> bytes result" where
  "rd_bytes buf i n = (if i + n \<le> length buf then Inr (take n (drop i buf)) else Inl OutOfBounds)"

definition ether_dhost :: "bytes \<Rightarrow> bytes result" where
  "ether_dhost packet = rd_bytes packet 0 ETH_ALEN"

definition ether_shost :: "bytes \<Rightarrow> bytes result" where
  "ether_shost packet = rd_bytes packet 6 ETH_ALEN"

definition ether_type :: "bytes \<Rightarrow> u16 result" where
  "ether_type packet = rd16 packet 12"

section \<open>IP (ip.h)\<close>

definition IPPROTO_ICMP :: u8 where "IPPROTO_ICMP = 1"
definition IPPROTO_TCP :: u8 where "IPPROTO_TCP = 6"

definition packet_to_ip_hdr :: nat where
  "packet_to_ip_hdr = ETHER_HDR_SIZE"

text \<open>On a little-endian host \<open>ihl\<close> is the low nibble of the first byte.\<close>

definition IP_HDR_SIZE :: "bytes \<Rightarrow> nat \<Rightarrow> nat result" where
  "IP_HDR_SIZE buf ip = bind_r (rd8 buf ip) (\<lambda>b. Inr (unat (b AND 15) * 4))"

definition ip_checksum :: "bytes \<Rightarrow> nat \<Rightarrow> (u16 \<times> bytes) result" where
  "ip_checksum buf hdr =
     bind_r (rd16 buf (hdr + 10)) (\<lambda>tmp.
     bind_r (wr16 buf (hdr + 10) 0) (\<lambda>buf.
     bind_r (IP_HDR_SIZE buf hdr) (\<lambda>n.
     bind_r (checksum buf hdr n 0) (\<lambda>cksum.
     bind_r (wr16 buf (hdr + 10) tmp) (\<lambda>buf.
       Inr (cksum, buf))))))"

section \<open>TCP (tcp.h)\<close>

definition TCP_FIN :: u8 where "TCP_FIN = 0x01"

definition packet_to_tcp_hdr :: "bytes \<Rightarrow> nat result" where
  "packet_to_tcp_hdr packet =
     bind_r (IP_HDR_SIZE packet packet_to_ip_hdr) (\<lambda>n. Inr (packet_to_ip_hdr + n))"

text \<open>
  \<open>tcp_len\<close> is the \<open>int\<close> difference cut to 16 bits, the pseudo-header sum is formed in 32 bits;
  both wrap around silently.
\<close>

definition tcp_checksum :: "bytes \<Rightarrow> nat \<Rightarrow> nat \<Rightarrow> (u16 \<times> bytes) result" where
  "tcp_checksum buf ip tcp =
     bind_r (rd16 buf (tcp + 16)) (\<lambda>tmp.
     bind_r (wr16 buf (tcp + 16) 0) (\<lambda>buf.
     bind_r (rd8 buf (ip + 9)) (\<lambda>reserv_proto.
     bind_r (rd16 buf (ip + 2)) (\<lambda>tot_len.
     bind_r (IP_HDR_SIZE buf ip) (\<lambda>n.
     let tcp_len = (ntohs tot_len - of_nat n :: u16) in
     bind_r (rd32 buf (ip + 12)) (\<lambda>saddr.
     bind_r (rd32 buf (ip + 16)) (\<lambda>daddr.
     let acc = saddr + daddr + ucast (htons (ucast reserv_proto)) + ucast (htons tcp_len) in
     bind_r (checksum buf tcp (unat tcp_len) acc) (\<lambda>cksum.
     bind_r (wr16 buf (tcp + 16) tmp) (\<lambda>buf.
       Inr (cksum, buf))))))))))"

section \<open>ICMP (icmp.h)\<close>

definition ICMP_ECHOREQUEST :: u8 where "ICMP_ECHOREQUEST = 8"
definition ICMP_ECHOREPLY :: u8 where "ICMP_ECHOREPLY = 0"
definition ICMP_DEST_UNREACH :: u8 where "ICMP_DEST_UNREACH = 3"
definition ICMP_HOST_UNREACH :: u8 where "ICMP_HOST_UNREACH = 1"

definition icmp_checksum :: "bytes \<Rightarrow> nat \<Rightarrow> nat \<Rightarrow> (u16 \<times> bytes) result" where
  "icmp_checksum buf icmp len =
     bind_r (rd16 buf (icmp + 2)) (\<lambda>tmp.
     bind_r (wr16 buf (icmp + 2) 0) (\<lambda>buf.
     bind_r (checksum buf icmp len 0) (\<lambda>cksum.
     bind_r (wr16 buf (icmp + 2) tmp) (\<lambda>buf.
       Inr (cksum, buf)))))"

section \<open>Well-formed TCP packets\<close>

definition ip_hdr_len :: "bytes \<Rightarrow> nat" where
  "ip_hdr_len p = unat (p ! 14 AND 15) * 4"

definition tcp_off :: "bytes \<Rightarrow> nat" where
  "tcp_off p = 14 + ip_hdr_len p"

definition tcp_seg_len :: "bytes \<Rightarrow> nat" where
  "tcp_seg_len p = unat (ntohs (get16 p 16) - of_nat (ip_hdr_len p))"

text \<open>
  A packet whose headers lie inside the buffer: a full IP header, a full TCP header, and the
  segment length of the IP header inside the buffer.
\<close>

definition tcp_packet :: "bytes \<Rightarrow> bool" where
  "tcp_packet p \<longleftrightarrow> 34 \<le> length p \<and> 20 \<le> ip_hdr_len p \<and> 20 \<le> tcp_seg_len p
     \<and> tcp_off p + tcp_seg_len p \<le> length p"

lemma ip_hdr_len_le: "ip_hdr_len p \<le> 60"
proof -
  have "p ! 14 AND 15 \<le> (15 :: u8)" by (rule word_and_le1)
  then show ?thesis by (simp add: ip_hdr_len_def word_le_nat_alt)
qed

lemma even_ip_hdr_len [simp]: "even (ip_hdr_len p)"
  by (simp add: ip_hdr_len_def)

lemma IP_HDR_SIZE_ok: "15 \<le> length p \<Longrightarrow> IP_HDR_SIZE p 14 = Inr (ip_hdr_len p)"
  by (simp add: IP_HDR_SIZE_def ip_hdr_len_def rd_ok)

lemma packet_to_tcp_hdr_ok: "15 \<le> length p \<Longrightarrow> packet_to_tcp_hdr p = Inr (tcp_off p)"
  by (simp add: packet_to_tcp_hdr_def packet_to_ip_hdr_def ETHER_HDR_SIZE_def IP_HDR_SIZE_ok tcp_off_def)

lemma hdr_len_put [simp]:
  "15 \<le> i \<Longrightarrow> ip_hdr_len (put16 p i v) = ip_hdr_len p"
  "15 \<le> i \<Longrightarrow> ip_hdr_len (put32 p i w) = ip_hdr_len p"
  "15 \<le> i \<Longrightarrow> tcp_off (put16 p i v) = tcp_off p"
  "15 \<le> i \<Longrightarrow> tcp_off (put32 p i w) = tcp_off p"
  by (simp_all add: ip_hdr_len_def tcp_off_def buf_simps)

lemma seg_len_put [simp]:
  "18 \<le> i \<Longrightarrow> tcp_seg_len (put16 p i v) = tcp_seg_len p"
  "18 \<le> i \<Longrightarrow> tcp_seg_len (put32 p i w) = tcp_seg_len p"
  by (simp_all add: tcp_seg_len_def buf_simps)

lemma tcp_packet_put [simp]:
  "18 \<le> i \<Longrightarrow> tcp_packet (put16 p i v) = tcp_packet p"
  "18 \<le> i \<Longrightarrow> tcp_packet (put32 p i w) = tcp_packet p"
  by (simp_all add: tcp_packet_def)

lemma tcp_packetD:
  assumes "tcp_packet p"
  shows "34 \<le> length p" "14 + ip_hdr_len p \<le> length p" "20 \<le> ip_hdr_len p" "34 \<le> tcp_off p"
    "tcp_off p + 20 \<le> length p" "tcp_off p + tcp_seg_len p \<le> length p" "20 \<le> tcp_seg_len p"
  using assms by (auto simp: tcp_packet_def tcp_off_def)

section \<open>Computing and storing the checksums\<close>

text \<open>Computing a checksum leaves the packet as it was.\<close>

lemma put16_put16 [simp]: "put16 (put16 p i v) i w = put16 p i w"
  by (simp add: put16_def list_update_swap)

lemma ip_checksum_eq:
  assumes "tcp_packet p"
  shows "ip_checksum p 14
    = bind_r (checksum (put16 p 24 0) 14 (ip_hdr_len p) 0) (\<lambda>c. Inr (c, p))"
  using tcp_packetD(1) [OF assms] by (simp add: ip_checksum_def rd_ok IP_HDR_SIZE_ok)

definition tcp_pseudo :: "bytes \<Rightarrow> u32" where
  "tcp_pseudo p = get32 p 26 + get32 p 30 + ucast (htons (ucast (p ! 23)))
     + ucast (htons (ntohs (get16 p 16) - of_nat (ip_hdr_len p)))"

lemma tcp_checksum_eq:
  assumes "tcp_packet p"
  shows "tcp_checksum p 14 (tcp_off p)
    = bind_r (checksum (put16 p (tcp_off p + 16) 0) (tcp_off p) (tcp_seg_len p) (tcp_pseudo p))
        (\<lambda>c. Inr (c, p))"
  using tcp_packetD [OF assms]
  by (simp add: tcp_checksum_def buf_simps IP_HDR_SIZE_ok tcp_pseudo_def tcp_seg_len_def Let_def)

lemma ip_checksum_fill:
  assumes "tcp_packet p"
  obtains c where "ip_checksum p 14 = Inr (c, p)"
    "checksum (put16 p 24 c) 14 (ip_hdr_len p) 0 = Inr 0"
proof -
  let ?n = "ip_hdr_len p div 2"
  have "word_sum (put16 p 24 0) 14 ?n \<le> 65535 * 30"
    using word_sum_bound [of "put16 p 24 0" 14 ?n] ip_hdr_len_le [of p] by simp
  then have small: "word_sum (put16 p 24 0) 14 ?n + 65535 < 2 ^ 32" by simp
  note len = tcp_packetD [OF assms]
  obtain c where c: "checksum (put16 p (14 + 2 * 5) 0) 14 (ip_hdr_len p) 0 = Inr c"
    using checksum_even [of 14 "ip_hdr_len p" "put16 p 24 0" 0] len small by simp
  have "checksum (put16 p (14 + 2 * 5) c) 14 (ip_hdr_len p) 0 = Inr 0"
    by (rule checksum_fill(2) [OF _ _ _ _ c]) (use len small in auto)
  then show thesis using that c ip_checksum_eq [OF assms] by simp
qed

text \<open>
  The numbers that \<open>tcp_checksum\<close> adds up: the two addresses as 32-bit words, the rest of the pseudo header, and the
  segment with a cleared checksum field. Its accumulator has 32 bits.
\<close>

definition tcp_total :: "bytes \<Rightarrow> nat" where
  "tcp_total p =
     unat (get32 p 26) + unat (get32 p 30) + unat (htons (ucast (p ! 23)))
       + unat (htons (ntohs (get16 p 16) - of_nat (ip_hdr_len p)))
       + word_sum (put16 p (tcp_off p + 16) 0) (tcp_off p) (tcp_seg_len p div 2)"

definition tcp_sum_fits :: "bytes \<Rightarrow> bool" where
  "tcp_sum_fits p \<longleftrightarrow> tcp_total p < 2 ^ 32"

text \<open>The pseudo header of RFC 793 as a sum of 16-bit words.\<close>

definition pseudo_sum :: "bytes \<Rightarrow> nat" where
  "pseudo_sum p = unat (get16 p 26) + unat (get16 p 28) + unat (get16 p 30) + unat (get16 p 32)
     + unat (htons (ucast (p ! 23))) + unat (htons (of_nat (tcp_seg_len p)))"

lemma unat_get32: "unat (get32 p i) = unat (get16 p i) + 65536 * unat (get16 p (i + 2))"
proof -
  have "le32 a b c d = ucast (le16 a b) OR push_bit 16 (ucast (le16 c d))" for a b c d
    unfolding le32_def le16_def by (rule bit_word_eqI) (auto simp: bit_simps dest: bit_imp_le_length)
  then have "get32 p i = ucast (get16 p i) OR push_bit 16 (ucast (get16 p (i + 2)))"
    by (simp add: get32_def get16_def numeral_3_eq_3)
  also have "\<dots> = ucast (get16 p i) + push_bit 16 (ucast (get16 p (i + 2)))"
    by (rule disjunctive_add [symmetric]) (auto simp: bit_simps dest: bit_imp_le_length)
  finally have eq: "get32 p i = ucast (get16 p i) + 65536 * ucast (get16 p (i + 2))"
    by (simp add: push_bit_eq_mult mult.commute)
  have "unat (get16 p i) < 65536" "unat (get16 p (i + 2)) < 65536"
    using unsigned_less [where 'a = nat, of "get16 p i"]
      unsigned_less [where 'a = nat, of "get16 p (i + 2)"] by simp_all
  then show ?thesis unfolding eq by (simp add: unat_word_ariths)
qed

lemma of_nat_tcp_seg_len: "of_nat (tcp_seg_len p) = ntohs (get16 p 16) - of_nat (ip_hdr_len p)"
  by (simp add: tcp_seg_len_def)

lemma tcp_total_pseudo:
  "(unat (tcp_pseudo p) + word_sum (put16 p (tcp_off p + 16) 0) (tcp_off p) (tcp_seg_len p div 2)) mod 2 ^ 32 = tcp_total p mod 2 ^ 32"
  unfolding tcp_pseudo_def tcp_total_def by (simp add: unat_word_ariths mod_add_left_eq)

lemma tcp_total_sum:
  "tcp_total p = pseudo_sum p + 65535 * (unat (get16 p 28) + unat (get16 p 32))
     + word_sum (put16 p (tcp_off p + 16) 0) (tcp_off p) (tcp_seg_len p div 2)"
  unfolding tcp_total_def pseudo_sum_def unat_get32 of_nat_tcp_seg_len by simp

text \<open>At most two carries are lost.\<close>

lemma tcp_total_less: "tcp_total p < 3 * 2 ^ 32"
proof -
  have "word_sum (put16 p (tcp_off p + 16) 0) (tcp_off p) (tcp_seg_len p div 2) \<le> 65535 * (tcp_seg_len p div 2)"
    by (rule word_sum_bound)
  moreover have "tcp_seg_len p < 65536" using unsigned_less [where 'a = nat, of "ntohs (get16 p 16) - of_nat (ip_hdr_len p)"]
    by (simp add: tcp_seg_len_def)
  then have "tcp_seg_len p div 2 < 32768" by (simp add: less_mult_imp_div_less)
  moreover have "unat (w :: u16) < 65536" for w using unsigned_less [of w, where 'a = nat] by simp
  note this [of "htons (ucast (p ! 23))"] this [of "htons (ntohs (get16 p 16) - of_nat (ip_hdr_len p))"]
  moreover note unat_u32_less [of "get32 p 26"] unat_u32_less [of "get32 p 30"]
  ultimately show ?thesis unfolding tcp_total_def by simp
qed

lemma pseudo_sum_put [simp]:
  "34 \<le> i \<Longrightarrow> pseudo_sum (put16 p i v) = pseudo_sum p"
  by (simp add: pseudo_sum_def buf_simps)

text \<open>Each carry that is lost makes the sum wrong by one.\<close>

lemma tcp_checksum_fill:
  assumes p: "tcp_packet p" and ev: "even (tcp_seg_len p)"
  obtains c where "tcp_checksum p 14 (tcp_off p) = Inr (c, p)"
    "(pseudo_sum p + word_sum (put16 p (tcp_off p + 16) c) (tcp_off p) (tcp_seg_len p div 2)) mod 65535 = 0 \<longleftrightarrow> tcp_sum_fits p"
proof -
  note len = tcp_packetD [OF p]
  let ?n = "tcp_seg_len p" and ?t = "tcp_off p" and ?acc = "tcp_pseudo p"
  obtain c where c: "checksum (put16 p (?t + 2 * 8) 0) ?t ?n ?acc = Inr c"
    using checksum_total [of ?t ?n "put16 p (?t + 2 * 8) 0" ?acc] len by auto
  have "?t + ?n \<le> length p" "8 < ?n div 2" using len by auto
  from checksum_fill_wrap [OF this(1) ev this(2) c]
  have fill: "(tcp_total p mod 2 ^ 32 + unat c) mod 65535 = 0"
    and sum: "word_sum (put16 p (?t + 16) c) ?t (?n div 2) = word_sum (put16 p (?t + 16) 0) ?t (?n div 2) + unat c"
    using tcp_total_pseudo [of p] by simp_all
  have "pseudo_sum p + word_sum (put16 p (?t + 16) c) ?t (?n div 2) + 65535 * (unat (get16 p 28) + unat (get16 p 32)) = tcp_total p + unat c"
    unfolding sum tcp_total_sum by simp
  then have "(pseudo_sum p + word_sum (put16 p (?t + 16) c) ?t (?n div 2)) mod 65535 = (tcp_total p + unat c) mod 65535"
    by (metis mod_mult_self2)
  also have "\<dots> = (tcp_total p div 2 ^ 32 * 2 ^ 32 + (tcp_total p mod 2 ^ 32 + unat c)) mod 65535"
    by (metis add.assoc div_mult_mod_eq)
  also have "\<dots> = (tcp_total p div 2 ^ 32) mod 65535"
  proof -
    have "w * 2 ^ 32 + x = (w + x) + 65535 * (65537 * w)" for w x :: nat by simp
    then have "(w * 2 ^ 32 + x) mod 65535 = (w + x) mod 65535" for w x :: nat by (simp only: mod_mult_self2)
    then show ?thesis using fill by (metis add_cancel_right_right mod_add_right_eq)
  qed
  also have "\<dots> = tcp_total p div 2 ^ 32"
    using tcp_total_less [of p] by (intro mod_less) (simp add: less_mult_imp_div_less [of _ 3, simplified] less_trans [of _ 3])
  finally have "(pseudo_sum p + word_sum (put16 p (?t + 16) c) ?t (?n div 2)) mod 65535 = 0 \<longleftrightarrow> tcp_sum_fits p"
    by (simp add: tcp_sum_fits_def div_eq_0_iff)
  then show thesis using that c tcp_checksum_eq [OF p] by simp
qed

text \<open>What a receiver checks.\<close>

definition ip_checksum_valid :: "bytes \<Rightarrow> bool" where
  "ip_checksum_valid p \<longleftrightarrow> checksum p 14 (ip_hdr_len p) 0 = Inr 0"

definition tcp_checksum_valid :: "bytes \<Rightarrow> bool" where
  "tcp_checksum_valid p \<longleftrightarrow>
     (pseudo_sum p + word_sum p (tcp_off p) (tcp_seg_len p div 2)) mod 65535 = 0"

text \<open>
  The two assignments at the end of \<open>do_translation\<close>: first the IP checksum, then the TCP
  checksum.
\<close>

definition update_checksums :: "bytes \<Rightarrow> nat \<Rightarrow> nat \<Rightarrow> bytes result" where
  "update_checksums packet ip_hdr tcp_hdr =
     bind_r (ip_checksum packet ip_hdr) (\<lambda>(c, packet).
     bind_r (wr16 packet (ip_hdr + 10) c) (\<lambda>packet.
     bind_r (tcp_checksum packet ip_hdr tcp_hdr) (\<lambda>(c, packet).
     wr16 packet (tcp_hdr + 16) c)))"

lemma ip_checksum_valid_put:
  assumes "tcp_packet p" and "tcp_off p \<le> i"
  shows "ip_checksum_valid (put16 p i v) = ip_checksum_valid p"
  using tcp_packetD [OF assms(1)] assms(2)
  by (simp add: ip_checksum_valid_def tcp_off_def) (subst checksum_cong [of _ p]; simp add: buf_simps)

lemma tcp_sum_fits_put24:
  assumes "tcp_packet p"
  shows "tcp_sum_fits (put16 p 24 c) = tcp_sum_fits p"
proof -
  have "word_sum (put16 (put16 p 24 c) (tcp_off p + 16) 0) (tcp_off p) n
      = word_sum (put16 p (tcp_off p + 16) 0) (tcp_off p) n" for n
    unfolding word_sum_def using tcp_packetD [OF assms]
    by (intro sum.cong refl) (simp add: get16_def nth_put16)
  then show ?thesis using tcp_packetD [OF assms] by (simp add: tcp_sum_fits_def tcp_total_def buf_simps)
qed

lemma update_checksums_ok:
  assumes p: "tcp_packet p"
  obtains c d where "update_checksums p 14 (tcp_off p) = Inr (put16 (put16 p 24 c) (tcp_off p + 16) d)"
    "ip_checksum_valid (put16 (put16 p 24 c) (tcp_off p + 16) d)"
    "even (tcp_seg_len p) \<longrightarrow>
       (tcp_checksum_valid (put16 (put16 p 24 c) (tcp_off p + 16) d) \<longleftrightarrow> tcp_sum_fits p)"
proof -
  note len = tcp_packetD [OF p]
  obtain c where c: "ip_checksum p 14 = Inr (c, p)" and ipv: "ip_checksum_valid (put16 p 24 c)"
    using ip_checksum_fill [OF p] by (auto simp: ip_checksum_valid_def)
  let ?q = "put16 p 24 c"
  have q: "tcp_packet ?q" using p by simp
  obtain d where d: "tcp_checksum ?q 14 (tcp_off p) = Inr (d, ?q)"
    using tcp_checksum_eq [OF q] checksum_total [of "tcp_off p" "tcp_seg_len p"
        "put16 ?q (tcp_off p + 16) 0" "tcp_pseudo ?q"] len by auto
  have "tcp_checksum_valid (put16 ?q (tcp_off p + 16) d) \<longleftrightarrow> tcp_sum_fits p" if ok: "even (tcp_seg_len p)"
  proof -
    obtain d' where "tcp_checksum ?q 14 (tcp_off ?q) = Inr (d', ?q)"
      "(pseudo_sum ?q + word_sum (put16 ?q (tcp_off ?q + 16) d') (tcp_off ?q)
         (tcp_seg_len ?q div 2)) mod 65535 = 0 \<longleftrightarrow> tcp_sum_fits p"
      by (rule tcp_checksum_fill [OF q]) (use ok tcp_sum_fits_put24 [OF p] in auto)
    with d len show ?thesis by (simp add: tcp_checksum_valid_def)
  qed
  moreover have "ip_checksum_valid (put16 ?q (tcp_off p + 16) d)"
    using ipv ip_checksum_valid_put [OF q] by simp
  moreover have "update_checksums p 14 (tcp_off p) = Inr (put16 ?q (tcp_off p + 16) d)"
    using c d len by (simp add: update_checksums_def rd_ok)
  ultimately show thesis using that by blast
qed

section \<open>Fields of a TCP packet\<close>

lemma ip_offset [simp]: "packet_to_ip_hdr = 14"
  by (simp add: packet_to_ip_hdr_def ETHER_HDR_SIZE_def)

text \<open>Addresses and ports as the C code reads them, and the two ways a translator rewrites them.\<close>

definition ip_saddr :: "bytes \<Rightarrow> u32" where "ip_saddr p = get32 p 26"
definition ip_daddr :: "bytes \<Rightarrow> u32" where "ip_daddr p = get32 p 30"
definition tcp_sport :: "bytes \<Rightarrow> u16" where "tcp_sport p = get16 p (tcp_off p)"
definition tcp_dport :: "bytes \<Rightarrow> u16" where "tcp_dport p = get16 p (tcp_off p + 2)"

definition rewrite_src :: "bytes \<Rightarrow> u32 \<Rightarrow> u16 \<Rightarrow> bytes" where
  "rewrite_src p ip port = put16 (put32 p 26 ip) (tcp_off p) port"

definition rewrite_dst :: "bytes \<Rightarrow> u32 \<Rightarrow> u16 \<Rightarrow> bytes" where
  "rewrite_dst p ip port = put16 (put32 p 30 ip) (tcp_off p + 2) port"

text \<open>
  \<open>p'\<close> is \<open>p\<close> with other values in the two checksum fields. The IP checksum is one that a receiver accepts. The TCP
  checksum of a segment of even length is one exactly when the 32-bit accumulator of \<open>tcp_checksum\<close> does not wrap
  around.
\<close>

definition resummed :: "bytes \<Rightarrow> bytes \<Rightarrow> bool" where
  "resummed p p' \<longleftrightarrow> (\<exists>c d. p' = put16 (put16 p 24 c) (tcp_off p + 16) d) \<and> ip_checksum_valid p'
     \<and> (even (tcp_seg_len p) \<longrightarrow> (tcp_checksum_valid p' \<longleftrightarrow> tcp_sum_fits p))"

lemma update_checksums_resummed:
  assumes "tcp_packet p"
  shows "\<exists>p'. update_checksums p 14 (tcp_off p) = Inr p' \<and> resummed p p'"
  using update_checksums_ok [OF assms] unfolding resummed_def by metis

lemma tcp_packet_rewrite [simp]:
  assumes "tcp_packet p"
  shows "tcp_packet (rewrite_src p ip port)" "tcp_packet (rewrite_dst p ip port)"
    "tcp_off (rewrite_src p ip port) = tcp_off p" "tcp_off (rewrite_dst p ip port) = tcp_off p"
  using assms tcp_packetD(4) [OF assms] by (simp_all add: rewrite_src_def rewrite_dst_def)

lemma rewrite_fields:
  assumes "tcp_packet p"
  shows "ip_saddr (rewrite_src p ip port) = ip" "tcp_sport (rewrite_src p ip port) = port"
    "ip_daddr (rewrite_src p ip port) = ip_daddr p" "tcp_dport (rewrite_src p ip port) = tcp_dport p"
    "ip_daddr (rewrite_dst p ip port) = ip" "tcp_dport (rewrite_dst p ip port) = port"
    "ip_saddr (rewrite_dst p ip port) = ip_saddr p" "tcp_sport (rewrite_dst p ip port) = tcp_sport p"
  using tcp_packetD [OF assms]
  by (simp_all add: ip_saddr_def ip_daddr_def tcp_sport_def tcp_dport_def rewrite_src_def rewrite_dst_def
      buf_simps)

lemma resummed_fields:
  assumes "tcp_packet p" and "resummed p p'"
  shows "tcp_packet p'" "ip_saddr p' = ip_saddr p" "ip_daddr p' = ip_daddr p"
    "tcp_sport p' = tcp_sport p" "tcp_dport p' = tcp_dport p" "p' ! 23 = p ! 23"
  using tcp_packetD [OF assms(1)] assms
  by (auto simp: resummed_def ip_saddr_def ip_daddr_def tcp_sport_def tcp_dport_def buf_simps)

end
