(* ===== verification/Os.thy ===== *)
theory Os
  imports Headers
begin

text \<open>
  What the two programs see of the operating system: the answers of \<open>getifaddrs\<close>, \<open>socket\<close>,
  \<open>ioctl\<close> and \<open>bind\<close> at start-up, and of \<open>poll\<close> and \<open>recvfrom\<close> in the receive loops. They are
  inputs of the model.
\<close>

section \<open>Start-up\<close>

definition AF_PACKET :: int where "AF_PACKET = 17"

text \<open>One element of the \<open>getifaddrs\<close> list; \<open>ifa_family\<close> is \<open>None\<close> when \<open>ifa_addr\<close> is null.\<close>

record ifaddrs =
  ifa_name :: string
  ifa_family :: "int option"

text \<open>
  What the kernel answers for a device name: the descriptor \<open>socket\<close> returns, whether the two
  \<open>ioctl\<close>s and \<open>bind\<close> of \<open>open_device\<close> succeed, and what \<open>ifr_ifindex\<close> and \<open>ifr_hwaddr\<close> hold after the
  unchecked \<open>ioctl\<close>s of \<open>read_iface_info\<close>.
\<close>

record os_dev =
  os_socket :: int
  os_ifindex_ok :: bool
  os_bind_ok :: bool
  os_hwaddr_ok :: bool
  os_ifindex :: int
  os_hwaddr :: bytes

fun strstr :: "string \<Rightarrow> string \<Rightarrow> bool" where
  "strstr [] needle = (needle = [])"
| "strstr (c # cs) needle = (take (length needle) (c # cs) = needle \<or> strstr cs needle)"

section \<open>Receiving\<close>

text \<open>What one descriptor of a poll round yields: a packet with the mark of an outgoing one and the time it arrives.\<close>

datatype recv = NoInput | RecvFailed | Received bytes bool time_t

definition recv_len :: "bytes \<Rightarrow> nat" where
  "recv_len data = min (length data) ETH_FRAME_LEN"

definition recv_into :: "bytes \<Rightarrow> bytes \<Rightarrow> bytes" where
  "recv_into buf data = take ETH_FRAME_LEN data @ drop (recv_len data) buf"

datatype poll = PollFailed | PollNothing | PollReady "recv list"

lemma length_recv_into: "length buf = ETH_FRAME_LEN \<Longrightarrow> length (recv_into buf d) = ETH_FRAME_LEN"
  by (simp add: recv_into_def recv_len_def)

end
