(* ===== verification/SwitchPacket.thy ===== *)
theory SwitchPacket
  imports Os
begin

text \<open>
  \<^verbatim>\<open>switch_stack/include/base.h\<close> and \<^verbatim>\<open>switch_stack/packet.c\<close>: the
  interfaces of the switch and the two ways a frame leaves it. Calls of the operating system are
  recorded as events, in program order; whether a \<open>sendto\<close> fails is decided by the parameter
  \<open>sendto\<close>, the return value of the system call.
\<close>

section \<open>Interfaces (base.h)\<close>

record iface_info_t =
  if_fd :: int
  if_index :: int
  if_mac :: bytes
  if_name :: string

text \<open>A pointer to an interface is \<open>None\<close> when it is \<open>NULL\<close>.\<close>

type_synonym iface_ptr = "iface_info_t option"

section \<open>Sending (packet.c)\<close>

record sockaddr_ll =
  sll_family :: int
  sll_ifindex :: int
  sll_halen :: nat
  sll_protocol :: u16
  sll_addr :: bytes

datatype event =
    Sendto int bytes sockaddr_ll
  | Perror string

type_synonym sendto_fn = "int \<Rightarrow> bytes \<Rightarrow> sockaddr_ll \<Rightarrow> int"

definition tx_addr :: "iface_info_t \<Rightarrow> bytes \<Rightarrow> sockaddr_ll" where
  "tx_addr iface dhost = \<lparr>sll_family = AF_PACKET, sll_ifindex = if_index iface,
     sll_halen = ETH_ALEN, sll_protocol = htons ETH_P_ARP, sll_addr = dhost\<rparr>"

definition iface_send_packet ::
  "sendto_fn \<Rightarrow> iface_ptr \<Rightarrow> bytes \<Rightarrow> nat \<Rightarrow> event list \<Rightarrow> event list result" where
  "iface_send_packet sendto iface packet len out =
     bind_r (deref iface) (\<lambda>ifc.
     bind_r (ether_dhost packet) (\<lambda>dhost.
     bind_r (rd_bytes packet 0 len) (\<lambda>frame.
       let addr = tx_addr ifc dhost; out = out @ [Sendto (if_fd ifc) frame addr] in
       if sendto (if_fd ifc) frame addr < 0
       then Inr (out @ [Perror ''Send raw packet failed''])
       else Inr out)))"

text \<open>
  The loop over \<open>instance->iface_list\<close>: \<open>iface->index\<close> is read in every round, \<open>continue\<close> skips
  the interface the frame came from.
\<close>

fun broadcast_packet ::
  "sendto_fn \<Rightarrow> iface_info_t list \<Rightarrow> iface_ptr \<Rightarrow> bytes \<Rightarrow> nat \<Rightarrow> event list \<Rightarrow> event list result" where
  "broadcast_packet sendto [] iface packet len out = Inr out"
| "broadcast_packet sendto (tx # iface_list) iface packet len out =
     bind_r (deref iface) (\<lambda>ifc.
       if if_index tx = if_index ifc then broadcast_packet sendto iface_list iface packet len out
       else bind_r (iface_send_packet sendto (Some tx) packet len out)
              (broadcast_packet sendto iface_list iface packet len))"

section \<open>What is sent\<close>

text \<open>The interfaces a list of events transmits on, in order.\<close>

fun tx_events :: "event list \<Rightarrow> (int \<times> int \<times> bytes) list" where
  "tx_events [] = []"
| "tx_events (Sendto f frame a # es) = (f, sll_ifindex a, frame) # tx_events es"
| "tx_events (Perror m # es) = tx_events es"

lemma tx_events_append [simp]: "tx_events (es @ fs) = tx_events es @ tx_events fs"
  by (induction es rule: tx_events.induct) simp_all

definition tx_of :: "bytes \<Rightarrow> nat \<Rightarrow> iface_info_t \<Rightarrow> int \<times> int \<times> bytes" where
  "tx_of packet len ifc = (if_fd ifc, if_index ifc, take len packet)"

lemma iface_send_packet_ok:
  assumes "14 \<le> length packet" and "len \<le> length packet"
  shows "\<exists>out'. iface_send_packet sendto (Some ifc) packet len out = Inr out' \<and>
    tx_events out' = tx_events out @ [tx_of packet len ifc]"
  using assms
  by (simp add: iface_send_packet_def ether_dhost_def rd_bytes_def ETH_ALEN_def tx_addr_def
      tx_of_def Let_def)

lemma iface_send_packet_null: "iface_send_packet sendto None packet len out = Inl NullDeref"
  by (simp add: iface_send_packet_def)

lemma broadcast_packet_tx:
  assumes "14 \<le> length packet" and "len \<le> length packet"
  shows "\<exists>out'. broadcast_packet sendto ifs (Some ifc) packet len out = Inr out' \<and>
    tx_events out' = tx_events out
      @ map (tx_of packet len) (filter (\<lambda>i. if_index i \<noteq> if_index ifc) ifs)"
proof (induction ifs arbitrary: out)
  case (Cons tx ifs)
  show ?case
  proof (cases "if_index tx = if_index ifc")
    case False
    obtain out1 where "iface_send_packet sendto (Some tx) packet len out = Inr out1"
      "tx_events out1 = tx_events out @ [tx_of packet len tx]"
      using iface_send_packet_ok [OF assms] by blast
    with Cons.IH [of out1] False show ?thesis by auto
  qed (use Cons.IH in simp)
qed simp

lemma broadcast_packet_null: "ifs \<noteq> [] \<Longrightarrow> broadcast_packet sendto ifs None packet len out = Inl NullDeref"
  by (cases ifs) simp_all

end
