(* ===== verification/Hash.thy ===== *)
theory Hash
  imports Prelude
begin

text \<open>
  The hash functions of \<^verbatim>\<open>include/hash.h\<close> and their users:
  \<^verbatim>\<open>nat_hash\<close> of \<^verbatim>\<open>nat.c\<close> and \<^verbatim>\<open>nat_new_2.c\<close>, and
  \<^verbatim>\<open>tcp_hash_function\<close> and \<^verbatim>\<open>tcp_sock_in_table\<close> of
  \<^verbatim>\<open>include/tcp_hash.h\<close>. The lemmas give the result as a fold of exclusive or
  over the bytes, and show that every hash is a valid index of its table.
\<close>

definition HASH_8BITS :: nat where "HASH_8BITS = 256"
definition HASH_16BITS :: nat where "HASH_16BITS = 65536"

text \<open>
  The loop of \<open>hash8\<close>: \<open>char\<close> is signed, so \<open>buf[i]\<close> is sign-extended to \<open>int\<close> before the
  exclusive or, and the assignment keeps the low eight bits.
\<close>

definition xor_char :: "u8 \<Rightarrow> u8 \<Rightarrow> u8" where
  "xor_char result c = ucast ((ucast result :: 32 word) XOR scast c)"

fun hash8_loop :: "bytes \<Rightarrow> nat \<Rightarrow> nat \<Rightarrow> u8 \<Rightarrow> u8 result" where
  "hash8_loop buf 0 i result = Inr result"
| "hash8_loop buf (Suc n) i result =
     bind_r (rd8 buf i) (\<lambda>c. hash8_loop buf n (Suc i) (xor_char result c))"

definition hash8 :: "bytes \<Rightarrow> nat \<Rightarrow> u8 result" where
  "hash8 buf len = hash8_loop buf len 0 0"

fun hash16_loop :: "bytes \<Rightarrow> nat \<Rightarrow> nat \<Rightarrow> u16 \<Rightarrow> u16 result" where
  "hash16_loop buf 0 i result = Inr result"
| "hash16_loop buf (Suc n) i result =
     bind_r (rd16 buf i) (\<lambda>v. hash16_loop buf n (i + 2) (result XOR v))"

definition hash16 :: "bytes \<Rightarrow> nat \<Rightarrow> u16 result" where
  "hash16 buf len =
     bind_r (hash16_loop buf (len div 2) 0 0) (\<lambda>result.
       if len mod 2 = 0 then Inr result
       else bind_r (rd8 buf (len - 1)) (\<lambda>c. Inr (result XOR ucast c)))"

text \<open>
  \<open>nat_hash\<close> and \<open>tcp_hash_function\<close> hash the bytes of their own arguments, as they lie in
  memory.
\<close>

definition nat_hash :: "u32 \<Rightarrow> u16 \<Rightarrow> nat result" where
  "nat_hash addr port =
     bind_r (hash8 (bytes32 addr) 4) (\<lambda>a.
     bind_r (hash8 (bytes16 port) 2) (\<lambda>p. Inr (unat (a XOR p))))"

definition TCP_HASH_SIZE :: nat where "TCP_HASH_SIZE = HASH_8BITS"
definition TCP_HASH_MASK :: nat where "TCP_HASH_MASK = TCP_HASH_SIZE - 1"

definition tcp_hash_function :: "u32 \<Rightarrow> u32 \<Rightarrow> u16 \<Rightarrow> u16 \<Rightarrow> nat result" where
  "tcp_hash_function saddr daddr sport dport =
     bind_r (hash8 (bytes32 saddr) 4) (\<lambda>a.
     bind_r (hash8 (bytes32 daddr) 4) (\<lambda>b.
     bind_r (hash8 (bytes16 sport) 2) (\<lambda>c.
     bind_r (hash8 (bytes16 dport) 2) (\<lambda>d.
       Inr (unat (a XOR b XOR c XOR d) AND TCP_HASH_MASK)))))"

text \<open>
  \<open>tcp_sock_in_table\<close>: \<open>struct tcp_sock\<close> and \<open>hash_list_for_each_entry\<close> are not in the repository; the four
  members the function reads are parameters, and the list is the sequence of its entries.
\<close>

record 'sk tcp_sock_ops =
  sk_saddr :: "'sk \<Rightarrow> u32"
  sk_daddr :: "'sk \<Rightarrow> u32"
  sk_sport :: "'sk \<Rightarrow> u16"
  sk_dport :: "'sk \<Rightarrow> u16"

fun tcp_sock_in_table :: "'sk tcp_sock_ops \<Rightarrow> 'sk \<Rightarrow> 'sk list \<Rightarrow> int" where
  "tcp_sock_in_table sk tsk [] = 0"
| "tcp_sock_in_table sk tsk (tmp # list) =
     (if sk_saddr sk tsk = sk_saddr sk tmp \<and> sk_daddr sk tsk = sk_daddr sk tmp
         \<and> sk_sport sk tsk = sk_sport sk tmp \<and> sk_dport sk tsk = sk_dport sk tmp
      then 1 else tcp_sock_in_table sk tsk list)"

section \<open>The loops as folds\<close>

lemma xor_char_eq [simp]: "xor_char r c = r XOR c"
  unfolding xor_char_def by (rule bit_word_eqI) (auto simp: bit_simps)

lemma hash8_loop_fold:
  "i + n \<le> length buf \<Longrightarrow>
     hash8_loop buf n i r = Inr (fold (\<lambda>c r. r XOR c) (take n (drop i buf)) r)"
proof (induction n arbitrary: i r)
  case (Suc n)
  then have "drop i buf = buf ! i # drop (Suc i) buf" by (simp add: Cons_nth_drop_Suc)
  with Suc show ?case by (simp add: rd_ok)
qed simp

lemma hash8_fold: "len \<le> length buf \<Longrightarrow> hash8 buf len = Inr (fold (\<lambda>c r. r XOR c) (take len buf) 0)"
  by (simp add: hash8_def hash8_loop_fold)

definition xor_bytes :: "bytes \<Rightarrow> u8" where
  "xor_bytes bs = foldr (XOR) bs 0"

lemma fold_xor: "fold (\<lambda>c r. r XOR c) bs r = r XOR xor_bytes bs" for r :: u8
  unfolding xor_bytes_def by (induction bs arbitrary: r) (simp_all add: xor.assoc)

lemma hash8_xor: "len \<le> length buf \<Longrightarrow> hash8 buf len = Inr (xor_bytes (take len buf))"
  by (simp add: hash8_fold fold_xor)

lemma hash8_full [simp]:
  "hash8 (bytes32 a) 4 = Inr (xor_bytes (bytes32 a))" "hash8 (bytes16 p) 2 = Inr (xor_bytes (bytes16 p))"
  by (simp_all add: hash8_xor)

lemma nat_hash_eq: "nat_hash a p = Inr (unat (xor_bytes (bytes32 a) XOR xor_bytes (bytes16 p)))"
  by (simp add: nat_hash_def)

lemma nat_hash_bound: "\<exists>v < HASH_8BITS. nat_hash a p = Inr v"
proof -
  have "unat (w :: u8) < HASH_8BITS" for w
    using unsigned_less [of w, where 'a = nat] by (simp add: HASH_8BITS_def)
  then show ?thesis by (auto simp: nat_hash_eq)
qed

lemma tcp_hash_bound: "\<exists>v < TCP_HASH_SIZE. tcp_hash_function s d sp dp = Inr v"
proof -
  have "TCP_HASH_MASK = mask 8"
    by (simp add: TCP_HASH_MASK_def TCP_HASH_SIZE_def HASH_8BITS_def mask_eq_exp_minus_1)
  then have "n AND TCP_HASH_MASK < TCP_HASH_SIZE" for n
    using take_bit_nat_less_exp [of 8 n] take_bit_eq_mask [of 8 n]
    by (simp add: TCP_HASH_SIZE_def HASH_8BITS_def)
  then show ?thesis by (simp add: tcp_hash_function_def)
qed

text \<open>The hash does not depend on the direction of the flow.\<close>

lemma tcp_hash_symmetric: "tcp_hash_function s d sp dp = tcp_hash_function d s dp sp"
  by (simp add: tcp_hash_function_def ac_simps)

text \<open>
  A table whose sockets are in the lists their hash selects: looking into that one list tells whether any list has a
  socket with the same four values.
\<close>

lemma tcp_sock_in_table_iff:
  "tcp_sock_in_table sk tsk list = (if \<exists>tmp \<in> set list. sk_saddr sk tsk = sk_saddr sk tmp \<and> sk_daddr sk tsk = sk_daddr sk tmp
     \<and> sk_sport sk tsk = sk_sport sk tmp \<and> sk_dport sk tsk = sk_dport sk tmp then 1 else 0)"
  by (induction list) auto

lemma tcp_sock_hashed:
  assumes "\<And>v s. v < TCP_HASH_SIZE \<Longrightarrow> s \<in> set (table v) \<Longrightarrow>
      tcp_hash_function (sk_saddr sk s) (sk_daddr sk s) (sk_sport sk s) (sk_dport sk s) = Inr v"
    and "tcp_hash_function (sk_saddr sk tsk) (sk_daddr sk tsk) (sk_sport sk tsk) (sk_dport sk tsk) = Inr v"
  shows "tcp_sock_in_table sk tsk (table v) = tcp_sock_in_table sk tsk (concat (map table [0..<TCP_HASH_SIZE]))"
proof -
  have v: "v < TCP_HASH_SIZE"
    using tcp_hash_bound [of "sk_saddr sk tsk" "sk_daddr sk tsk" "sk_sport sk tsk" "sk_dport sk tsk"] assms(2) by auto
  let ?same = "\<lambda>tmp. sk_saddr sk tsk = sk_saddr sk tmp \<and> sk_daddr sk tsk = sk_daddr sk tmp
     \<and> sk_sport sk tsk = sk_sport sk tmp \<and> sk_dport sk tsk = sk_dport sk tmp"
  have place: "w = v" if "w < TCP_HASH_SIZE" "s \<in> set (table w)" "?same s" for w s
    using assms(1) [OF that(1,2)] assms(2) that(3) by simp
  have "(\<exists>tmp \<in> set (table v). ?same tmp) \<longleftrightarrow> (\<exists>tmp \<in> set (concat (map table [0..<TCP_HASH_SIZE])). ?same tmp)"
  proof
    assume "\<exists>tmp \<in> set (concat (map table [0..<TCP_HASH_SIZE])). ?same tmp"
    then obtain w s where "w < TCP_HASH_SIZE" "s \<in> set (table w)" "?same s" by (auto simp del: upt_Suc)
    with place show "\<exists>tmp \<in> set (table v). ?same tmp" by blast
  qed (use v in \<open>auto simp: set_concat\<close>)
  then show ?thesis unfolding tcp_sock_in_table_iff by presburger
qed

section \<open>Properties\<close>

text \<open>\<open>nat_hash\<close> never fails and always gives an index of the 256 lists; it is the exclusive or of the
  six bytes of the address and the port, so it does not depend on their byte order.\<close>

theorem nat_hash_index:
  "\<exists>v < HASH_8BITS. nat_hash addr port = Inr v \<and> nat_hash (ntohl addr) (ntohs port) = Inr v"
proof -
  have "xor_bytes (bytes32 (ntohl addr)) = xor_bytes (bytes32 addr)"
    by (simp add: xor_bytes_def bytes32_def ntohl_def ac_simps)
  moreover have "xor_bytes (bytes16 (ntohs port)) = xor_bytes (bytes16 port)"
    by (simp add: xor_bytes_def bytes16_def ntohs_def ac_simps)
  ultimately show ?thesis using nat_hash_bound [of addr port] by (auto simp: nat_hash_eq)
qed

text \<open>\<open>tcp_hash_function\<close> gives an index of the table, the same for both directions of a connection.\<close>

theorem tcp_hash_index:
  "\<exists>v < TCP_HASH_SIZE. tcp_hash_function saddr daddr sport dport = Inr v
     \<and> tcp_hash_function daddr saddr dport sport = Inr v"
  using tcp_hash_bound [of saddr daddr sport dport] tcp_hash_symmetric by metis

end
