(* ===== verification/Mac.thy ===== *)
theory Mac
  imports SwitchPacket Hash
begin

text \<open>
  \<^verbatim>\<open>switch_stack/mac.c\<close>: the forwarding database (FDB) that maps a MAC address to the
  interface it was seen on. \<open>hash_table\<close> is the array of \<open>HASH_8BITS\<close> bucket lists; a bucket is
  the list of its entries in list order (theory \<open>MacHeap\<close> has the same functions on
  the linked nodes in memory and shows that they compute these). \<open>now\<close> is the result of \<open>time(NULL)\<close>.
\<close>

section \<open>The table\<close>

definition MAC_PORT_TIMEOUT :: int where "MAC_PORT_TIMEOUT = 30"

record mac_port_entry_t =
  me_mac :: bytes
  me_iface :: iface_ptr
  me_visited :: time_t

type_synonym mac_port_map_t = "mac_port_entry_t list list"

definition init_mac_port_table :: mac_port_map_t where
  "init_mac_port_table = map (\<lambda>i. []) [0..<HASH_8BITS]"

text \<open>\<open>list_for_each_entry_safe\<close> with \<open>list_delete_entry\<close> and \<open>free\<close> in every round.\<close>

fun destory_bucket :: "mac_port_entry_t list \<Rightarrow> mac_port_entry_t list" where
  "destory_bucket [] = []"
| "destory_bucket (entry # es) = destory_bucket es"

definition destory_mac_port_table :: "mac_port_map_t \<Rightarrow> mac_port_map_t" where
  "destory_mac_port_table hash_table = map destory_bucket hash_table"

fun lookup_bucket :: "mac_port_entry_t list \<Rightarrow> bytes \<Rightarrow> iface_ptr option" where
  "lookup_bucket [] mac = None"
| "lookup_bucket (entry # es) mac =
     (if me_mac entry = mac then Some (me_iface entry) else lookup_bucket es mac)"

fun lookup_table :: "mac_port_map_t \<Rightarrow> bytes \<Rightarrow> iface_ptr option" where
  "lookup_table [] mac = None"
| "lookup_table (b # bs) mac =
     (case lookup_bucket b mac of Some iface \<Rightarrow> Some iface | None \<Rightarrow> lookup_table bs mac)"

definition lookup_port :: "mac_port_map_t \<Rightarrow> bytes \<Rightarrow> iface_ptr" where
  "lookup_port hash_table mac =
     (case lookup_table hash_table mac of Some iface \<Rightarrow> iface | None \<Rightarrow> None)"

definition insert_mac_port :: "mac_port_map_t \<Rightarrow> bytes \<Rightarrow> iface_ptr \<Rightarrow> time_t \<Rightarrow> mac_port_map_t" where
  "insert_mac_port hash_table mac iface now =
     (let entry = \<lparr>me_mac = mac, me_iface = iface, me_visited = now\<rparr>
      in hash_table[0 := hash_table ! 0 @ [entry]])"

text \<open>The lines \<open>dump_mac_port_table\<close> prints: address, interface name, age.\<close>

fun dump_bucket :: "mac_port_entry_t list \<Rightarrow> time_t \<Rightarrow> (bytes \<times> string \<times> int) list result" where
  "dump_bucket [] now = Inr []"
| "dump_bucket (entry # es) now =
     bind_r (deref (me_iface entry)) (\<lambda>iface.
     bind_r (dump_bucket es now) (\<lambda>ls.
       Inr ((me_mac entry, if_name iface, c_int (now - me_visited entry)) # ls)))"

definition dump_mac_port_table :: "mac_port_map_t \<Rightarrow> time_t \<Rightarrow> (bytes \<times> string \<times> int) list result" where
  "dump_mac_port_table hash_table now =
     fold_r (\<lambda>b out. bind_r (dump_bucket b now) (\<lambda>ls. Inr (out @ ls))) hash_table []"

text \<open>
  \<open>sweep_aged_mac_port_entry\<close> returns from inside the loops, after the first entry it deletes,
  with the index of that entry's interface.
\<close>

definition aged :: "time_t \<Rightarrow> mac_port_entry_t \<Rightarrow> bool" where
  "aged now entry \<longleftrightarrow> MAC_PORT_TIMEOUT \<le> c_int (now - me_visited entry)"

fun sweep_bucket :: "time_t \<Rightarrow> mac_port_entry_t list \<Rightarrow> (int \<times> mac_port_entry_t list) option result" where
  "sweep_bucket now [] = Inr None"
| "sweep_bucket now (entry # es) =
     (if aged now entry
      then bind_r (deref (me_iface entry)) (\<lambda>iface. Inr (Some (if_index iface, es)))
      else bind_r (sweep_bucket now es) (\<lambda>r. Inr (map_option (apsnd ((#) entry)) r)))"

fun sweep_table :: "time_t \<Rightarrow> mac_port_map_t \<Rightarrow> (int \<times> mac_port_map_t) option result" where
  "sweep_table now [] = Inr None"
| "sweep_table now (b # bs) =
     bind_r (sweep_bucket now b) (\<lambda>r. case r of
        Some (n, b') \<Rightarrow> Inr (Some (n, b' # bs))
      | None \<Rightarrow> bind_r (sweep_table now bs) (\<lambda>r. Inr (map_option (apsnd ((#) b)) r)))"

definition sweep_aged_mac_port_entry :: "time_t \<Rightarrow> mac_port_map_t \<Rightarrow> (int \<times> mac_port_map_t) result" where
  "sweep_aged_mac_port_entry now hash_table =
     bind_r (sweep_table now hash_table) (\<lambda>r. case r of
        Some (n, hash_table') \<Rightarrow> Inr (n, hash_table')
      | None \<Rightarrow> Inr (0, hash_table))"

text \<open>
  One round of \<open>sweeping_mac_port_thread\<close>: after the sleep, one sweep, and a log line with the
  returned number when it is positive.
\<close>

definition sweeping_round :: "time_t \<Rightarrow> mac_port_map_t \<Rightarrow> (int option \<times> mac_port_map_t) result" where
  "sweeping_round now hash_table =
     bind_r (sweep_aged_mac_port_entry now hash_table) (\<lambda>(n, hash_table).
       Inr (if n > 0 then Some n else None, hash_table))"

section \<open>The table as one list of entries\<close>

definition entries :: "mac_port_map_t \<Rightarrow> mac_port_entry_t list" where
  "entries t = concat t"

lemma lookup_bucket_find:
  "lookup_bucket es mac = map_option me_iface (find (\<lambda>e. me_mac e = mac) es)"
  by (induction es) auto

lemma lookup_table_entries: "lookup_table t mac = lookup_bucket (entries t) mac"
proof -
  have "lookup_bucket (b @ c) mac = (case lookup_bucket b mac of Some i \<Rightarrow> Some i | None \<Rightarrow> lookup_bucket c mac)"
    for b c by (induction b) auto
  then show ?thesis by (induction t) (auto simp: entries_def split: option.splits)
qed

lemma sweep_bucket_None: "sweep_bucket now es = Inr None \<longleftrightarrow> (\<forall>e \<in> set es. \<not> aged now e)"
  by (induction es) (auto simp: bind_r_eq_Inr deref_def split: option.splits)

lemma sweep_bucket_Some:
  "sweep_bucket now es = Inr (Some (n, es')) \<Longrightarrow>
     \<exists>xs e ifc ys. es = xs @ e # ys \<and> es' = xs @ ys \<and> aged now e \<and> (\<forall>x \<in> set xs. \<not> aged now x)
       \<and> me_iface e = Some ifc \<and> n = if_index ifc"
proof (induction es arbitrary: es')
  case (Cons a es)
  show ?case
  proof (cases "aged now a")
    case True
    with Cons.prems show ?thesis
      by (auto simp: bind_r_eq_Inr deref_def split: option.splits intro!: exI [of _ "[]"])
  next
    case False
    with Cons.prems obtain zs where "sweep_bucket now es = Inr (Some (n, zs))" "es' = a # zs"
      by (auto simp: bind_r_eq_Inr)
    with Cons.IH False show ?thesis by (metis append_Cons set_ConsD)
  qed
qed simp

lemma sweep_table_None: "sweep_table now t = Inr None \<longleftrightarrow> (\<forall>e \<in> set (entries t). \<not> aged now e)"
proof (induction t)
  case (Cons b t)
  then show ?case
    using sweep_bucket_None [of now b]
    by (cases "sweep_bucket now b") (auto simp: entries_def bind_r_eq_Inr split: option.splits)
qed (simp add: entries_def)

lemma sweep_table_Some:
  "sweep_table now t = Inr (Some (n, t')) \<Longrightarrow>
     length t' = length t \<and> (\<forall>i < length t. set (t' ! i) \<subseteq> set (t ! i)) \<and>
     (\<exists>xs e ifc ys. entries t = xs @ e # ys \<and> entries t' = xs @ ys \<and> aged now e
       \<and> (\<forall>x \<in> set xs. \<not> aged now x) \<and> me_iface e = Some ifc \<and> n = if_index ifc)"
proof (induction t arbitrary: t')
  case (Cons b t)
  from Cons.prems obtain r where r: "sweep_bucket now b = Inr r" by (auto simp: bind_r_eq_Inr)
  show ?case
  proof (cases r)
    case (Some p)
    obtain b' where p: "p = (n, b')" "t' = b' # t"
      using Cons.prems r Some by (cases p) auto
    then obtain xs e ifc ys where "b = xs @ e # ys" "b' = xs @ ys" "aged now e"
      "\<forall>x \<in> set xs. \<not> aged now x" "me_iface e = Some ifc" "n = if_index ifc"
      using sweep_bucket_Some r Some by blast
    with p show ?thesis
      by (auto simp: entries_def nth_Cons split: nat.splits intro!: exI [of _ xs] exI [of _ e])
  next
    case None
    then obtain u where u: "sweep_table now t = Inr (Some (n, u))" "t' = b # u"
      using Cons.prems r by (auto simp: bind_r_eq_Inr)
    from Cons.IH [OF u(1)] obtain xs e ifc ys where x:
      "length u = length t" "\<forall>i < length t. set (u ! i) \<subseteq> set (t ! i)"
      "entries t = xs @ e # ys" "entries u = xs @ ys" "aged now e"
      "\<forall>x \<in> set xs. \<not> aged now x" "me_iface e = Some ifc" "n = if_index ifc" by blast
    moreover have "\<forall>x \<in> set b. \<not> aged now x" using r None sweep_bucket_None by simp
    ultimately show ?thesis
      using u(2) by (auto simp: entries_def nth_Cons split: nat.splits intro!: exI [of _ "b @ xs"] exI [of _ e])
  qed
qed simp

section \<open>The invariant\<close>

text \<open>
  What every operation of the switch keeps: the table has its 256 buckets and uses only the
  first, an address has at most one entry, and no entry points to a null interface.
\<close>

definition fdb_inv :: "mac_port_map_t \<Rightarrow> bool" where
  "fdb_inv t \<longleftrightarrow> length t = HASH_8BITS \<and> (\<forall>i. 0 < i \<and> i < HASH_8BITS \<longrightarrow> t ! i = [])
     \<and> distinct (map me_mac (entries t)) \<and> (\<forall>e \<in> set (entries t). me_iface e \<noteq> None)"

lemma fdb_invD:
  assumes "fdb_inv t"
  shows "length t = HASH_8BITS" "distinct (map me_mac (entries t))"
    "e \<in> set (entries t) \<Longrightarrow> me_iface e \<noteq> None"
  using assms by (auto simp: fdb_inv_def)

lemma fdb_inv_shape:
  assumes "fdb_inv t"
  obtains b bs where "t = b # bs" "\<forall>x \<in> set bs. x = []" "entries t = b"
proof -
  have len: "length t = HASH_8BITS" using assms by (rule fdb_invD)
  then obtain b bs where t: "t = b # bs" by (cases t) (auto simp: HASH_8BITS_def)
  have "bs ! j = []" if "j < length bs" for j
    using assms len t that by (auto simp: fdb_inv_def dest: spec [of _ "Suc j"])
  then have bs: "\<forall>x \<in> set bs. x = []" by (auto simp: set_conv_nth)
  then have "concat bs = []" by simp
  then show thesis using that t bs by (simp add: entries_def del: concat_eq_Nil_conv)
qed

lemma entries_init [simp]: "entries init_mac_port_table = []"
  by (simp add: entries_def init_mac_port_table_def)

lemma fdb_inv_init: "fdb_inv init_mac_port_table"
  by (simp add: fdb_inv_def) (simp add: init_mac_port_table_def)

lemma entries_insert:
  assumes "fdb_inv t"
  shows "entries (insert_mac_port t mac p now)
     = entries t @ [\<lparr>me_mac = mac, me_iface = p, me_visited = now\<rparr>]"
proof -
  obtain b bs where t: "t = b # bs" "\<forall>x \<in> set bs. x = []" "entries t = b"
    using fdb_inv_shape [OF assms] .
  from t(2) have "concat bs = []" by simp
  with t show ?thesis by (simp add: insert_mac_port_def entries_def del: concat_eq_Nil_conv)
qed

lemma lookup_port_eq:
  "lookup_port t mac = (case find (\<lambda>e. me_mac e = mac) (entries t) of None \<Rightarrow> None | Some e \<Rightarrow> me_iface e)"
  by (simp add: lookup_port_def lookup_table_entries lookup_bucket_find split: option.splits)

lemma lookup_port_None:
  assumes "fdb_inv t"
  shows "lookup_port t mac = None \<longleftrightarrow> mac \<notin> me_mac ` set (entries t)"
proof (cases "find (\<lambda>e. me_mac e = mac) (entries t)")
  case None
  then have "lookup_port t mac = None" by (simp add: lookup_port_eq)
  then show ?thesis using None by (auto simp: find_None_iff)
next
  case (Some e)
  then have "e \<in> set (entries t)" "me_mac e = mac" by (auto dest: find_SomeD)
  then show ?thesis using Some fdb_invD(3) [OF assms, of e] by (auto simp: lookup_port_eq)
qed

lemma lookup_port_Some:
  "lookup_port t mac = Some ifc \<Longrightarrow> \<exists>e \<in> set (entries t). me_mac e = mac \<and> me_iface e = Some ifc"
  by (auto simp: lookup_port_eq split: option.splits dest: find_SomeD)

lemma lookup_port_unique:
  "fdb_inv t \<Longrightarrow> e \<in> set (entries t) \<Longrightarrow> lookup_port t (me_mac e) = me_iface e"
  by (simp add: lookup_port_eq find_unique fdb_invD(2))

lemma fdb_inv_insert:
  assumes inv: "fdb_inv t" and new: "lookup_port t mac = None"
  shows "fdb_inv (insert_mac_port t mac (Some ifc) now)"
proof -
  have "mac \<notin> me_mac ` set (entries t)" using new lookup_port_None [OF inv] by simp
  moreover have "insert_mac_port t mac (Some ifc) now ! i = t ! i" if "0 < i" for i
    using that by (simp add: insert_mac_port_def)
  ultimately show ?thesis
    using inv entries_insert [OF inv, of mac "Some ifc" now]
    by (auto simp: fdb_inv_def) (simp add: insert_mac_port_def)
qed

lemma lookup_insert:
  assumes inv: "fdb_inv t" and new: "lookup_port t mac = None"
  shows "lookup_port (insert_mac_port t mac (Some ifc) now) = (lookup_port t)(mac \<mapsto> ifc)"
proof
  fix m
  have "find (\<lambda>e. me_mac e = mac) (entries t) = None"
    using new lookup_port_None [OF inv, of mac] by (auto simp: find_None_iff)
  then show "lookup_port (insert_mac_port t mac (Some ifc) now) m = ((lookup_port t)(mac \<mapsto> ifc)) m"
    by (auto simp: lookup_port_eq entries_insert [OF inv] find_append split: option.splits)
qed

section \<open>The interface the frame handler relies on\<close>

text \<open>
  A learning table: an address that is not bound yet can be bound, and that changes nothing else.
  From this alone it follows that a table that learns a list of sightings binds every address to
  the first place it was seen at.
\<close>

locale learning_table =
  fixes lookup :: "'t \<Rightarrow> 'k \<Rightarrow> 'v option"
    and bind_new :: "'t \<Rightarrow> 'k \<Rightarrow> 'v \<Rightarrow> 'w \<Rightarrow> 't"
    and invar :: "'t \<Rightarrow> bool"
  assumes lookup_bind: "invar t \<Longrightarrow> lookup t k = None \<Longrightarrow> lookup (bind_new t k v w) = (lookup t)(k \<mapsto> v)"
    and invar_bind: "invar t \<Longrightarrow> lookup t k = None \<Longrightarrow> invar (bind_new t k v w)"
begin

definition learn :: "'k \<times> 'v \<times> 'w \<Rightarrow> 't \<Rightarrow> 't" where
  "learn s t = (case s of (k, v, w) \<Rightarrow> if lookup t k = None then bind_new t k v w else t)"

lemma invar_learn: "invar t \<Longrightarrow> invar (learn s t)"
  by (auto simp: learn_def invar_bind split: prod.splits)

lemma lookup_learn:
  "invar t \<Longrightarrow> lookup (learn (k, v, w) t) m
     = (case lookup t m of Some u \<Rightarrow> Some u | None \<Rightarrow> if m = k then Some v else None)"
  by (auto simp: learn_def lookup_bind split: option.splits)

lemma invar_learn_all: "invar t \<Longrightarrow> invar (fold learn ss t)"
  by (induction ss arbitrary: t) (auto simp: invar_learn)

lemma first_sighting:
  "invar t \<Longrightarrow> lookup (fold learn ss t) m
     = (case lookup t m of Some u \<Rightarrow> Some u | None \<Rightarrow> map_of (map (\<lambda>(k, v, w). (k, v)) ss) m)"
proof (induction ss arbitrary: t)
  case Nil
  then show ?case by (simp split: option.splits)
next
  case (Cons s ss)
  obtain k v w where s: "s = (k, v, w)" by (cases s)
  show ?case
    using Cons.IH [OF invar_learn [OF Cons.prems], of s] lookup_learn [OF Cons.prems, of k v w m] s
    by (auto split: option.splits)
qed

end

interpretation fdb: learning_table lookup_port "\<lambda>t mac ifc now. insert_mac_port t mac (Some ifc) now" fdb_inv
  by unfold_locales (simp_all add: lookup_insert fdb_inv_insert)

section \<open>Aging\<close>

lemma fdb_inv_sub:
  assumes "fdb_inv t" and "length t' = length t" and "\<forall>i < length t. set (t' ! i) \<subseteq> set (t ! i)"
    and "entries t = xs @ e # ys" and "entries t' = xs @ ys"
  shows "fdb_inv t'"
proof -
  have "t' ! i = []" if "0 < i" "i < HASH_8BITS" for i
    using assms(1,3) that by (auto simp: fdb_inv_def)
  then show ?thesis using assms by (auto simp: fdb_inv_def)
qed

text \<open>
  The complete behaviour of one sweep: the first aged entry in table order disappears, its
  interface index is returned, everything else stays; with no aged entry nothing happens.
\<close>

lemma sweep_aged_cases:
  assumes inv: "fdb_inv t"
  obtains (none) "\<forall>e \<in> set (entries t). \<not> aged now e" "sweep_aged_mac_port_entry now t = Inr (0, t)"
  | (one) xs e ifc ys t' where "entries t = xs @ e # ys" "entries t' = xs @ ys" "aged now e"
      "\<forall>x \<in> set xs. \<not> aged now x" "me_iface e = Some ifc" "fdb_inv t'"
      "sweep_aged_mac_port_entry now t = Inr (if_index ifc, t')"
proof (cases "sweep_table now t")
  case (Inl err)
  have no_err: "\<forall>e \<in> set b. me_iface e \<noteq> None \<Longrightarrow> sweep_bucket now b \<noteq> Inl er" for b er
    by (induction b) (auto simp: bind_r_def deref_def split: sum.splits option.splits)
  have "\<forall>e \<in> set (concat t). me_iface e \<noteq> None \<Longrightarrow> sweep_table now t \<noteq> Inl er" for er
    using no_err by (induction t) (auto simp: bind_r_def split: sum.splits option.splits)
  then show thesis using Inl fdb_invD(3) [OF inv] by (auto simp: entries_def)
next
  case (Inr r)
  show thesis
  proof (cases r)
    case None
    then show thesis using none Inr sweep_table_None [of now t] by (simp add: sweep_aged_mac_port_entry_def)
  next
    case (Some p)
    obtain n t' where p: "p = (n, t')" by (cases p)
    obtain xs e ifc ys where s: "length t' = length t" "\<forall>i < length t. set (t' ! i) \<subseteq> set (t ! i)"
      "entries t = xs @ e # ys" "entries t' = xs @ ys" "aged now e"
      "\<forall>x \<in> set xs. \<not> aged now x" "me_iface e = Some ifc" "n = if_index ifc"
      using sweep_table_Some [of now t n t'] Inr Some p by blast
    show thesis
      by (rule one [OF s(3-7) fdb_inv_sub [OF inv s(1-4)]])
        (use Inr Some p s(8) in \<open>simp add: sweep_aged_mac_port_entry_def\<close>)
  qed
qed

text \<open>Rounds of the sweeping thread at the given times.\<close>

definition sweeping_rounds :: "time_t list \<Rightarrow> mac_port_map_t \<Rightarrow> mac_port_map_t result" where
  "sweeping_rounds ticks t = fold_r (\<lambda>now t. bind_r (sweeping_round now t) (\<lambda>(n, t). Inr t)) ticks t"

lemma sweeping_rounds_simps [simp]:
  "sweeping_rounds [] t = Inr t"
  "sweeping_rounds (now # ticks) t
     = bind_r (sweep_aged_mac_port_entry now t) (\<lambda>(n, t'). sweeping_rounds ticks t')"
  by (cases "sweep_aged_mac_port_entry now t"; auto simp: sweeping_rounds_def sweeping_round_def)+

lemma sweeping_rounds_ok:
  assumes "fdb_inv t"
  shows "\<exists>t'. sweeping_rounds ticks t = Inr t' \<and> fdb_inv t' \<and> set (entries t') \<subseteq> set (entries t)"
  using assms
proof (induction ticks arbitrary: t)
  case (Cons now ticks)
  from Cons.prems show ?case
  proof (cases rule: sweep_aged_cases [where now = now])
    case none
    then show ?thesis using Cons by simp
  next
    case (one xs e ifc ys t')
    then show ?thesis using Cons.IH [OF one(6)] by auto
  qed
qed simp

lemma sweeping_rounds_forget:
  assumes "fdb_inv t" and "entries t = xs @ e # ys" and "\<forall>now \<in> set ticks. aged now e"
    and "length xs < length ticks"
  shows "\<exists>t'. sweeping_rounds ticks t = Inr t' \<and> lookup_port t' (me_mac e) = None"
  using assms
proof (induction ticks arbitrary: t xs ys)
  case (Cons now ticks)
  have here: "e \<in> set (entries t)" using Cons.prems(2) by simp
  from Cons.prems(1) show ?case
  proof (cases rule: sweep_aged_cases [where now = now])
    case none
    then show ?thesis using Cons.prems(2,3) by simp
  next
    case (one us d ifc vs t')
    show ?thesis
    proof (cases "d = e")
      case True
      have "distinct (map me_mac (us @ e # vs))" using fdb_invD(2) [OF Cons.prems(1)] one(1) True by simp
      then have gone: "me_mac e \<notin> me_mac ` set (entries t')" using one(2) by auto
      obtain t'' where "sweeping_rounds ticks t' = Inr t''" "fdb_inv t''" "set (entries t'') \<subseteq> set (entries t')"
        using sweeping_rounds_ok [OF one(6)] by blast
      with gone one(7) show ?thesis by (auto simp: lookup_port_None)
    next
      case False
      have "\<not> aged now e" if "e \<in> set us" using one(4) that by blast
      then have "e \<notin> set us" using Cons.prems(3) by auto
      then obtain zs where zs: "vs = zs @ e # ys" "xs = us @ d # zs"
        using Cons.prems(2) one(1) False fdb_invD(2) [OF Cons.prems(1)] here
        by (auto simp: append_eq_append_conv2 append_eq_Cons_conv Cons_eq_append_conv)
      have "\<exists>t''. sweeping_rounds ticks t' = Inr t'' \<and> lookup_port t'' (me_mac e) = None"
        by (rule Cons.IH [OF one(6), of "us @ zs" ys]) (use one(2) zs Cons.prems(3,4) in auto)
      then show ?thesis using one(7) by simp
    qed
  qed
qed simp

section \<open>Properties\<close>

text \<open>The table binds every address to the interface it was first seen on: after learning any list
  of sightings from an empty table, the lookup of an address is the first sighting of it.\<close>

theorem fdb_first_sighting:
  "lookup_port (fold (\<lambda>(mac, ifc, now) t.
       if lookup_port t mac = None then insert_mac_port t mac (Some ifc) now else t) sightings init_mac_port_table)
   = map_of (map (\<lambda>(mac, ifc, now). (mac, ifc)) sightings)"
proof -
  have "(\<lambda>(mac, ifc, now) t. if lookup_port t mac = None then insert_mac_port t mac (Some ifc) now else t) = fdb.learn"
    by (auto simp: fun_eq_iff fdb.learn_def)
  moreover have "lookup_port init_mac_port_table m = None" for m by (simp add: lookup_port_eq)
  ultimately show ?thesis
    using fdb.first_sighting [OF fdb_inv_init] by (simp add: fun_eq_iff)
qed

text \<open>One sweep removes at most one entry: if an entry is aged, exactly the first aged entry in
  table order goes and the index of its interface is returned (which the thread logs as the number
  of removed entries); otherwise nothing changes and 0 is returned.\<close>

theorem sweep_removes_first_aged:
  assumes "fdb_inv t"
  shows "\<exists>n t'. sweep_aged_mac_port_entry now t = Inr (n, t') \<and> fdb_inv t' \<and>
    ((\<forall>e \<in> set (entries t). \<not> aged now e) \<and> n = 0 \<and> t' = t \<or>
     (\<exists>xs e ys. entries t = xs @ e # ys \<and> entries t' = xs @ ys \<and> aged now e
        \<and> (\<forall>x \<in> set xs. \<not> aged now x) \<and> me_iface e \<noteq> None \<and> n = if_index (the (me_iface e))))"
  using assms
proof (cases rule: sweep_aged_cases [where now = now])
  case none
  then show ?thesis using assms by blast
next
  case (one xs e ifc ys t')
  then show ?thesis
    by (intro exI [of _ "if_index ifc"] exI [of _ t'] conjI disjI2 exI [of _ xs] exI [of _ e] exI [of _ ys]) auto
qed

definition demo_tab :: mac_port_map_t where
  "demo_tab = insert_mac_port (insert_mac_port init_mac_port_table [0, 0, 0, 0, 0, 1]
      (Some \<lparr>if_fd = 3, if_index = 7, if_mac = [], if_name = ''s1-eth0''\<rparr>) 100) [0, 0, 0, 0, 0, 2]
      (Some \<lparr>if_fd = 4, if_index = 8, if_mac = [], if_name = ''s1-eth1''\<rparr>) 105"

lemma demo_tab_inv: "fdb_inv demo_tab"
  unfolding demo_tab_def
  by (intro fdb_inv_insert fdb_inv_init)
    (simp_all add: lookup_port_eq entries_insert fdb_inv_init)

lemma demo_tab_entries: "entries demo_tab =
  [\<lparr>me_mac = [0, 0, 0, 0, 0, 1], me_iface = Some \<lparr>if_fd = 3, if_index = 7, if_mac = [], if_name = ''s1-eth0''\<rparr>, me_visited = 100\<rparr>,
   \<lparr>me_mac = [0, 0, 0, 0, 0, 2], me_iface = Some \<lparr>if_fd = 4, if_index = 8, if_mac = [], if_name = ''s1-eth1''\<rparr>, me_visited = 105\<rparr>]"
  unfolding demo_tab_def
  by (simp add: entries_insert fdb_inv_init fdb_inv_insert lookup_port_eq)

lemma aged_eval: "aged now e \<longleftrightarrow> 30 \<le> now - me_visited e" if "- (2 ^ 31) \<le> now - me_visited e" "now - me_visited e < 2 ^ 31"
  using that by (simp add: aged_def MAC_PORT_TIMEOUT_def c_int_small)

theorem sweep_removes_first_aged_witness:
  "fdb_inv demo_tab \<and> (\<exists>t'. sweep_aged_mac_port_entry 200 demo_tab = Inr (7, t') \<and> length (entries t') = 1)"
proof -
  obtain n t' where "sweep_aged_mac_port_entry 200 demo_tab = Inr (n, t')" and c:
    "(\<forall>e \<in> set (entries demo_tab). \<not> aged 200 e) \<and> n = 0 \<and> t' = demo_tab \<or>
     (\<exists>xs e ys. entries demo_tab = xs @ e # ys \<and> entries t' = xs @ ys \<and> aged 200 e
        \<and> (\<forall>x \<in> set xs. \<not> aged 200 x) \<and> me_iface e \<noteq> None \<and> n = if_index (the (me_iface e)))"
    using sweep_removes_first_aged [OF demo_tab_inv, of 200] by blast
  moreover from c have "n = 7 \<and> length (entries t') = 1"
    by (auto simp: demo_tab_entries aged_eval Cons_eq_append_conv)
  ultimately show ?thesis using demo_tab_inv by auto
qed

text \<open>C34. Aging is live: an entry that is aged at every round is forgotten after as many rounds of the
  sweeping thread as there are entries up to and including it, and no round fails.\<close>

theorem aged_entry_forgotten:
  assumes "fdb_inv t" and "entries t = xs @ e # ys"
    and "\<forall>now \<in> set ticks. aged now e" and "length xs < length ticks"
  shows "\<exists>t'. sweeping_rounds ticks t = Inr t' \<and> lookup_port t' (me_mac e) = None"
  using sweeping_rounds_forget [OF assms] .

theorem aged_entry_forgotten_witness:
  "\<exists>t'. sweeping_rounds [140, 141] demo_tab = Inr t' \<and> lookup_port t' [0, 0, 0, 0, 0, 2] = None"
  using aged_entry_forgotten [OF demo_tab_inv, of "[entries demo_tab ! 0]" "entries demo_tab ! 1" "[]" "[140, 141]"]
  by (simp add: demo_tab_entries aged_eval)

end
