(* ===== verification/MacHeap.thy ===== *)
theory MacHeap
  imports Buckets Mac
begin

text \<open>
  \<^verbatim>\<open>switch_stack/mac.c\<close> on memory: the same functions as in theory \<open>Mac\<close>, now with the
  list operations and iteration macros of \<^verbatim>\<open>list.h\<close>, \<open>malloc\<close> and \<open>free\<close>. The
  theorems show that they compute what the functions of \<open>Mac\<close> compute on lists, that every loop ends, and that the memory
  holds the entries of the table and nothing else.
\<close>

section \<open>The functions\<close>

type_synonym fdb_mem = "heap \<times> mac_port_entry_t store"

text \<open>The cleared table, then the loop over its heads.\<close>

definition init_mac_port_table_p :: "fdb_mem result" where
  "init_mac_port_table_p =
     bind_r (fold_r (\<lambda>i h. init_list_head h (bucket_head i)) [0..<HASH_8BITS] (zeroed_heads HASH_8BITS)) (\<lambda>h.
     Inr (h, Map.empty))"

definition destory_body :: "addr \<Rightarrow> heap \<times> mac_port_entry_t store \<times> unit \<Rightarrow> (heap \<times> mac_port_entry_t store \<times> unit, unit) flow result" where
  "destory_body entry s = (case s of (h, d, u) \<Rightarrow>
     bind_r (list_delete_entry h entry) (\<lambda>h.
     bind_r (free_entry h d entry) (\<lambda>(h, d).
       Inr (Continue (h, d, u)))))"

definition destory_mac_port_table_p :: "fdb_mem \<Rightarrow> fdb_mem result option" where
  "destory_mac_port_table_p m =
     after_loop (\<lambda>(h, d, u). (h, d)) (\<lambda>x (h, d, u). (h, d))
       (for_buckets (\<lambda>i. list_for_each_entry_safe destory_body (bucket_head i)) [0..<HASH_8BITS] (fst m, snd m, ()))"

definition lookup_body ::
  "bytes \<Rightarrow> addr \<Rightarrow> heap \<times> mac_port_entry_t store \<times> unit \<Rightarrow> (heap \<times> mac_port_entry_t store \<times> unit, iface_ptr) flow result" where
  "lookup_body mac entry s = (case s of (h, d, u) \<Rightarrow>
     bind_r (ld_entry d entry) (\<lambda>e.
       Inr (if me_mac e = mac then Return (me_iface e) s else Continue s)))"

definition lookup_port_p :: "fdb_mem \<Rightarrow> bytes \<Rightarrow> iface_ptr result option" where
  "lookup_port_p m mac =
     after_loop (\<lambda>s. None) (\<lambda>iface s. iface)
       (for_buckets (\<lambda>i. list_for_each_entry_safe (lookup_body mac) (bucket_head i)) [0..<HASH_8BITS] (fst m, snd m, ()))"

definition insert_mac_port_p :: "(heap \<Rightarrow> addr) \<Rightarrow> fdb_mem \<Rightarrow> bytes \<Rightarrow> iface_ptr \<Rightarrow> time_t \<Rightarrow> fdb_mem result" where
  "insert_mac_port_p malloc m mac iface now = (case m of (h, d) \<Rightarrow>
     let entry = malloc h;
         d = d(entry \<mapsto> \<lparr>me_mac = mac, me_iface = iface, me_visited = now\<rparr>)
     in bind_r (list_add_tail (malloc_node h entry) entry (bucket_head 0)) (\<lambda>h. Inr (h, d)))"

definition dump_body ::
  "time_t \<Rightarrow> addr \<Rightarrow> heap \<times> mac_port_entry_t store \<times> (bytes \<times> string \<times> int) list
     \<Rightarrow> (heap \<times> mac_port_entry_t store \<times> (bytes \<times> string \<times> int) list, unit) flow result" where
  "dump_body now entry s = (case s of (h, d, out) \<Rightarrow>
     bind_r (ld_entry d entry) (\<lambda>e.
     bind_r (deref (me_iface e)) (\<lambda>iface.
       Inr (Continue (h, d, out @ [(me_mac e, if_name iface, c_int (now - me_visited e))])))))"

definition dump_mac_port_table_p :: "fdb_mem \<Rightarrow> time_t \<Rightarrow> (bytes \<times> string \<times> int) list result option" where
  "dump_mac_port_table_p m now =
     after_loop (\<lambda>(h, d, out). out) (\<lambda>x (h, d, out). out)
       (for_buckets (\<lambda>i. list_for_each_entry (dump_body now) (bucket_head i)) [0..<HASH_8BITS] (fst m, snd m, []))"

definition sweep_aged_body ::
  "time_t \<Rightarrow> addr \<Rightarrow> heap \<times> mac_port_entry_t store \<times> unit \<Rightarrow> (heap \<times> mac_port_entry_t store \<times> unit, int) flow result" where
  "sweep_aged_body now entry s = (case s of (h, d, u) \<Rightarrow>
     bind_r (ld_entry d entry) (\<lambda>e.
     if aged now e then
       bind_r (deref (me_iface e)) (\<lambda>iface.
       bind_r (list_delete_entry h entry) (\<lambda>h.
       bind_r (free_entry h d entry) (\<lambda>(h, d).
         Inr (Return (if_index iface) (h, d, u)))))
     else Inr (Continue s)))"

definition sweep_aged_mac_port_entry_p :: "time_t \<Rightarrow> fdb_mem \<Rightarrow> (int \<times> fdb_mem) result option" where
  "sweep_aged_mac_port_entry_p now m =
     after_loop (\<lambda>(h, d, u). (0, h, d)) (\<lambda>n (h, d, u). (n, h, d))
       (for_buckets (\<lambda>i. list_for_each_entry_safe (sweep_aged_body now) (bucket_head i)) [0..<HASH_8BITS] (fst m, snd m, ()))"

section \<open>Each function computes its list version\<close>

lemma bodies:
  "destory_body = visit_entry (\<lambda>e c. Inr (True, Continue c))"
  "lookup_body mac = visit_entry (\<lambda>e c. Inr (False, if me_mac e = mac then Return (me_iface e) c else Continue c))"
  "dump_body now = visit_entry (keep (\<lambda>e out. bind_r (deref (me_iface e)) (\<lambda>iface.
     Inr (Continue (out @ [(me_mac e, if_name iface, c_int (now - me_visited e))])))))"
  "sweep_aged_body now = visit_entry (\<lambda>e c. if aged now e
     then bind_r (deref (me_iface e)) (\<lambda>iface. Inr (True, Return (if_index iface) c))
     else Inr (False, Continue c))"
proof -
  show "destory_body = visit_entry (\<lambda>e c. Inr (True, Continue c))"
    by (intro ext) (simp add: destory_body_def visit_entry_def delete_free_visit [where k = "\<lambda>(h, d). Continue (h, d, _)", simplified] split: prod.splits)
  show "lookup_body mac = visit_entry (\<lambda>e c. Inr (False, if me_mac e = mac then Return (me_iface e) c else Continue c))"
    by (intro ext) (auto simp: lookup_body_def visit_entry_def ld_entry_def split: prod.splits option.splits)
  show "dump_body now = visit_entry (keep (\<lambda>e out. bind_r (deref (me_iface e)) (\<lambda>iface.
     Inr (Continue (out @ [(me_mac e, if_name iface, c_int (now - me_visited e))])))))"
    by (intro ext) (auto simp: dump_body_def visit_entry_def ld_entry_def keep_def deref_def split: prod.splits option.splits)
  show "sweep_aged_body now = visit_entry (\<lambda>e c. if aged now e
     then bind_r (deref (me_iface e)) (\<lambda>iface. Inr (True, Return (if_index iface) c))
     else Inr (False, Continue c))"
    by (intro ext) (auto simp: sweep_aged_body_def visit_entry_def ld_entry_def free_entry_def deref_def split: prod.splits option.splits)
qed

text \<open>The recursion of the loop lemma, for the four decisions.\<close>

lemma visit_lookup:
  "visit_buckets (\<lambda>e c. Inr (False, if me_mac e = mac then Return (me_iface e) c else Continue c)) t c
   = Inr (t, case lookup_table t mac of Some iface \<Rightarrow> Return iface c | None \<Rightarrow> Continue c)"
proof -
  have "visit_list (\<lambda>e c. Inr (False, if me_mac e = mac then Return (me_iface e) c else Continue c)) b c
      = Inr (b, case lookup_bucket b mac of Some iface \<Rightarrow> Return iface c | None \<Rightarrow> Continue c)" for b
    by (induction b) auto
  then show ?thesis by (induction t) (auto split: option.splits)
qed

lemma visit_sweep:
  "visit_buckets (\<lambda>e c. if aged now e
     then bind_r (deref (me_iface e)) (\<lambda>iface. Inr (True, Return (if_index iface) c))
     else Inr (False, Continue c)) t c
   = bind_r (sweep_table now t) (\<lambda>r. Inr (case r of None \<Rightarrow> (t, Continue c) | Some (n, t') \<Rightarrow> (t', Return n c)))"
proof -
  let ?f = "\<lambda>e c. if aged now e
     then bind_r (deref (me_iface e)) (\<lambda>iface. Inr (True, Return (if_index iface) c))
     else Inr (False, Continue c)"
  have "visit_list ?f b c
      = bind_r (sweep_bucket now b) (\<lambda>r. Inr (case r of None \<Rightarrow> (b, Continue c) | Some (n, b') \<Rightarrow> (b', Return n c)))" for b
  proof (induction b)
    case (Cons e es)
    then show ?case
      by (cases "sweep_bucket now es") (auto simp: deref_def split: option.splits)
  qed simp
  note b = this
  show ?thesis
  proof (induction t)
    case (Cons b t)
    then show ?case
      by (cases "sweep_bucket now b"; cases "sweep_table now t") (auto simp: b split: option.splits)
  qed simp
qed

lemma visit_destory:
  "visit_buckets (\<lambda>e c. Inr (True, Continue c)) t c = Inr (destory_mac_port_table t, Continue c :: ('c, 'r) flow)"
proof -
  have "visit_list (\<lambda>e c. Inr (True, Continue c)) b c = Inr ([], Continue c :: ('c, 'r) flow)"
    for b :: "mac_port_entry_t list"
    by (induction b) auto
  moreover have "destory_bucket b = []" for b by (induction b) auto
  ultimately show ?thesis by (induction t) (auto simp: destory_mac_port_table_def)
qed

lemma visit_dump:
  "visit_buckets (keep (\<lambda>e out. bind_r (deref (me_iface e)) (\<lambda>iface.
     Inr (Continue (out @ [(me_mac e, if_name iface, c_int (now - me_visited e))]))))) t out
   = bind_r (fold_r (\<lambda>b out. bind_r (dump_bucket b now) (\<lambda>ls. Inr (out @ ls))) t out) (\<lambda>out. Inr (t, Continue out))"
proof -
  let ?f = "keep (\<lambda>e out. bind_r (deref (me_iface e)) (\<lambda>iface.
     Inr (Continue (out @ [(me_mac e, if_name iface, c_int (now - me_visited e))]))))"
  have b: "visit_list ?f b out = bind_r (dump_bucket b now) (\<lambda>ls. Inr (b, Continue (out @ ls)))" for b out
  proof (induction b arbitrary: out)
    case (Cons e es)
    then show ?case
      by (cases "dump_bucket es now") (auto simp: keep_def deref_def split: option.splits)
  qed simp
  show ?thesis
  proof (induction t arbitrary: out)
    case (Cons b t)
    then show ?case
    proof (cases "dump_bucket b now")
      case (Inr ls)
      with Cons show ?thesis
        by (cases "fold_r (\<lambda>b out. bind_r (dump_bucket b now) (\<lambda>ls. Inr (out @ ls))) t (out @ ls)")
          (auto simp: b)
    qed (simp add: b)
  qed simp
qed

text \<open>The functions, on any memory that holds the table.\<close>

lemma lookup_port_p_ok:
  assumes "in_memory h d {} t" and "length t = HASH_8BITS"
  shows "lookup_port_p (h, d) mac = Some (Inr (lookup_port t mac))"
  using for_buckets_safe [OF assms(1), of "\<lambda>e c. Inr (False, if me_mac e = mac then Return (me_iface e) c else Continue c)" "()"]
  unfolding visit_lookup
  by (auto simp: lookup_port_p_def bodies assms(2) table_ok_def after_loop_def lookup_port_def split: option.splits)

lemma sweep_aged_mac_port_entry_p_ok:
  assumes "in_memory h d {} t" and "length t = HASH_8BITS"
  shows "case sweep_aged_mac_port_entry now t of
      Inl er \<Rightarrow> sweep_aged_mac_port_entry_p now (h, d) = Some (Inl er)
    | Inr (n, t') \<Rightarrow> \<exists>h' d'. sweep_aged_mac_port_entry_p now (h, d) = Some (Inr (n, h', d')) \<and> in_memory h' d' {} t'"
proof -
  note ok = for_buckets_safe [OF assms(1), of "\<lambda>e c. if aged now e
     then bind_r (deref (me_iface e)) (\<lambda>iface. Inr (True, Return (if_index iface) c))
     else Inr (False, Continue c)" "()", unfolded visit_sweep, folded bodies, unfolded assms(2)]
  show ?thesis
  proof (cases "sweep_table now t")
    case (Inl er)
    with ok show ?thesis
      by (simp add: sweep_aged_mac_port_entry_def sweep_aged_mac_port_entry_p_def table_ok_def after_loop_def)
  next
    case (Inr r)
    with ok show ?thesis
      by (cases r) (auto simp: sweep_aged_mac_port_entry_def sweep_aged_mac_port_entry_p_def table_ok_def after_loop_def)
  qed
qed

lemma destory_mac_port_table_p_ok:
  assumes "in_memory h d {} t" and "length t = HASH_8BITS"
  shows "\<exists>h' d'. destory_mac_port_table_p (h, d) = Some (Inr (h', d')) \<and> in_memory h' d' {} (destory_mac_port_table t)"
  using for_buckets_safe [OF assms(1), of "\<lambda>e c. Inr (True, Continue c :: (unit, unit) flow)" "()", unfolded visit_destory]
  by (auto simp: destory_mac_port_table_p_def bodies(1) assms(2) table_ok_def after_loop_def)

lemma dump_mac_port_table_p_ok:
  assumes "in_memory h d {} t" and "length t = HASH_8BITS"
  shows "dump_mac_port_table_p (h, d) now = Some (dump_mac_port_table t now)"
proof -
  note ok = for_buckets_plain [OF assms(1), of "\<lambda>e out. bind_r (deref (me_iface e)) (\<lambda>iface.
     Inr (Continue (out @ [(me_mac e, if_name iface, c_int (now - me_visited e))]) :: (_, unit) flow))" "[]",
     unfolded visit_dump, folded bodies dump_mac_port_table_def, unfolded assms(2)]
  then show ?thesis
    by (cases "dump_mac_port_table t now") (auto simp: dump_mac_port_table_p_def table_ok_def after_loop_def)
qed

lemma insert_mac_port_p_ok:
  assumes "malloc_fresh malloc" and mem: "in_memory h d {} t" and len: "length t = HASH_8BITS"
  shows "\<exists>h' d'. insert_mac_port_p malloc (h, d) mac iface now = Inr (h', d')
    \<and> in_memory h' d' {} (insert_mac_port t mac iface now)"
proof -
  note fresh = in_memory_fresh [OF assms(1) mem]
  have "0 < length t" by (simp add: len HASH_8BITS_def)
  then show ?thesis
    using in_memory_add_tail [OF mem _ fresh, of 0 "\<lparr>me_mac = mac, me_iface = iface, me_visited = now\<rparr>"]
    by (fastforce simp: insert_mac_port_p_def insert_mac_port_def Let_def)
qed

lemma init_mac_port_table_p_ok:
  "\<exists>h. init_mac_port_table_p = Inr (h, Map.empty) \<and> in_memory h Map.empty {} init_mac_port_table"
proof -
  have "(replicate HASH_8BITS [] :: mac_port_map_t) = init_mac_port_table"
    by (simp add: init_mac_port_table_def map_replicate_const)
  then show ?thesis
    using init_heads_ok [of HASH_8BITS, where 'a = mac_port_entry_t] by (auto simp: init_mac_port_table_p_def)
qed

section \<open>Runs\<close>

text \<open>
  Any sequence of calls, with what each of them returns or prints. \<open>fdb_run\<close> is the sequence on
  lists, \<open>fdb_run_p\<close> on memory.
\<close>

datatype fdb_call =
    LookupPort bytes
  | InsertMacPort bytes iface_ptr time_t
  | SweepAged time_t
  | DumpTable time_t
  | DestoryTable

datatype fdb_answer = Iface iface_ptr | Index int | Lines "(bytes \<times> string \<times> int) list" | Done

fun fdb_do :: "fdb_call \<Rightarrow> mac_port_map_t \<Rightarrow> (fdb_answer \<times> mac_port_map_t) result" where
  "fdb_do (LookupPort mac) t = Inr (Iface (lookup_port t mac), t)"
| "fdb_do (InsertMacPort mac iface now) t = Inr (Done, insert_mac_port t mac iface now)"
| "fdb_do (SweepAged now) t = bind_r (sweep_aged_mac_port_entry now t) (\<lambda>(n, t). Inr (Index n, t))"
| "fdb_do (DumpTable now) t = bind_r (dump_mac_port_table t now) (\<lambda>ls. Inr (Lines ls, t))"
| "fdb_do DestoryTable t = Inr (Done, destory_mac_port_table t)"

fun fdb_do_p :: "(heap \<Rightarrow> addr) \<Rightarrow> fdb_call \<Rightarrow> fdb_mem \<Rightarrow> (fdb_answer \<times> fdb_mem) result option" where
  "fdb_do_p malloc (LookupPort mac) m =
     map_option (\<lambda>r. bind_r r (\<lambda>iface. Inr (Iface iface, m))) (lookup_port_p m mac)"
| "fdb_do_p malloc (InsertMacPort mac iface now) m =
     Some (bind_r (insert_mac_port_p malloc m mac iface now) (\<lambda>m. Inr (Done, m)))"
| "fdb_do_p malloc (SweepAged now) m =
     map_option (\<lambda>r. bind_r r (\<lambda>(n, m). Inr (Index n, m))) (sweep_aged_mac_port_entry_p now m)"
| "fdb_do_p malloc (DumpTable now) m =
     map_option (\<lambda>r. bind_r r (\<lambda>ls. Inr (Lines ls, m))) (dump_mac_port_table_p m now)"
| "fdb_do_p malloc DestoryTable m =
     map_option (\<lambda>r. bind_r r (\<lambda>m. Inr (Done, m))) (destory_mac_port_table_p m)"

fun fdb_run :: "fdb_call list \<Rightarrow> mac_port_map_t \<Rightarrow> (fdb_answer list \<times> mac_port_map_t) result" where
  "fdb_run [] t = Inr ([], t)"
| "fdb_run (c # cs) t =
     bind_r (fdb_do c t) (\<lambda>(a, t). bind_r (fdb_run cs t) (\<lambda>(as, t). Inr (a # as, t)))"

fun fdb_run_p :: "(heap \<Rightarrow> addr) \<Rightarrow> fdb_call list \<Rightarrow> fdb_mem \<Rightarrow> (fdb_answer list \<times> fdb_mem) result option" where
  "fdb_run_p malloc [] m = Some (Inr ([], m))"
| "fdb_run_p malloc (c # cs) m =
     (case fdb_do_p malloc c m of
        None \<Rightarrow> None
      | Some (Inl e) \<Rightarrow> Some (Inl e)
      | Some (Inr (a, m)) \<Rightarrow>
          map_option (\<lambda>r. bind_r r (\<lambda>(as, m). Inr (a # as, m))) (fdb_run_p malloc cs m))"

text \<open>The simulation relation of answers and states.\<close>

definition fdb_sim :: "('a \<times> fdb_mem) result option \<Rightarrow> ('a \<times> mac_port_map_t) result \<Rightarrow> bool" where
  "fdb_sim r m \<longleftrightarrow> (case m of
     Inl e \<Rightarrow> r = Some (Inl e)
   | Inr (a, t) \<Rightarrow> \<exists>h d. r = Some (Inr (a, h, d)) \<and> in_memory h d {} t \<and> length t = HASH_8BITS)"

lemma sweep_table_length: "sweep_aged_mac_port_entry now t = Inr (n, t') \<Longrightarrow> length t' = length t"
  using sweep_table_Some [of now t]
  by (fastforce simp: sweep_aged_mac_port_entry_def bind_r_eq_Inr split: option.splits)

lemma fdb_do_sim:
  assumes "malloc_fresh malloc" and mem: "in_memory h d {} t" "length t = HASH_8BITS"
  shows "fdb_sim (fdb_do_p malloc c (h, d)) (fdb_do c t)"
proof (cases c)
  case (LookupPort mac)
  then show ?thesis using lookup_port_p_ok [OF mem] mem by (simp add: fdb_sim_def)
next
  case (InsertMacPort mac iface now)
  then show ?thesis using insert_mac_port_p_ok [OF assms, of mac iface now] mem(2)
    by (auto simp: fdb_sim_def insert_mac_port_def)
next
  case (SweepAged now)
  then show ?thesis
    using sweep_aged_mac_port_entry_p_ok [OF mem, of now] mem(2) sweep_table_length [of now t]
    by (cases "sweep_aged_mac_port_entry now t") (auto simp: fdb_sim_def)
next
  case (DumpTable now)
  then show ?thesis using dump_mac_port_table_p_ok [OF mem, of now] mem
    by (cases "dump_mac_port_table t now") (simp_all add: fdb_sim_def)
next
  case DestoryTable
  then show ?thesis using destory_mac_port_table_p_ok [OF mem] mem(2)
    by (auto simp: fdb_sim_def destory_mac_port_table_def)
qed

lemma fdb_run_sim:
  assumes "malloc_fresh malloc" and "in_memory h d {} t" and "length t = HASH_8BITS"
  shows "fdb_sim (fdb_run_p malloc cs (h, d)) (fdb_run cs t)"
  using assms(2,3)
proof (induction cs arbitrary: h d t)
  case (Cons c cs)
  note step = fdb_do_sim [OF assms(1) Cons.prems, of c]
  show ?case
  proof (cases "fdb_do c t")
    case (Inl e)
    then show ?thesis using step by (simp add: fdb_sim_def)
  next
    case (Inr p)
    obtain a t1 where p: "p = (a, t1)" by (cases p)
    then obtain h1 d1 where s: "fdb_do_p malloc c (h, d) = Some (Inr (a, h1, d1))" "in_memory h1 d1 {} t1" "length t1 = HASH_8BITS"
      using step Inr by (auto simp: fdb_sim_def)
    then show ?thesis using Cons.IH [OF s(2,3)] Inr p
      by (cases "fdb_run cs t1") (auto simp: fdb_sim_def)
  qed
qed (simp add: fdb_sim_def)

section \<open>Properties\<close>

text \<open>C7. The pointer program computes the list model: for every sequence of calls of the functions of
  \<^verbatim>\<open>mac.c\<close>, starting from \<open>init_mac_port_table\<close>, every loop over the linked lists ends, no
  freed or unallocated memory is touched, the calls return and print what the list model says (a null
  interface that is followed included), and afterwards the memory holds the entries of the table and nothing else: there
  are as many allocated entries as the table has, so nothing leaks.\<close>

theorem fdb_memory_refines:
  assumes "malloc_fresh malloc"
  shows "\<exists>m. init_mac_port_table_p = Inr m \<and>
    (case fdb_run calls init_mac_port_table of
       Inl e \<Rightarrow> fdb_run_p malloc calls m = Some (Inl e)
     | Inr (answers, t) \<Rightarrow> \<exists>h d. fdb_run_p malloc calls m = Some (Inr (answers, h, d))
         \<and> in_memory h d {} t \<and> card (dom d) = length (entries t))"
proof -
  obtain h where h: "init_mac_port_table_p = Inr (h, Map.empty)" "in_memory h Map.empty {} init_mac_port_table"
    using init_mac_port_table_p_ok by blast
  have "length init_mac_port_table = HASH_8BITS" by (simp add: init_mac_port_table_def)
  then have "fdb_sim (fdb_run_p malloc calls (h, Map.empty)) (fdb_run calls init_mac_port_table)"
    by (rule fdb_run_sim [OF assms h(2)])
  then have "case fdb_run calls init_mac_port_table of
       Inl e \<Rightarrow> fdb_run_p malloc calls (h, Map.empty) = Some (Inl e)
     | Inr (answers, t) \<Rightarrow> \<exists>h' d. fdb_run_p malloc calls (h, Map.empty) = Some (Inr (answers, h', d))
         \<and> in_memory h' d {} t \<and> card (dom d) = length (entries t)"
    using in_memory_card(2) [of _ _ "{}"] by (fastforce simp: fdb_sim_def entries_def split: sum.splits)
  then show ?thesis using h(1) by blast
qed

definition demo_iface :: "int \<Rightarrow> iface_ptr" where
  "demo_iface n = Some \<lparr>if_fd = n, if_index = n, if_mac = [], if_name = ''s1-eth0''\<rparr>"

definition demo_calls :: "fdb_call list" where
  "demo_calls = [InsertMacPort [0, 0, 0, 0, 0, 1] (demo_iface 7) 100, InsertMacPort [0, 0, 0, 0, 0, 2] (demo_iface 8) 105,
     SweepAged 131, LookupPort [0, 0, 0, 0, 0, 1], LookupPort [0, 0, 0, 0, 0, 2]]"

lemma demo_calls_run:
  "\<exists>t. fdb_run demo_calls init_mac_port_table = Inr ([Done, Done, Index 7, Iface None, Iface (demo_iface 8)], t)
     \<and> length (entries t) = 1"
proof -
  define t1 where "t1 = insert_mac_port init_mac_port_table [0, 0, 0, 0, 0, 1] (demo_iface 7) 100"
  define t2 where "t2 = insert_mac_port t1 [0, 0, 0, 0, 0, 2] (demo_iface 8) 105"
  let ?e1 = "\<lparr>me_mac = [0, 0, 0, 0, 0, 1], me_iface = demo_iface 7, me_visited = 100\<rparr>"
  let ?e2 = "\<lparr>me_mac = [0, 0, 0, 0, 0, 2], me_iface = demo_iface 8, me_visited = 105\<rparr>"
  have e1: "fdb_inv t1" "entries t1 = [?e1]"
    unfolding t1_def demo_iface_def
    by (intro fdb_inv_insert fdb_inv_init; simp add: lookup_port_eq) (simp add: entries_insert fdb_inv_init)
  have e2: "fdb_inv t2" "entries t2 = [?e1, ?e2]"
    unfolding t2_def demo_iface_def
    by (intro fdb_inv_insert e1; simp add: lookup_port_eq e1) (simp add: entries_insert e1 demo_iface_def)
  obtain n t3 where s: "sweep_aged_mac_port_entry 131 t2 = Inr (n, t3)" "n = 7 \<and> entries t3 = [?e2]"
    using e2(1)
  proof (cases rule: sweep_aged_cases [where now = 131])
    case none
    then show thesis by (simp add: e2(2) aged_eval)
  next
    case (one xs e ifc ys t')
    then show thesis using that
      by (auto simp: e2(2) aged_eval Cons_eq_append_conv demo_iface_def)
  qed
  then show ?thesis
    by (simp add: demo_calls_def t1_def [symmetric] t2_def [symmetric] lookup_port_eq)
qed

theorem fdb_memory_refines_witness:
  "\<exists>m h d. init_mac_port_table_p = Inr m
     \<and> fdb_run_p bump_malloc demo_calls m = Some (Inr ([Done, Done, Index 7, Iface None, Iface (demo_iface 8)], h, d))
     \<and> card (dom d) = 1"
  using fdb_memory_refines [OF bump_malloc_fresh, of demo_calls] demo_calls_run by fastforce

end
