(* ===== verification/SwitchMain.thy ===== *)
theory SwitchMain
  imports Mac
begin

text \<open>
  \<^verbatim>\<open>switch_stack/main.c\<close>: discovery of the interfaces, the frame handler and the
  receive loop of the learning switch. The operating system is a parameter: the list of network
  addresses, the results of the socket calls for a device, the outcome of every \<open>poll\<close> and
  \<open>recvfrom\<close>. The sweeping thread of \<^verbatim>\<open>mac.c\<close> runs between frames.
\<close>

section \<open>Start-up\<close>

record ustack_t =
  iface_list :: "iface_info_t list"
  nifs :: nat
  fds :: "int list"

definition open_device :: "(string \<Rightarrow> os_dev) \<Rightarrow> string \<Rightarrow> int" where
  "open_device os dname =
     (let sd = os_socket (os dname) in
      if sd < 0 then -1
      else if \<not> os_ifindex_ok (os dname) then -1
      else if \<not> os_bind_ok (os dname) then -1
      else if \<not> os_hwaddr_ok (os dname) then -1
      else sd)"

definition read_iface_info :: "(string \<Rightarrow> os_dev) \<Rightarrow> iface_info_t \<Rightarrow> int \<times> iface_info_t" where
  "read_iface_info os iface =
     (let fd = open_device os (if_name iface);
          iface = iface\<lparr>if_fd := fd\<rparr>;
          iface = iface\<lparr>if_index := os_ifindex (os (if_name iface))\<rparr>;
          iface = iface\<lparr>if_mac := os_hwaddr (os (if_name iface))\<rparr>
      in (fd, iface))"

text \<open>
  The scan. \<open>strcpy\<close> into \<open>name[16]\<close> writes past the field for a name of 16 or more characters.
\<close>

definition new_iface :: "string \<Rightarrow> iface_info_t" where
  "new_iface nm = \<lparr>if_fd = 0, if_index = 0, if_mac = replicate 6 0, if_name = nm\<rparr>"

fun scan_addrs :: "ifaddrs list \<Rightarrow> ustack_t \<Rightarrow> ustack_t result" where
  "scan_addrs [] inst = Inr inst"
| "scan_addrs (addr # addrs) inst =
     (if ifa_family addr = Some AF_PACKET \<and> strstr (ifa_name addr) ''-eth''
      then if length (ifa_name addr) \<ge> 16 then Inl OutOfBounds
           else scan_addrs addrs
             (inst\<lparr>iface_list := iface_list inst @ [new_iface (ifa_name addr)], nifs := nifs inst + 1\<rparr>)
      else scan_addrs addrs inst)"

text \<open>The names the scan takes.\<close>

definition eth_names :: "ifaddrs list \<Rightarrow> string list" where
  "eth_names addrs = map ifa_name (filter (\<lambda>a. ifa_family a = Some AF_PACKET \<and> strstr (ifa_name a) ''-eth'') addrs)"

text \<open>The names, each after a blank, printed into \<open>dev_names[1024]\<close> with a final null byte.\<close>

definition dev_names :: "iface_info_t list \<Rightarrow> string result" where
  "dev_names ifs =
     (let s = concat (map (\<lambda>i. CHR '' '' # if_name i) ifs)
      in if length s < 1024 then Inr s else Inl OutOfBounds)"

definition find_available_ifaces :: "ifaddrs list \<Rightarrow> ustack_t \<Rightarrow> ustack_t result" where
  "find_available_ifaces addrs inst =
     bind_r (scan_addrs addrs (inst\<lparr>iface_list := []\<rparr>)) (\<lambda>inst.
       if nifs inst = 0 then Inl (Exit 1)
       else bind_r (dev_names (iface_list inst)) (\<lambda>s. Inr inst))"

definition init_all_ifaces :: "(string \<Rightarrow> os_dev) \<Rightarrow> ifaddrs list \<Rightarrow> ustack_t \<Rightarrow> ustack_t result" where
  "init_all_ifaces os addrs inst =
     bind_r (find_available_ifaces addrs inst) (\<lambda>inst.
       let rs = map (read_iface_info os) (iface_list inst)
       in Inr (inst\<lparr>iface_list := map snd rs, fds := map fst rs\<rparr>))"

text \<open>The whole state of the switch: the stack, the table, the receive buffer and the output.\<close>

record switch =
  sw_inst :: ustack_t
  sw_fdb :: mac_port_map_t
  sw_buf :: bytes
  sw_out :: "event list"

definition init_ustack :: "(string \<Rightarrow> os_dev) \<Rightarrow> ifaddrs list \<Rightarrow> bytes \<Rightarrow> switch result" where
  "init_ustack os addrs stack_garbage =
     bind_r (init_all_ifaces os addrs \<lparr>iface_list = [], nifs = 0, fds = []\<rparr>) (\<lambda>inst.
       Inr \<lparr>sw_inst = inst, sw_fdb = init_mac_port_table,
            sw_buf = take ETH_FRAME_LEN (stack_garbage @ replicate ETH_FRAME_LEN 0), sw_out = []\<rparr>)"

section \<open>Frames\<close>

fun fd_to_iface :: "iface_info_t list \<Rightarrow> int \<Rightarrow> iface_ptr" where
  "fd_to_iface [] fd = None"
| "fd_to_iface (iface # ifs) fd = (if if_fd iface = fd then Some iface else fd_to_iface ifs fd)"

definition handle_packet ::
  "sendto_fn \<Rightarrow> time_t \<Rightarrow> iface_ptr \<Rightarrow> bytes \<Rightarrow> nat \<Rightarrow> switch \<Rightarrow> switch result" where
  "handle_packet sendto now iface packet len sw =
     bind_r (ether_dhost packet) (\<lambda>dhost.
     let tx_iface = lookup_port (sw_fdb sw) dhost in
     bind_r (if tx_iface \<noteq> None
             then iface_send_packet sendto tx_iface packet len (sw_out sw)
             else broadcast_packet sendto (iface_list (sw_inst sw)) iface packet len (sw_out sw)) (\<lambda>out.
     bind_r (ether_shost packet) (\<lambda>shost.
       Inr (sw\<lparr>sw_out := out,
               sw_fdb := if lookup_port (sw_fdb sw) shost = None
                         then insert_mac_port (sw_fdb sw) shost iface now
                         else sw_fdb sw\<rparr>))))"

text \<open>
  One descriptor of a poll round. The descriptor may have no input; \<open>recvfrom\<close> may fail, and it
  copies at most \<open>ETH_FRAME_LEN\<close> bytes into \<open>buf\<close>, which keeps what it held behind them. A frame
  the machine itself sent is ignored.
\<close>

definition rx_step :: "sendto_fn \<Rightarrow> int \<times> recv \<Rightarrow> switch \<Rightarrow> switch result" where
  "rx_step sendto fr sw = (case fr of (fd, r) \<Rightarrow> (case r of
       NoInput \<Rightarrow> Inr sw
     | RecvFailed \<Rightarrow> Inr sw
     | Received data outgoing now \<Rightarrow>
         let len = recv_len data;
             sw = sw\<lparr>sw_buf := recv_into (sw_buf sw) data\<rparr>
         in if len = 0 then Inr sw
            else if outgoing then Inr sw
            else handle_packet sendto now (fd_to_iface (iface_list (sw_inst sw)) fd) (sw_buf sw) len sw))"

fun ustack_run :: "sendto_fn \<Rightarrow> poll list \<Rightarrow> switch \<Rightarrow> switch result" where
  "ustack_run sendto [] sw = Inr sw"
| "ustack_run sendto (PollFailed # ps) sw = Inr sw"
| "ustack_run sendto (PollNothing # ps) sw = ustack_run sendto ps sw"
| "ustack_run sendto (PollReady rs # ps) sw =
     bind_r (fold_r (rx_step sendto) (zip (fds (sw_inst sw)) rs) sw) (ustack_run sendto ps)"

section \<open>The state of a running switch\<close>

definition sw_wf :: "switch \<Rightarrow> bool" where
  "sw_wf sw \<longleftrightarrow> fdb_inv (sw_fdb sw) \<and> length (sw_buf sw) = ETH_FRAME_LEN
     \<and> fds (sw_inst sw) = map if_fd (iface_list (sw_inst sw))
     \<and> (\<forall>e \<in> set (entries (sw_fdb sw)). me_iface e \<in> Some ` set (iface_list (sw_inst sw)))"

lemma fd_to_iface_find: "fd_to_iface ifs fd = find (\<lambda>i. if_fd i = fd) ifs"
  by (induction ifs) auto

lemma fd_to_iface_known:
  "fd \<in> set (map if_fd ifs) \<Longrightarrow> \<exists>ifc \<in> set ifs. fd_to_iface ifs fd = Some ifc \<and> if_fd ifc = fd"
  by (induction ifs) auto

lemma scan_addrs_ok:
  "scan_addrs addrs inst = Inr inst' \<Longrightarrow> nifs inst = length (iface_list inst) \<Longrightarrow>
     nifs inst' = length (iface_list inst') \<and> fds inst' = fds inst \<and>
     map if_name (iface_list inst') = map if_name (iface_list inst)
       @ map ifa_name (filter (\<lambda>a. ifa_family a = Some AF_PACKET \<and> strstr (ifa_name a) ''-eth'') addrs)"
  by (induction addrs arbitrary: inst) (auto simp: new_iface_def split: if_splits)

lemma read_iface_info_fd [simp]: "if_fd (snd (read_iface_info os i)) = fst (read_iface_info os i)"
  by (simp add: read_iface_info_def Let_def)

lemma init_all_ifaces_fds:
  "init_all_ifaces os addrs inst = Inr inst' \<Longrightarrow> fds inst' = map if_fd (iface_list inst')"
  by (auto simp: init_all_ifaces_def bind_r_eq_Inr Let_def)

lemma init_ustack_wf: "init_ustack os addrs g = Inr sw \<Longrightarrow> sw_wf sw"
proof -
  assume "init_ustack os addrs g = Inr sw"
  then obtain inst where "init_all_ifaces os addrs \<lparr>iface_list = [], nifs = 0, fds = []\<rparr> = Inr inst"
    "sw = \<lparr>sw_inst = inst, sw_fdb = init_mac_port_table,
       sw_buf = take ETH_FRAME_LEN (g @ replicate ETH_FRAME_LEN 0), sw_out = []\<rparr>"
    by (auto simp: init_ustack_def bind_r_eq_Inr)
  then show ?thesis
    by (simp add: sw_wf_def fdb_inv_init init_all_ifaces_fds ETH_FRAME_LEN_def)
qed

section \<open>An abstract learning switch\<close>

text \<open>
  The specification: a partial map from addresses to interfaces; a frame goes to the interface
  of its destination, or to every interface but its own when the destination is unknown; a source
  that is unknown is bound to the interface the frame came from.
\<close>

definition ls_ports :: "iface_info_t list \<Rightarrow> (bytes \<rightharpoonup> iface_info_t) \<Rightarrow> iface_info_t \<Rightarrow> bytes \<Rightarrow> iface_info_t list" where
  "ls_ports ifs m ingress dst =
     (case m dst of Some p \<Rightarrow> [p] | None \<Rightarrow> filter (\<lambda>p. if_index p \<noteq> if_index ingress) ifs)"

definition ls_learn :: "(bytes \<rightharpoonup> iface_info_t) \<Rightarrow> iface_info_t \<Rightarrow> bytes \<Rightarrow> (bytes \<rightharpoonup> iface_info_t)" where
  "ls_learn m ingress src = (if m src = None then m(src \<mapsto> ingress) else m)"

text \<open>The destination and the source address of a frame.\<close>

definition dst_of :: "bytes \<Rightarrow> bytes" where "dst_of p = take 6 p"
definition src_of :: "bytes \<Rightarrow> bytes" where "src_of p = take 6 (drop 6 p)"

lemma ether_ok:
  "14 \<le> length p \<Longrightarrow> ether_dhost p = Inr (dst_of p)" "14 \<le> length p \<Longrightarrow> ether_shost p = Inr (src_of p)"
  by (simp_all add: ether_dhost_def ether_shost_def rd_bytes_def ETH_ALEN_def dst_of_def src_of_def)

lemma entries_learned:
  assumes "fdb_inv t" and "me_iface ` set (entries t) \<subseteq> S" and "Some ifc \<in> S"
  shows "me_iface ` set (entries (if lookup_port t mac = None then insert_mac_port t mac (Some ifc) now else t)) \<subseteq> S"
  using assms by (auto simp: entries_insert)

lemma handle_packet_refines:
  assumes wf: "sw_wf sw" and ing: "ifc \<in> set (iface_list (sw_inst sw))"
    and len: "14 \<le> length p" "n \<le> length p"
  shows "\<exists>sw'. handle_packet sendto now (Some ifc) p n sw = Inr sw' \<and> sw_wf sw'
    \<and> sw_inst sw' = sw_inst sw
    \<and> lookup_port (sw_fdb sw') = ls_learn (lookup_port (sw_fdb sw)) ifc (src_of p)
    \<and> tx_events (sw_out sw') = tx_events (sw_out sw)
        @ map (tx_of p n) (ls_ports (iface_list (sw_inst sw)) (lookup_port (sw_fdb sw)) ifc (dst_of p))"
proof -
  let ?t = "sw_fdb sw" and ?ifs = "iface_list (sw_inst sw)"
  let ?t' = "if lookup_port ?t (src_of p) = None then insert_mac_port ?t (src_of p) (Some ifc) now else ?t"
  have inv: "fdb_inv ?t" and sub: "me_iface ` set (entries ?t) \<subseteq> Some ` set ?ifs"
    using wf by (auto simp: sw_wf_def)
  obtain out' where out': "(if lookup_port ?t (dst_of p) \<noteq> None
      then iface_send_packet sendto (lookup_port ?t (dst_of p)) p n (sw_out sw)
      else broadcast_packet sendto ?ifs (Some ifc) p n (sw_out sw)) = Inr out'"
    "tx_events out' = tx_events (sw_out sw) @ map (tx_of p n) (ls_ports ?ifs (lookup_port ?t) ifc (dst_of p))"
  proof (cases "lookup_port ?t (dst_of p)")
    case None
    then show thesis
      using that broadcast_packet_tx [OF len, of sendto ?ifs ifc "sw_out sw"] by (auto simp: ls_ports_def)
  next
    case (Some tx)
    then show thesis
      using that iface_send_packet_ok [OF len, of sendto tx "sw_out sw"] by (auto simp: ls_ports_def)
  qed
  have run: "handle_packet sendto now (Some ifc) p n sw = Inr (sw\<lparr>sw_out := out', sw_fdb := ?t'\<rparr>)"
    using out'(1) len by (simp add: handle_packet_def ether_ok Let_def)
  have "fdb_inv ?t'" using inv by (simp add: fdb_inv_insert)
  moreover have "me_iface ` set (entries ?t') \<subseteq> Some ` set ?ifs"
    by (rule entries_learned [OF inv sub]) (simp add: ing)
  ultimately have "sw_wf (sw\<lparr>sw_out := out', sw_fdb := ?t'\<rparr>)"
    using wf by (auto simp: sw_wf_def simp del: if_image_distrib)
  moreover have "lookup_port ?t' = ls_learn (lookup_port ?t) ifc (src_of p)"
    by (simp add: ls_learn_def lookup_insert [OF inv])
  ultimately show ?thesis using run out'(2) by simp
qed

section \<open>The receive loop\<close>

lemma ls_learn_le: "m \<subseteq>\<^sub>m ls_learn m i a"
  by (auto simp: ls_learn_def map_le_def)

text \<open>What one descriptor does to the switch: it never fails, and what was learned stays.\<close>

definition sw_grows :: "switch \<Rightarrow> switch \<Rightarrow> bool" where
  "sw_grows sw sw' \<longleftrightarrow> sw_wf sw' \<and> sw_inst sw' = sw_inst sw
     \<and> lookup_port (sw_fdb sw) \<subseteq>\<^sub>m lookup_port (sw_fdb sw')"

lemma sw_grows_trans: "sw_grows a b \<Longrightarrow> sw_grows b c \<Longrightarrow> sw_grows a c"
  by (auto simp: sw_grows_def intro: map_le_trans)

lemma rx_step_ok:
  assumes wf: "sw_wf sw" and fd: "fst fr \<in> set (fds (sw_inst sw))"
  shows "\<exists>sw'. rx_step sendto fr sw = Inr sw' \<and> sw_grows sw sw'"
proof (cases "snd fr")
  case (Received data outgoing now)
  let ?n = "recv_len data"
  let ?sw = "sw\<lparr>sw_buf := recv_into (sw_buf sw) data\<rparr>"
  have wf': "sw_wf ?sw" using wf by (simp add: sw_wf_def length_recv_into)
  have len: "14 \<le> length (sw_buf ?sw)" "?n \<le> length (sw_buf ?sw)"
    using wf' by (auto simp: sw_wf_def ETH_FRAME_LEN_def recv_len_def)
  have "\<exists>sw'. (if ?n = 0 then Inr ?sw else if outgoing then Inr ?sw
      else handle_packet sendto now (fd_to_iface (iface_list (sw_inst sw)) (fst fr)) (sw_buf ?sw) ?n ?sw)
      = Inr sw' \<and> sw_grows ?sw sw'"
  proof (cases "?n = 0 \<or> outgoing")
    case True
    then show ?thesis using wf' by (auto simp: sw_grows_def)
  next
    case False
    obtain ifc where ifc: "ifc \<in> set (iface_list (sw_inst sw))"
      "fd_to_iface (iface_list (sw_inst sw)) (fst fr) = Some ifc"
      using fd fd_to_iface_known wf by (metis sw_wf_def)
    obtain sw' where "handle_packet sendto now (Some ifc) (sw_buf ?sw) ?n ?sw = Inr sw'" "sw_wf sw'"
      "sw_inst sw' = sw_inst ?sw"
      "lookup_port (sw_fdb sw') = ls_learn (lookup_port (sw_fdb ?sw)) ifc (src_of (sw_buf ?sw))"
      using handle_packet_refines [OF wf' _ len, of ifc sendto now] ifc(1) by auto
    then show ?thesis using False ifc(2) by (auto simp: sw_grows_def ls_learn_le)
  qed
  then show ?thesis using Received by (cases fr) (auto simp: rx_step_def Let_def sw_grows_def)
qed (use wf in \<open>cases fr; auto simp: rx_step_def sw_grows_def\<close>)+

lemma rx_steps_ok:
  "sw_wf sw \<Longrightarrow> set (map fst frs) \<subseteq> set (fds (sw_inst sw)) \<Longrightarrow>
     \<exists>sw'. fold_r (rx_step sendto) frs sw = Inr sw' \<and> sw_grows sw sw'"
proof (induction frs arbitrary: sw)
  case Nil
  then show ?case by (simp add: sw_grows_def)
next
  case (Cons fr frs)
  obtain sw1 where sw1: "rx_step sendto fr sw = Inr sw1" "sw_grows sw sw1"
    using rx_step_ok [OF Cons.prems(1), of fr sendto] Cons.prems(2) by auto
  with Cons.IH [of sw1] Cons.prems(2) obtain sw' where
    "fold_r (rx_step sendto) frs sw1 = Inr sw'" "sw_grows sw1 sw'"
    by (auto simp: sw_grows_def)
  with sw1 show ?case by (auto intro: sw_grows_trans)
qed

lemma ustack_run_ok:
  "sw_wf sw \<Longrightarrow> \<exists>sw'. ustack_run sendto ps sw = Inr sw' \<and> sw_grows sw sw'"
proof (induction sendto ps sw rule: ustack_run.induct)
  case (4 sendto rs ps sw)
  have "set (map fst (zip (fds (sw_inst sw)) rs)) \<subseteq> set (fds (sw_inst sw))"
    by (auto dest: set_zip_leftD)
  from rx_steps_ok [OF "4.prems" this, of sendto] obtain sw1 where
    sw1: "fold_r (rx_step sendto) (zip (fds (sw_inst sw)) rs) sw = Inr sw1" "sw_grows sw sw1" by blast
  with 4 obtain sw' where "ustack_run sendto ps sw1 = Inr sw'" "sw_grows sw1 sw'"
    by (auto simp: sw_grows_def)
  with sw1 show ?case by (auto intro: sw_grows_trans)
qed (auto simp: sw_grows_def)

section \<open>Main loop and sweeping thread together\<close>

text \<open>
  The two threads of the switch, one step at a time: a descriptor is served, or the sweeping
  thread runs one round. (The C code takes no lock around these; the relation assumes that the
  two do not overlap.)
\<close>

inductive sw_step :: "sendto_fn \<Rightarrow> switch \<Rightarrow> switch \<Rightarrow> bool" for sendto where
  rx: "fd \<in> set (fds (sw_inst sw)) \<Longrightarrow> rx_step sendto (fd, r) sw = Inr sw' \<Longrightarrow> sw_step sendto sw sw'"
| sweep: "sweeping_round now (sw_fdb sw) = Inr (n, t) \<Longrightarrow> sw_step sendto sw (sw\<lparr>sw_fdb := t\<rparr>)"

inductive sw_reach :: "sendto_fn \<Rightarrow> switch \<Rightarrow> bool" for sendto where
  start: "init_ustack os addrs g = Inr sw \<Longrightarrow> sw_reach sendto sw"
| step: "sw_reach sendto sw \<Longrightarrow> sw_step sendto sw sw' \<Longrightarrow> sw_reach sendto sw'"

lemma sweeping_round_ok:
  assumes "fdb_inv t"
  shows "\<exists>n t'. sweeping_round now t = Inr (n, t') \<and> fdb_inv t' \<and> set (entries t') \<subseteq> set (entries t)"
  by (rule sweep_aged_cases [OF assms, of now]) (use assms in \<open>auto simp: sweeping_round_def\<close>)

lemma sw_step_wf: "sw_step sendto sw sw' \<Longrightarrow> sw_wf sw \<Longrightarrow> sw_wf sw'"
proof (induction rule: sw_step.induct)
  case (rx fd sw r sw')
  then show ?case using rx_step_ok [of sw "(fd, r)" sendto] by (auto simp: sw_grows_def)
next
  case (sweep now sw n t)
  then have "fdb_inv (sw_fdb sw)" by (simp add: sw_wf_def)
  from sweeping_round_ok [OF this, of now] sweep have "fdb_inv t" "set (entries t) \<subseteq> set (entries (sw_fdb sw))"
    by auto
  then show ?case using sweep.prems by (auto simp: sw_wf_def)
qed

lemma sw_reach_wf: "sw_reach sendto sw \<Longrightarrow> sw_wf sw"
  by (induction rule: sw_reach.induct) (auto intro: init_ustack_wf sw_step_wf)

section \<open>A small network for the witnesses\<close>

definition demo_if1 :: iface_info_t where
  "demo_if1 = \<lparr>if_fd = 3, if_index = 1, if_mac = [0, 0, 0, 0, 0, 1], if_name = ''s1-eth0''\<rparr>"

definition demo_if2 :: iface_info_t where
  "demo_if2 = \<lparr>if_fd = 4, if_index = 2, if_mac = [0, 0, 0, 0, 0, 2], if_name = ''s1-eth1''\<rparr>"

definition demo_switch :: switch where
  "demo_switch = \<lparr>sw_inst = \<lparr>iface_list = [demo_if1, demo_if2], nifs = 2, fds = [3, 4]\<rparr>,
     sw_fdb = init_mac_port_table, sw_buf = replicate ETH_FRAME_LEN 0, sw_out = []\<rparr>"

definition demo_os :: "string \<Rightarrow> os_dev" where
  "demo_os nm = \<lparr>os_socket = if nm = ''s1-eth0'' then 3 else 4, os_ifindex_ok = True, os_bind_ok = True,
     os_hwaddr_ok = True, os_ifindex = if nm = ''s1-eth0'' then 1 else 2,
     os_hwaddr = [0, 0, 0, 0, 0, if nm = ''s1-eth0'' then 1 else 2]\<rparr>"

definition demo_addrs :: "ifaddrs list" where
  "demo_addrs = [\<lparr>ifa_name = ''lo'', ifa_family = Some AF_PACKET\<rparr>,
     \<lparr>ifa_name = ''s1-eth0'', ifa_family = Some AF_PACKET\<rparr>, \<lparr>ifa_name = ''s1-eth0'', ifa_family = Some 2\<rparr>,
     \<lparr>ifa_name = ''s1-eth1'', ifa_family = Some AF_PACKET\<rparr>]"

text \<open>A frame to \<open>00:..:bb\<close> from \<open>00:..:aa\<close>, and one in the other direction.\<close>

definition demo_frame :: "u8 \<Rightarrow> u8 \<Rightarrow> bytes" where
  "demo_frame d s = [0, 0, 0, 0, 0, d, 0, 0, 0, 0, 0, s, 8, 0, 69]"

lemma demo_init: "init_ustack demo_os demo_addrs [] = Inr demo_switch"
  by (simp add: init_ustack_def init_all_ifaces_def find_available_ifaces_def demo_addrs_def AF_PACKET_def
      dev_names_def Let_def read_iface_info_def open_device_def demo_os_def new_iface_def
      demo_switch_def demo_if1_def demo_if2_def)

lemma demo_wf: "sw_wf demo_switch"
  by (rule init_ustack_wf [OF demo_init])

lemma demo_fdb_empty: "lookup_port (sw_fdb demo_switch) mac = None"
  by (simp add: demo_switch_def lookup_port_eq)

section \<open>The program\<close>

text \<open>\<open>main\<close>: only a user who is root in one sense gets past the check.\<close>

definition switch_main ::
  "int \<Rightarrow> int \<Rightarrow> (string \<Rightarrow> os_dev) \<Rightarrow> ifaddrs list \<Rightarrow> bytes \<Rightarrow> sendto_fn \<Rightarrow> poll list \<Rightarrow> switch result" where
  "switch_main uid euid os addrs stack_garbage sendto ps =
     (if uid \<noteq> 0 \<and> euid \<noteq> 0 then Inl (Exit 1)
      else bind_r (init_ustack os addrs stack_garbage) (ustack_run sendto ps))"

lemma scan_addrs_cases:
  "scan_addrs addrs inst =
     (if list_all (\<lambda>n. length n < 16) (eth_names addrs)
      then Inr (inst\<lparr>iface_list := iface_list inst @ map new_iface (eth_names addrs), nifs := nifs inst + length (eth_names addrs)\<rparr>)
      else Inl OutOfBounds)"
  by (induction addrs arbitrary: inst) (simp_all add: eth_names_def)

lemma init_ustack_cases:
  "if \<not> list_all (\<lambda>n. length n < 16) (eth_names addrs) then init_ustack os addrs g = Inl OutOfBounds
   else if eth_names addrs = [] then init_ustack os addrs g = Inl (Exit 1)
   else if 1024 \<le> length (concat (map ((#) (CHR '' '')) (eth_names addrs))) then init_ustack os addrs g = Inl OutOfBounds
   else \<exists>sw. init_ustack os addrs g = Inr sw \<and> map if_name (iface_list (sw_inst sw)) = eth_names addrs"
proof -
  have names: "if_name (new_iface n) = n" "if_name (snd (read_iface_info os i)) = if_name i" for n i
    by (simp_all add: new_iface_def read_iface_info_def Let_def)
  then show ?thesis
    by (auto simp: init_ustack_def init_all_ifaces_def find_available_ifaces_def scan_addrs_cases dev_names_def Let_def o_def names)
qed

text \<open>From the state \<open>init_ustack\<close> builds, every sequence of poll results is handled.\<close>

lemma ustack_run_safe:
  assumes "init_ustack os addrs g = Inr sw"
  shows "\<exists>sw'. ustack_run sendto ps sw = Inr sw' \<and> sw_wf sw'"
  using ustack_run_ok [OF init_ustack_wf [OF assms], of sendto ps] by (auto simp: sw_grows_def)

section \<open>Properties\<close>

text \<open>C5. The frame handler implements the abstract learning switch: on a well-formed switch it does
  not fail, it sends the frame to exactly the ports the specification names (one port for a known
  destination, every port but the ingress port otherwise), and it binds exactly an unknown source
  to the ingress port.\<close>

theorem handle_packet_learning_switch:
  assumes "sw_wf sw" and "ifc \<in> set (iface_list (sw_inst sw))"
    and "14 \<le> length p" and "n \<le> length p"
  shows "\<exists>sw'. handle_packet sendto now (Some ifc) p n sw = Inr sw' \<and> sw_wf sw'
    \<and> lookup_port (sw_fdb sw') = ls_learn (lookup_port (sw_fdb sw)) ifc (src_of p)
    \<and> tx_events (sw_out sw') = tx_events (sw_out sw)
        @ map (tx_of p n) (ls_ports (iface_list (sw_inst sw)) (lookup_port (sw_fdb sw)) ifc (dst_of p))"
  using handle_packet_refines [OF assms] by blast

theorem handle_packet_learning_switch_witness:
  "\<exists>sw'. handle_packet (\<lambda>_ _ _. 0) 0 (Some demo_if1) (demo_frame 187 170) 15 demo_switch = Inr sw'
    \<and> lookup_port (sw_fdb sw') [0, 0, 0, 0, 0, 170] = Some demo_if1
    \<and> tx_events (sw_out sw') = [(4, 2, demo_frame 187 170)]"
proof -
  have "demo_if1 \<in> set (iface_list (sw_inst demo_switch))" by (simp add: demo_switch_def)
  from handle_packet_learning_switch [OF demo_wf this, of "demo_frame 187 170" 15 "\<lambda>_ _ _. 0" 0]
  show ?thesis
    by (auto simp: demo_frame_def demo_fdb_empty ls_learn_def ls_ports_def src_of_def tx_of_def)
      (auto simp: tx_of_def demo_switch_def demo_if1_def demo_if2_def)
qed

text \<open>C19. The whole program: all ways it can end are those of its start. It ends with \<open>exit (1)\<close> when the user is not root or
  there is no Ethernet device, it overruns a buffer when a device name has 16 or more characters or
  the names do not fit \<open>dev_names\<close>; otherwise, whatever frames arrive, it never follows a null
  interface and never touches memory outside the frame buffer.\<close>

theorem switch_main_runs:
  "if uid \<noteq> 0 \<and> euid \<noteq> 0 then switch_main uid euid os addrs g sendto ps = Inl (Exit 1)
   else if \<not> list_all (\<lambda>n. length n < 16) (eth_names addrs) then switch_main uid euid os addrs g sendto ps = Inl OutOfBounds
   else if eth_names addrs = [] then switch_main uid euid os addrs g sendto ps = Inl (Exit 1)
   else if 1024 \<le> length (concat (map ((#) (CHR '' '')) (eth_names addrs)))
     then switch_main uid euid os addrs g sendto ps = Inl OutOfBounds
   else \<exists>sw. switch_main uid euid os addrs g sendto ps = Inr sw \<and> sw_wf sw"
proof (cases "init_ustack os addrs g")
  case (Inl e)
  then show ?thesis using init_ustack_cases [of addrs os g] by (auto simp: switch_main_def split: if_splits)
next
  case (Inr sw)
  then obtain sw' where "ustack_run sendto ps sw = Inr sw'" "sw_wf sw'" using ustack_run_safe by blast
  then show ?thesis using Inr init_ustack_cases [of addrs os g] by (auto simp: switch_main_def split: if_splits)
qed

text \<open>In every state that the receive loop and the sweeping thread can reach together, the
  forwarding table keeps its invariant: all entries are in bucket 0, no address has two entries,
  and every entry points to an interface of the switch.\<close>

theorem reachable_fdb_invariant:
  assumes "sw_reach sendto sw"
  shows "fdb_inv (sw_fdb sw)
    \<and> (\<forall>e \<in> set (entries (sw_fdb sw)). me_iface e \<in> Some ` set (iface_list (sw_inst sw)))"
  using sw_reach_wf [OF assms] by (simp add: sw_wf_def)

theorem reachable_fdb_invariant_witness: "fdb_inv (sw_fdb demo_switch)"
  using reachable_fdb_invariant [OF sw_reach.start [OF demo_init]] by blast

text \<open>What the switch is for: once a frame from an unknown station has come in on an interface,
  a later frame to that station is sent on that interface only, whatever frames were handled in
  between.\<close>

theorem learned_station_unicast:
  assumes "sw_wf sw" and "ifc \<in> set (iface_list (sw_inst sw))"
    and "14 \<le> length p" and "n \<le> length p" and "lookup_port (sw_fdb sw) (src_of p) = None"
    and "handle_packet sendto now (Some ifc) p n sw = Inr sw1"
    and "ustack_run sendto ps sw1 = Inr sw2"
    and "ifc2 \<in> set (iface_list (sw_inst sw))" and "14 \<le> length q" and "m \<le> length q"
    and "dst_of q = src_of p"
  shows "\<exists>sw3. handle_packet sendto later (Some ifc2) q m sw2 = Inr sw3
    \<and> tx_events (sw_out sw3) = tx_events (sw_out sw2) @ [tx_of q m ifc]"
proof -
  have 1: "sw_wf sw1" "sw_inst sw1 = sw_inst sw" "lookup_port (sw_fdb sw1) (src_of p) = Some ifc"
    using handle_packet_refines [OF assms(1-4), of sendto now] assms(5,6) by (auto simp: ls_learn_def)
  then have "sw_grows sw1 sw2" using ustack_run_ok [OF 1(1), of sendto ps] assms(7) by simp
  then have 2: "sw_wf sw2" "sw_inst sw2 = sw_inst sw" "lookup_port (sw_fdb sw2) (dst_of q) = Some ifc"
    using 1 assms(11) by (auto simp: sw_grows_def map_le_def dom_def)
  then show ?thesis
    using handle_packet_refines [OF 2(1) _ assms(9,10), of ifc2 sendto later] assms(8)
    by (auto simp: ls_ports_def)
qed

theorem learned_station_unicast_witness:
  "\<exists>sw1 sw3. handle_packet (\<lambda>_ _ _. 0) 0 (Some demo_if1) (demo_frame 187 170) 15 demo_switch = Inr sw1
    \<and> handle_packet (\<lambda>_ _ _. 0) 5 (Some demo_if2) (demo_frame 170 187) 15 sw1 = Inr sw3
    \<and> tx_events (sw_out sw3) = tx_events (sw_out sw1) @ [(3, 1, demo_frame 170 187)]"
proof -
  have ifs: "demo_if1 \<in> set (iface_list (sw_inst demo_switch))" "demo_if2 \<in> set (iface_list (sw_inst demo_switch))"
    by (simp_all add: demo_switch_def)
  obtain sw1 where "handle_packet (\<lambda>_ _ _. 0) 0 (Some demo_if1) (demo_frame 187 170) 15 demo_switch = Inr sw1"
    using handle_packet_refines [OF demo_wf ifs(1), of "demo_frame 187 170" 15] by (auto simp: demo_frame_def)
  with learned_station_unicast [OF demo_wf ifs(1) _ _ demo_fdb_empty this, of "[]" sw1 demo_if2
      "demo_frame 170 187" 15 5] ifs(2)
  show ?thesis by (auto simp: demo_frame_def dst_of_def src_of_def tx_of_def demo_if1_def)
qed

text \<open>A known station is never relearned: a frame whose source address is in the table leaves the
  table exactly as it is, also when it came in on another interface, and does not refresh the
  entry's time stamp. (The comment of \<open>visited\<close> in \<^verbatim>\<open>mac.h\<close> says it is the time of the last
  visit.)\<close>

theorem known_station_not_refreshed:
  assumes "lookup_port (sw_fdb sw) (src_of p) = Some old" and "14 \<le> length p"
    and "handle_packet sendto now iface p n sw = Inr sw'"
  shows "sw_fdb sw' = sw_fdb sw"
  using assms by (auto simp: handle_packet_def ether_ok Let_def bind_r_eq_Inr)

theorem known_station_not_refreshed_witness:
  "\<exists>sw1 sw2. handle_packet (\<lambda>_ _ _. 0) 0 (Some demo_if1) (demo_frame 187 170) 15 demo_switch = Inr sw1
    \<and> handle_packet (\<lambda>_ _ _. 0) 20 (Some demo_if2) (demo_frame 187 170) 15 sw1 = Inr sw2
    \<and> sw_fdb sw2 = sw_fdb sw1"
proof -
  have ifs: "demo_if1 \<in> set (iface_list (sw_inst demo_switch))" "demo_if2 \<in> set (iface_list (sw_inst demo_switch))"
    by (simp_all add: demo_switch_def)
  have len: "14 \<le> length (demo_frame 187 170)" "15 \<le> length (demo_frame 187 170)"
    by (simp_all add: demo_frame_def)
  obtain sw1 where 1: "handle_packet (\<lambda>_ _ _. 0) 0 (Some demo_if1) (demo_frame 187 170) 15 demo_switch = Inr sw1"
    "sw_wf sw1" "sw_inst sw1 = sw_inst demo_switch"
    "lookup_port (sw_fdb sw1) (src_of (demo_frame 187 170)) = Some demo_if1"
    using handle_packet_refines [OF demo_wf ifs(1) len, of "\<lambda>_ _ _. 0" 0] by (auto simp: ls_learn_def demo_fdb_empty)
  obtain sw2 where 2: "handle_packet (\<lambda>_ _ _. 0) 20 (Some demo_if2) (demo_frame 187 170) 15 sw1 = Inr sw2"
    using handle_packet_refines [OF 1(2) _ len, of demo_if2 "\<lambda>_ _ _. 0" 20] ifs(2) 1(3) by auto
  show ?thesis using 1(1) 2 known_station_not_refreshed [OF 1(4) len(1) 2] by blast
qed

end
