(* ===== verification/SwitchHeap.thy ===== *)
theory SwitchHeap
  imports MacHeap SwitchMain
begin

text \<open>
  The learning switch with its table in memory: \<^verbatim>\<open>init_ustack\<close>, \<^verbatim>\<open>handle_packet\<close>, the receive
  loop's body and the sweeping thread's round over the linked lists of \<^verbatim>\<open>MacHeap\<close>, and the two threads
  taking turns. The theory joins the three levels: memory, the lists of \<^verbatim>\<open>SwitchMain\<close>, and a map from
  stations to interfaces and times that learns and forgets.
\<close>

section \<open>The program on memory\<close>

record switch_mem =
  sm_inst :: ustack_t
  sm_fdb :: fdb_mem
  sm_buf :: bytes
  sm_out :: "event list"

definition init_ustack_p :: "(string \<Rightarrow> os_dev) \<Rightarrow> ifaddrs list \<Rightarrow> bytes \<Rightarrow> switch_mem result" where
  "init_ustack_p os addrs stack_garbage =
     bind_r (init_all_ifaces os addrs \<lparr>iface_list = [], nifs = 0, fds = []\<rparr>) (\<lambda>inst.
     bind_r init_mac_port_table_p (\<lambda>fdb.
       Inr \<lparr>sm_inst = inst, sm_fdb = fdb,
            sm_buf = take ETH_FRAME_LEN (stack_garbage @ replicate ETH_FRAME_LEN 0), sm_out = []\<rparr>))"

definition handle_packet_p ::
  "(heap \<Rightarrow> addr) \<Rightarrow> sendto_fn \<Rightarrow> time_t \<Rightarrow> iface_ptr \<Rightarrow> bytes \<Rightarrow> nat \<Rightarrow> switch_mem \<Rightarrow> switch_mem result option" where
  "handle_packet_p malloc sendto now iface packet len sm =
     bind_p (Some (ether_dhost packet)) (\<lambda>dhost.
     bind_p (lookup_port_p (sm_fdb sm) dhost) (\<lambda>tx_iface.
     bind_p (Some (if tx_iface \<noteq> None
             then iface_send_packet sendto tx_iface packet len (sm_out sm)
             else broadcast_packet sendto (iface_list (sm_inst sm)) iface packet len (sm_out sm))) (\<lambda>out.
     bind_p (Some (ether_shost packet)) (\<lambda>shost.
     bind_p (lookup_port_p (sm_fdb sm) shost) (\<lambda>known.
       if known = None
       then bind_p (Some (insert_mac_port_p malloc (sm_fdb sm) shost iface now)) (\<lambda>fdb.
              Some (Inr (sm\<lparr>sm_out := out, sm_fdb := fdb\<rparr>)))
       else Some (Inr (sm\<lparr>sm_out := out\<rparr>)))))))"

definition rx_step_p :: "(heap \<Rightarrow> addr) \<Rightarrow> sendto_fn \<Rightarrow> int \<times> recv \<Rightarrow> switch_mem \<Rightarrow> switch_mem result option" where
  "rx_step_p malloc sendto fr sm = (case fr of (fd, r) \<Rightarrow> (case r of
       NoInput \<Rightarrow> Some (Inr sm)
     | RecvFailed \<Rightarrow> Some (Inr sm)
     | Received data outgoing now \<Rightarrow>
         let len = recv_len data;
             sm = sm\<lparr>sm_buf := recv_into (sm_buf sm) data\<rparr>
         in if len = 0 then Some (Inr sm)
            else if outgoing then Some (Inr sm)
            else handle_packet_p malloc sendto now (fd_to_iface (iface_list (sm_inst sm)) fd) (sm_buf sm) len sm))"

definition sweeping_round_p :: "time_t \<Rightarrow> fdb_mem \<Rightarrow> (int option \<times> fdb_mem) result option" where
  "sweeping_round_p now fdb =
     bind_p (sweep_aged_mac_port_entry_p now fdb) (\<lambda>(n, fdb). Some (Inr (if n > 0 then Some n else None, fdb)))"

text \<open>The two threads in turns: the main thread serves a descriptor, or the sweeping thread makes a round.\<close>

datatype sw_round = Rx int recv | Sweep time_t

fun sw_round_p :: "(heap \<Rightarrow> addr) \<Rightarrow> sendto_fn \<Rightarrow> sw_round \<Rightarrow> switch_mem \<Rightarrow> switch_mem result option" where
  "sw_round_p malloc sendto (Rx fd r) sm = rx_step_p malloc sendto (fd, r) sm"
| "sw_round_p malloc sendto (Sweep now) sm =
     bind_p (sweeping_round_p now (sm_fdb sm)) (\<lambda>(n, fdb). Some (Inr (sm\<lparr>sm_fdb := fdb\<rparr>)))"

fun sw_rounds_p :: "(heap \<Rightarrow> addr) \<Rightarrow> sendto_fn \<Rightarrow> sw_round list \<Rightarrow> switch_mem \<Rightarrow> switch_mem result option" where
  "sw_rounds_p malloc sendto [] sm = Some (Inr sm)"
| "sw_rounds_p malloc sendto (r # rs) sm = bind_p (sw_round_p malloc sendto r sm) (sw_rounds_p malloc sendto rs)"

section \<open>The specification\<close>

text \<open>
  A learning switch that forgets: a map from stations to the interface and the time they were first
  seen at. A frame goes to the interface of its destination or to all but its own; an unknown source is bound; a round of the
  sweeping thread forgets one station that is 30 seconds old, if there is one.
\<close>

definition ls_see :: "(bytes \<rightharpoonup> iface_info_t \<times> time_t) \<Rightarrow> iface_info_t \<Rightarrow> bytes \<Rightarrow> time_t \<Rightarrow> (bytes \<rightharpoonup> iface_info_t \<times> time_t)" where
  "ls_see m ingress src now = (if m src = None then m(src \<mapsto> (ingress, now)) else m)"

definition ls_iface :: "(bytes \<rightharpoonup> iface_info_t \<times> time_t) \<Rightarrow> (bytes \<rightharpoonup> iface_info_t)" where
  "ls_iface m = (\<lambda>a. map_option fst (m a))"

fun no_frame :: "recv \<Rightarrow> bool" where
  "no_frame (Received data outgoing now) = outgoing"
| "no_frame r = True"

definition too_old :: "time_t \<Rightarrow> time_t \<Rightarrow> bool" where
  "too_old now t \<longleftrightarrow> MAC_PORT_TIMEOUT \<le> c_int (now - t)"

inductive ls_run :: "iface_info_t list \<Rightarrow> (bytes \<rightharpoonup> iface_info_t \<times> time_t) \<Rightarrow> sw_round list
    \<Rightarrow> (bytes \<rightharpoonup> iface_info_t \<times> time_t) \<Rightarrow> (int \<times> int \<times> bytes) list \<Rightarrow> bool" for ifs where
  ls_done: "ls_run ifs m [] m []"
| ls_quiet: "no_frame r \<Longrightarrow> ls_run ifs m rs m' out \<Longrightarrow> ls_run ifs m (Rx fd r # rs) m' out"
| ls_frame: "fd_to_iface ifs fd = Some ingress \<Longrightarrow> ls_run ifs (ls_see m ingress (src_of data) now) rs m' out \<Longrightarrow>
    ls_run ifs m (Rx fd (Received data False now) # rs) m'
      (map (tx_of data (recv_len data)) (ls_ports ifs (ls_iface m) ingress (dst_of data)) @ out)"
| ls_forget: "m mac = Some (ifc, t) \<Longrightarrow> too_old now t \<Longrightarrow> ls_run ifs (m(mac := None)) rs m' out \<Longrightarrow>
    ls_run ifs m (Sweep now # rs) m' out"
| ls_keep: "\<forall>(ifc, t) \<in> ran m. \<not> too_old now t \<Longrightarrow> ls_run ifs m rs m' out \<Longrightarrow> ls_run ifs m (Sweep now # rs) m' out"

inductive_simps ls_run_simps:
  "ls_run ifs m [] m' out"
  "ls_run ifs m (Rx fd r # rs) m' out"
  "ls_run ifs m (Sweep now # rs) m' out"

section \<open>Memory and lists\<close>

definition sw_sim :: "switch_mem \<Rightarrow> switch \<Rightarrow> bool" where
  "sw_sim sm sw \<longleftrightarrow> in_memory (fst (sm_fdb sm)) (snd (sm_fdb sm)) {} (sw_fdb sw) \<and> length (sw_fdb sw) = HASH_8BITS
     \<and> sm_inst sm = sw_inst sw \<and> sm_buf sm = sw_buf sw \<and> sm_out sm = sw_out sw"

definition sw_ok :: "switch_mem result option \<Rightarrow> switch result \<Rightarrow> bool" where
  "sw_ok r m \<longleftrightarrow> (case m of Inl e \<Rightarrow> r = Some (Inl e) | Inr sw \<Rightarrow> \<exists>sm. r = Some (Inr sm) \<and> sw_sim sm sw)"

lemma lookup_port_p_sim: "sw_sim sm sw \<Longrightarrow> lookup_port_p (sm_fdb sm) mac = Some (Inr (lookup_port (sw_fdb sw) mac))"
  using lookup_port_p_ok [of "fst (sm_fdb sm)" "snd (sm_fdb sm)" "sw_fdb sw" mac] by (simp add: sw_sim_def)

lemma sw_ok_bind: "(\<And>x. m = Inr x \<Longrightarrow> sw_ok (f x) (g x)) \<Longrightarrow> sw_ok (bind_p (Some m) f) (bind_r m g)"
  by (cases m) (auto simp: sw_ok_def)

lemma handle_packet_p_ok:
  assumes "malloc_fresh malloc" and sim: "sw_sim sm sw"
  shows "sw_ok (handle_packet_p malloc sendto now iface packet len sm) (handle_packet sendto now iface packet len sw)"
proof -
  have f: "sm_out sm = sw_out sw" "sm_inst sm = sw_inst sw" using sim by (simp_all add: sw_sim_def)
  have ins: "\<exists>fdb. insert_mac_port_p malloc (sm_fdb sm) mac iface now = Inr fdb
      \<and> sw_sim (sm\<lparr>sm_out := out, sm_fdb := fdb\<rparr>) (sw\<lparr>sw_out := out, sw_fdb := insert_mac_port (sw_fdb sw) mac iface now\<rparr>)" for mac out
  proof -
    have mem: "in_memory (fst (sm_fdb sm)) (snd (sm_fdb sm)) {} (sw_fdb sw)" "length (sw_fdb sw) = HASH_8BITS"
      using sim by (simp_all add: sw_sim_def)
    obtain h d where "insert_mac_port_p malloc (sm_fdb sm) mac iface now = Inr (h, d)"
      "in_memory h d {} (insert_mac_port (sw_fdb sw) mac iface now)"
      using insert_mac_port_p_ok [OF assms(1) mem, of mac iface now] by auto
    then show ?thesis using sim by (auto simp: sw_sim_def insert_mac_port_def Let_def)
  qed
  show ?thesis
    unfolding handle_packet_p_def handle_packet_def lookup_port_p_sim [OF sim] f bind_p_simps(3) Let_def
  proof (intro sw_ok_bind)
    fix dhost out shost
    show "sw_ok (if lookup_port (sw_fdb sw) shost = None
         then bind_p (Some (insert_mac_port_p malloc (sm_fdb sm) shost iface now)) (\<lambda>fdb. Some (Inr (sm\<lparr>sm_out := out, sm_fdb := fdb\<rparr>)))
         else Some (Inr (sm\<lparr>sm_out := out\<rparr>)))
      (Inr (sw\<lparr>sw_out := out, sw_fdb := if lookup_port (sw_fdb sw) shost = None
         then insert_mac_port (sw_fdb sw) shost iface now else sw_fdb sw\<rparr>))"
      using ins [of shost out] sim by (auto simp: sw_ok_def) (simp add: sw_sim_def)
  qed
qed

lemma rx_step_p_ok:
  assumes "malloc_fresh malloc" and sim: "sw_sim sm sw"
  shows "sw_ok (rx_step_p malloc sendto fr sm) (rx_step sendto fr sw)"
proof -
  have "sw_sim (sm\<lparr>sm_buf := b\<rparr>) (sw\<lparr>sw_buf := b\<rparr>)" for b using sim by (simp add: sw_sim_def)
  moreover have "sm_buf sm = sw_buf sw" "sm_inst sm = sw_inst sw" using sim by (simp_all add: sw_sim_def)
  moreover have "sw_ok (Some (Inr sm)) (Inr sw)" if "sw_sim sm sw" for sm sw using that by (simp add: sw_ok_def)
  ultimately show ?thesis using sim handle_packet_p_ok [OF assms(1)]
    by (auto simp: rx_step_p_def rx_step_def Let_def split: prod.split recv.split)
qed

lemma sweeping_round_p_ok:
  assumes sim: "sw_sim sm sw"
  shows "case sweeping_round now (sw_fdb sw) of
      Inl e \<Rightarrow> sweeping_round_p now (sm_fdb sm) = Some (Inl e)
    | Inr (n, t) \<Rightarrow> \<exists>fdb. sweeping_round_p now (sm_fdb sm) = Some (Inr (n, fdb)) \<and> sw_sim (sm\<lparr>sm_fdb := fdb\<rparr>) (sw\<lparr>sw_fdb := t\<rparr>)"
proof -
  have mem: "in_memory (fst (sm_fdb sm)) (snd (sm_fdb sm)) {} (sw_fdb sw)" "length (sw_fdb sw) = HASH_8BITS"
    using sim by (simp_all add: sw_sim_def)
  show ?thesis
  proof (cases "sweep_aged_mac_port_entry now (sw_fdb sw)")
    case (Inl e)
    then show ?thesis using sweep_aged_mac_port_entry_p_ok [OF mem, of now]
      by (simp add: sweeping_round_def sweeping_round_p_def)
  next
    case (Inr r)
    obtain n t where r: "r = (n, t)" by (cases r)
    then have "length t = HASH_8BITS" using sweep_table_length [of now "sw_fdb sw" n t] Inr mem(2) by simp
    moreover obtain h d where "sweep_aged_mac_port_entry_p now (sm_fdb sm) = Some (Inr (n, h, d))" "in_memory h d {} t"
      using sweep_aged_mac_port_entry_p_ok [OF mem, of now] Inr r by auto
    ultimately show ?thesis using sim Inr r
      by (auto simp: sweeping_round_def sweeping_round_p_def sw_sim_def)
  qed
qed

section \<open>Lists and the specification\<close>

text \<open>The map a table stands for.\<close>

definition fdb_map :: "mac_port_map_t \<Rightarrow> (bytes \<rightharpoonup> iface_info_t \<times> time_t)" where
  "fdb_map t = (\<lambda>mac. map_option (\<lambda>e. (the (me_iface e), me_visited e)) (find (\<lambda>e. me_mac e = mac) (entries t)))"

lemma fdb_map_iface: "fdb_inv t \<Longrightarrow> ls_iface (fdb_map t) = lookup_port t"
proof
  fix mac assume inv: "fdb_inv t"
  show "ls_iface (fdb_map t) mac = lookup_port t mac"
  proof (cases "find (\<lambda>e. me_mac e = mac) (entries t)")
    case (Some e)
    then show ?thesis using fdb_invD(3) [OF inv, of e] by (auto simp: ls_iface_def fdb_map_def lookup_port_eq dest: find_SomeD)
  qed (simp add: ls_iface_def fdb_map_def lookup_port_eq)
qed

lemma fdb_map_see:
  assumes inv: "fdb_inv t"
  shows "fdb_map (if lookup_port t mac = None then insert_mac_port t mac (Some ifc) now else t) = ls_see (fdb_map t) ifc mac now"
proof -
  have "lookup_port t mac = None \<longleftrightarrow> fdb_map t mac = None"
    using fdb_map_iface [OF inv] by (metis ls_iface_def map_option_is_None)
  then show ?thesis
    by (auto simp: ls_see_def fdb_map_def entries_insert [OF inv] find_append fun_eq_iff split: option.split)
qed

lemma fdb_map_forget:
  assumes t: "entries t = xs @ e # ys" "entries t' = xs @ ys" and d: "distinct (map me_mac (entries t))"
  shows "fdb_map t' = (fdb_map t)(me_mac e := None)"
proof
  fix mac
  show "fdb_map t' mac = ((fdb_map t)(me_mac e := None)) mac"
  proof (cases "mac = me_mac e")
    case True
    have "me_mac e \<notin> set (map me_mac (xs @ ys))" using d by (simp add: t(1))
    then have "find (\<lambda>e. me_mac e = mac) (xs @ ys) = None" by (simp add: find_None_iff True image_iff) metis
    then show ?thesis by (simp add: True fdb_map_def t(2))
  next
    case False
    then show ?thesis by (simp add: fdb_map_def t find_append split: option.split)
  qed
qed

lemma fdb_map_entry:
  assumes "fdb_inv t" and "e \<in> set (entries t)" and "me_iface e = Some ifc"
  shows "fdb_map t (me_mac e) = Some (ifc, me_visited e)"
  using assms fdb_invD(2) [OF assms(1)] by (simp add: fdb_map_def find_unique)

lemma fdb_map_ran: "(ifc, v) \<in> ran (fdb_map t) \<Longrightarrow> \<exists>e \<in> set (entries t). me_visited e = v"
  by (auto simp: ran_def fdb_map_def dest!: find_SomeD)

lemma fdb_map_dom:
  assumes "fdb_inv t"
  shows "card (dom (fdb_map t)) = length (entries t)"
proof -
  have "dom (fdb_map t) = set (map me_mac (entries t))"
    by (auto simp: fdb_map_def dom_def find_None_iff)
  then show ?thesis using distinct_card [OF fdb_invD(2) [OF assms]] by simp
qed

text \<open>The rounds of a switch: descriptors it has, frames with a complete Ethernet header.\<close>

fun sw_round_ok :: "int list \<Rightarrow> sw_round \<Rightarrow> bool" where
  "sw_round_ok fs (Rx fd (Received data outgoing now)) \<longleftrightarrow> fd \<in> set fs \<and> 14 \<le> length data"
| "sw_round_ok fs r \<longleftrightarrow> True"

lemma recv_bytes:
  assumes "14 \<le> length data"
  shows "dst_of (recv_into buf data) = dst_of data" "src_of (recv_into buf data) = src_of data"
    "tx_of (recv_into buf data) (recv_len data) = tx_of data (recv_len data)"
  using assms by (auto simp: dst_of_def src_of_def tx_of_def recv_into_def recv_len_def ETH_FRAME_LEN_def take_drop min_def fun_eq_iff)

lemma frame_refines:
  assumes wf: "sw_wf sw" and fd: "fd \<in> set (fds (sw_inst sw))" and len: "14 \<le> length data"
  obtains sw' ingress where "rx_step sendto (fd, Received data False now) sw = Inr sw'" "sw_wf sw'" "sw_inst sw' = sw_inst sw"
    "fd_to_iface (iface_list (sw_inst sw)) fd = Some ingress"
    "fdb_map (sw_fdb sw') = ls_see (fdb_map (sw_fdb sw)) ingress (src_of data) now"
    "tx_events (sw_out sw') = tx_events (sw_out sw) @ map (tx_of data (recv_len data))
       (ls_ports (iface_list (sw_inst sw)) (ls_iface (fdb_map (sw_fdb sw))) ingress (dst_of data))"
proof -
  let ?n = "recv_len data" and ?p = "recv_into (sw_buf sw) data"
  let ?sw = "sw\<lparr>sw_buf := ?p\<rparr>"
  obtain ifc where ifc: "ifc \<in> set (iface_list (sw_inst sw))" "fd_to_iface (iface_list (sw_inst sw)) fd = Some ifc"
    using fd fd_to_iface_known wf by (metis sw_wf_def)
  have inv: "fdb_inv (sw_fdb sw)" using wf by (simp add: sw_wf_def)
  have wf': "sw_wf ?sw" using wf by (simp add: sw_wf_def length_recv_into)
  have b: "14 \<le> length ?p" "?n \<le> length ?p" "0 < ?n" using wf' len by (auto simp: sw_wf_def ETH_FRAME_LEN_def recv_len_def)
  obtain sw' where sw': "handle_packet sendto now (Some ifc) ?p ?n ?sw = Inr sw'" "sw_wf sw'" "sw_inst sw' = sw_inst sw"
    "tx_events (sw_out sw') = tx_events (sw_out sw)
        @ map (tx_of ?p ?n) (ls_ports (iface_list (sw_inst sw)) (lookup_port (sw_fdb sw)) ifc (dst_of ?p))"
    using handle_packet_refines [OF wf' _ b(1,2), of ifc sendto now] ifc(1) by auto
  have "sw_fdb sw' = (if lookup_port (sw_fdb sw) (src_of ?p) = None
      then insert_mac_port (sw_fdb sw) (src_of ?p) (Some ifc) now else sw_fdb sw)"
    using sw'(1) b(1) by (auto simp: handle_packet_def ether_ok Let_def bind_r_eq_Inr)
  then have "fdb_map (sw_fdb sw') = ls_see (fdb_map (sw_fdb sw)) ifc (src_of data) now"
    using fdb_map_see [OF inv, of "src_of ?p" ifc now] by (simp only: recv_bytes(2) [OF len])
  moreover have "rx_step sendto (fd, Received data False now) sw = Inr sw'"
    using sw'(1) b(3) ifc(2) by (simp add: rx_step_def Let_def)
  ultimately show thesis
    using that sw' ifc(2) recv_bytes [OF len] fdb_map_iface [OF inv] by simp
qed

lemma quiet_step:
  assumes "no_frame r" and "sw_wf sw"
  shows "\<exists>b. rx_step sendto (fd, r) sw = Inr (sw\<lparr>sw_buf := b\<rparr>) \<and> sw_wf (sw\<lparr>sw_buf := b\<rparr>)"
proof (cases r)
  case (Received data outgoing now)
  then show ?thesis using assms
    by (intro exI [of _ "recv_into (sw_buf sw) data"]) (auto simp: rx_step_def Let_def sw_wf_def length_recv_into)
qed (use assms in \<open>auto simp: rx_step_def intro!: exI [of _ "sw_buf sw"]\<close>)

text \<open>One round of the program on memory and of the specification.\<close>

lemma round_refines:
  assumes mal: "malloc_fresh malloc" and sim: "sw_sim sm sw" and wf: "sw_wf sw" and ok: "sw_round_ok (fds (sw_inst sw)) r"
  obtains sm' sw' where "sw_round_p malloc sendto r sm = Some (Inr sm')" "sw_sim sm' sw'" "sw_wf sw'" "sw_inst sw' = sw_inst sw"
    "\<And>rs m' out. ls_run (iface_list (sw_inst sw)) (fdb_map (sw_fdb sw')) rs m' out \<Longrightarrow>
       \<exists>sent. tx_events (sw_out sw') = tx_events (sw_out sw) @ sent
         \<and> ls_run (iface_list (sw_inst sw)) (fdb_map (sw_fdb sw)) (r # rs) m' (sent @ out)"
proof (cases r)
  case (Rx fd rv)
  have lift: "\<exists>sm'. sw_round_p malloc sendto r sm = Some (Inr sm') \<and> sw_sim sm' sw'" if "rx_step sendto (fd, rv) sw = Inr sw'" for sw'
    using rx_step_p_ok [OF mal sim, of sendto "(fd, rv)"] that Rx by (simp add: sw_ok_def)
  show thesis
  proof (cases "no_frame rv")
    case True
    obtain b where b: "rx_step sendto (fd, rv) sw = Inr (sw\<lparr>sw_buf := b\<rparr>)" "sw_wf (sw\<lparr>sw_buf := b\<rparr>)"
      using quiet_step [OF True wf] by blast
    obtain sm' where "sw_round_p malloc sendto r sm = Some (Inr sm')" "sw_sim sm' (sw\<lparr>sw_buf := b\<rparr>)" using lift [OF b(1)] by blast
    from that [OF this b(2)] show thesis using Rx True by (auto intro!: exI [of _ "[]"] ls_quiet)
  next
    case False
    then obtain data now where rv: "rv = Received data False now" by (cases rv) auto
    have "fd \<in> set (fds (sw_inst sw))" "14 \<le> length data" using ok Rx rv by simp_all
    from frame_refines [OF wf this, of sendto now] obtain sw' ingress where
      s: "rx_step sendto (fd, rv) sw = Inr sw'" "sw_wf sw'" "sw_inst sw' = sw_inst sw"
      "fd_to_iface (iface_list (sw_inst sw)) fd = Some ingress"
      "fdb_map (sw_fdb sw') = ls_see (fdb_map (sw_fdb sw)) ingress (src_of data) now"
      "tx_events (sw_out sw') = tx_events (sw_out sw) @ map (tx_of data (recv_len data))
         (ls_ports (iface_list (sw_inst sw)) (ls_iface (fdb_map (sw_fdb sw))) ingress (dst_of data))"
      unfolding rv by metis
    obtain sm' where "sw_round_p malloc sendto r sm = Some (Inr sm')" "sw_sim sm' sw'" using lift [OF s(1)] by blast
    from that [OF this s(2,3)] show thesis using s(4-6) Rx rv by (auto intro: ls_frame)
  qed
next
  case (Sweep now)
  have inv: "fdb_inv (sw_fdb sw)" using wf by (simp add: sw_wf_def)
  have lift: "\<exists>sm'. sw_round_p malloc sendto r sm = Some (Inr sm') \<and> sw_sim sm' (sw\<lparr>sw_fdb := t\<rparr>)"
    if "sweep_aged_mac_port_entry now (sw_fdb sw) = Inr (n, t)" for n t
    using sweeping_round_p_ok [OF sim, of now] that Sweep by (auto simp: sweeping_round_def)
  show thesis
    using inv
  proof (cases rule: sweep_aged_cases [where now = now])
    case none
    have same: "sw\<lparr>sw_fdb := sw_fdb sw\<rparr> = sw" by simp
    obtain sm' where "sw_round_p malloc sendto r sm = Some (Inr sm')" "sw_sim sm' sw" using lift [OF none(2)] same by metis
    moreover have "\<forall>(ifc, t) \<in> ran (fdb_map (sw_fdb sw)). \<not> too_old now t"
      using none(1) fdb_map_ran by (fastforce simp: too_old_def aged_def)
    ultimately show thesis using that [OF _ _ wf] Sweep by (auto intro!: exI [of _ "[]"] ls_keep)
  next
    case (one xs e ifc ys t')
    have e: "e \<in> set (entries (sw_fdb sw))" using one(1) by simp
    have wf': "sw_wf (sw\<lparr>sw_fdb := t'\<rparr>)" using wf one(1,2,6) by (auto simp: sw_wf_def)
    obtain sm' where s: "sw_round_p malloc sendto r sm = Some (Inr sm')" "sw_sim sm' (sw\<lparr>sw_fdb := t'\<rparr>)"
      using lift [OF one(7)] by blast
    have "fdb_map t' = (fdb_map (sw_fdb sw))(me_mac e := None)"
      by (rule fdb_map_forget [OF one(1,2) fdb_invD(2) [OF inv]])
    moreover have "too_old now (me_visited e)" using one(3) by (simp add: too_old_def aged_def)
    ultimately have "ls_run (iface_list (sw_inst sw)) (fdb_map (sw_fdb sw)) (r # rs) m' out"
      if "ls_run (iface_list (sw_inst sw)) (fdb_map t') rs m' out" for rs m' out
      using that fdb_map_entry [OF inv e one(5)] Sweep by (auto intro: ls_forget)
    with that [OF s wf'] show thesis by auto
  qed
qed

lemma rounds_refine:
  assumes mal: "malloc_fresh malloc"
  shows "sw_sim sm sw \<Longrightarrow> sw_wf sw \<Longrightarrow> list_all (sw_round_ok (fds (sw_inst sw))) rounds \<Longrightarrow>
    \<exists>sm' sw' sent. sw_rounds_p malloc sendto rounds sm = Some (Inr sm') \<and> sw_sim sm' sw' \<and> sw_wf sw'
      \<and> tx_events (sw_out sw') = tx_events (sw_out sw) @ sent
      \<and> ls_run (iface_list (sw_inst sw)) (fdb_map (sw_fdb sw)) rounds (fdb_map (sw_fdb sw')) sent"
proof (induction rounds arbitrary: sm sw)
  case Nil
  then show ?case by (auto intro: ls_done)
next
  case (Cons r rs)
  have "sw_round_ok (fds (sw_inst sw)) r" using Cons.prems(3) by simp
  from round_refines [OF mal Cons.prems(1,2) this, of sendto] obtain sm1 sw1 where
    one: "sw_round_p malloc sendto r sm = Some (Inr sm1)" "sw_sim sm1 sw1" "sw_wf sw1" "sw_inst sw1 = sw_inst sw"
    "\<And>rs m' out. ls_run (iface_list (sw_inst sw)) (fdb_map (sw_fdb sw1)) rs m' out \<Longrightarrow>
       \<exists>sent. tx_events (sw_out sw1) = tx_events (sw_out sw) @ sent
         \<and> ls_run (iface_list (sw_inst sw)) (fdb_map (sw_fdb sw)) (r # rs) m' (sent @ out)"
    by blast
  obtain sm' sw' sent where rest: "sw_rounds_p malloc sendto rs sm1 = Some (Inr sm')" "sw_sim sm' sw'" "sw_wf sw'"
    "tx_events (sw_out sw') = tx_events (sw_out sw1) @ sent"
    "ls_run (iface_list (sw_inst sw)) (fdb_map (sw_fdb sw1)) rs (fdb_map (sw_fdb sw')) sent"
    using Cons.IH [OF one(2,3)] Cons.prems(3) one(4) by auto
  from one(5) [OF rest(5)] one(1) rest(1-4) show ?case by fastforce
qed

lemma init_ustack_p_ok:
  assumes "init_ustack_p os addrs g = Inr sm"
  obtains sw where "init_ustack os addrs g = Inr sw" "sw_sim sm sw" "sw_fdb sw = init_mac_port_table" "sw_out sw = []"
proof -
  obtain h where h: "init_mac_port_table_p = Inr (h, Map.empty)" "in_memory h Map.empty {} init_mac_port_table"
    using init_mac_port_table_p_ok by blast
  have len: "length init_mac_port_table = HASH_8BITS" by (simp add: init_mac_port_table_def)
  obtain inst where "init_all_ifaces os addrs \<lparr>iface_list = [], nifs = 0, fds = []\<rparr> = Inr inst"
    using assms by (auto simp: init_ustack_p_def bind_r_eq_Inr)
  with assms h(2) len that show thesis by (auto simp: init_ustack_p_def init_ustack_def sw_sim_def h(1))
qed

section \<open>Properties\<close>

text \<open>C4. The whole switch, on memory, is a learning switch that forgets: from the state \<open>init_ustack\<close> builds, whatever
  sequence of frames arrives at its descriptors (each with a complete Ethernet header), of failed or empty receives and of rounds
  of the sweeping thread, at any times, the run ends without touching freed memory; the frames sent are those of the
  specification, whose map gains an unknown source and loses one station 30 seconds old per sweeping round; and there are as
  many allocated entries as known stations, so that nothing leaks.\<close>

theorem switch_program_learns:
  assumes "malloc_fresh malloc" and "init_ustack_p os addrs stack_garbage = Inr sm"
    and "list_all (sw_round_ok (fds (sm_inst sm))) rounds"
  shows "\<exists>sm' m. sw_rounds_p malloc sendto rounds sm = Some (Inr sm')
    \<and> ls_run (iface_list (sm_inst sm)) Map.empty rounds m (tx_events (sm_out sm'))
    \<and> card (dom (snd (sm_fdb sm'))) = card (dom m)"
proof -
  obtain sw where sw: "init_ustack os addrs stack_garbage = Inr sw" "sw_sim sm sw" "sw_fdb sw = init_mac_port_table" "sw_out sw = []"
    using assms(2) by (rule init_ustack_p_ok)
  have inst: "sm_inst sm = sw_inst sw" using sw(2) by (simp add: sw_sim_def)
  have empty: "fdb_map (sw_fdb sw) = Map.empty" by (simp add: sw(3) fdb_map_def fun_eq_iff)
  obtain sm' sw' sent where run: "sw_rounds_p malloc sendto rounds sm = Some (Inr sm')" "sw_sim sm' sw'" "sw_wf sw'"
    "tx_events (sw_out sw') = tx_events (sw_out sw) @ sent"
    "ls_run (iface_list (sw_inst sw)) (fdb_map (sw_fdb sw)) rounds (fdb_map (sw_fdb sw')) sent"
    using rounds_refine [OF assms(1) sw(2) init_ustack_wf [OF sw(1)], of rounds sendto] assms(3) inst by auto
  have mem: "in_memory (fst (sm_fdb sm')) (snd (sm_fdb sm')) {} (sw_fdb sw')" "sm_out sm' = sw_out sw'"
    using run(2) by (simp_all add: sw_sim_def)
  have "card (dom (snd (sm_fdb sm'))) = length (entries (sw_fdb sw'))"
    using in_memory_card(2) [OF mem(1)] by (simp add: entries_def)
  also have "\<dots> = card (dom (fdb_map (sw_fdb sw')))"
    using run(3) by (simp add: fdb_map_dom sw_wf_def)
  finally show ?thesis using run sw(4) inst empty mem(2) by auto
qed

definition demo_rounds :: "sw_round list" where
  "demo_rounds = [Rx 3 (Received (demo_frame 2 1) False 100), Rx 4 (Received (demo_frame 1 2) False 105), Sweep 131,
     Rx 4 (Received (demo_frame 1 2) False 132)]"

lemma demo_init_p: "\<exists>sm. init_ustack_p demo_os demo_addrs [] = Inr sm \<and> sm_inst sm = sw_inst demo_switch"
proof -
  obtain h where h: "init_mac_port_table_p = Inr (h, Map.empty)" using init_mac_port_table_p_ok by blast
  have "init_all_ifaces demo_os demo_addrs \<lparr>iface_list = [], nifs = 0, fds = []\<rparr> = Inr (sw_inst demo_switch)"
    using demo_init by (auto simp: init_ustack_def bind_r_eq_Inr dest: arg_cong [where f = sw_inst])
  then show ?thesis by (simp add: init_ustack_p_def h)
qed

text \<open>Flooded, answered directly, and flooded again once the first station has been forgotten.\<close>

lemma demo_rounds_run:
  assumes "ls_run [demo_if1, demo_if2] Map.empty demo_rounds m out"
  shows "map fst out = [4, 3, 3] \<and> dom m = {[0, 0, 0, 0, 0, 2]}"
  using assms
  by (simp add: demo_rounds_def ls_run_simps demo_if1_def demo_if2_def)
    (auto simp: ls_see_def ls_ports_def ls_iface_def demo_frame_def src_of_def dst_of_def too_old_def
      MAC_PORT_TIMEOUT_def c_int_small tx_of_def split: if_splits)

theorem switch_program_learns_witness:
  "\<exists>sm sm' m. init_ustack_p demo_os demo_addrs [] = Inr sm
    \<and> sw_rounds_p bump_malloc (\<lambda>_ b _. int (length b)) demo_rounds sm = Some (Inr sm')
    \<and> ls_run [demo_if1, demo_if2] Map.empty demo_rounds m (tx_events (sm_out sm'))
    \<and> map fst (tx_events (sm_out sm')) = [4, 3, 3] \<and> card (dom (snd (sm_fdb sm'))) = 1"
proof -
  obtain sm where sm: "init_ustack_p demo_os demo_addrs [] = Inr sm" "sm_inst sm = sw_inst demo_switch" using demo_init_p by blast
  have "list_all (sw_round_ok (fds (sm_inst sm))) demo_rounds"
    by (simp add: sm(2) demo_switch_def demo_rounds_def demo_frame_def)
  from switch_program_learns [OF bump_malloc_fresh sm(1) this] obtain sm' m where
    "sw_rounds_p bump_malloc (\<lambda>_ b _. int (length b)) demo_rounds sm = Some (Inr sm')"
    "ls_run (iface_list (sm_inst sm)) Map.empty demo_rounds m (tx_events (sm_out sm'))"
    "card (dom (snd (sm_fdb sm'))) = card (dom m)" by blast
  with sm demo_rounds_run [of m "tx_events (sm_out sm')"] show ?thesis by (auto simp: demo_switch_def)
qed

end
