(* ===== verification/MacRace.thy ===== *)
theory MacRace
  imports MacHeap
begin

text \<open>
  The two threads of the switch work on the table without taking its lock: the main thread appends
  entries (\<open>insert_mac_port\<close>) while the sweeping thread unlinks and frees them
  (\<open>sweep_aged_mac_port_entry\<close>). Here the two list operations are split into their single reads
  and writes of memory, and a schedule interleaves them. Run alone, the steps are the operations of theory
  \<open>ListHead\<close>. Interleaved, they give the right list as long as the entry that is removed is not
  the last one; if it is, a schedule exists that writes to freed memory.
\<close>

section \<open>The two threads\<close>

text \<open>
  \<open>list_add_tail (new, head)\<close> with \<open>list_insert\<close> inlined: a program counter and the local variable
  \<open>prev\<close>. A finished thread stays where it is.
\<close>

fun add_step :: "addr \<Rightarrow> addr \<Rightarrow> nat \<times> addr \<Rightarrow> heap \<Rightarrow> ((nat \<times> addr) \<times> heap) result" where
  "add_step new head (pc, p) h =
     (if pc = 0 then bind_r (ld_prev h head) (\<lambda>p. Inr ((1, p), h))
      else if pc = 1 then bind_r (st_prev h head new) (\<lambda>h. Inr ((2, p), h))
      else if pc = 2 then bind_r (st_next h p new) (\<lambda>h. Inr ((3, p), h))
      else if pc = 3 then bind_r (st_next h new head) (\<lambda>h. Inr ((4, p), h))
      else if pc = 4 then bind_r (st_prev h new p) (\<lambda>h. Inr ((5, p), h))
      else Inr ((pc, p), h))"

text \<open>\<open>list_delete_entry (entry)\<close> and \<open>free (entry)\<close>, with the values the statements load.\<close>

fun sweep_step :: "addr \<Rightarrow> nat \<times> addr \<times> addr \<Rightarrow> heap \<Rightarrow> ((nat \<times> addr \<times> addr) \<times> heap) result" where
  "sweep_step entry (pc, n, p) h =
     (if pc = 0 then bind_r (ld_next h entry) (\<lambda>n. Inr ((1, n, p), h))
      else if pc = 1 then bind_r (ld_prev h entry) (\<lambda>p. Inr ((2, n, p), h))
      else if pc = 2 then bind_r (st_prev h n p) (\<lambda>h. Inr ((3, n, p), h))
      else if pc = 3 then bind_r (ld_prev h entry) (\<lambda>p. Inr ((4, n, p), h))
      else if pc = 4 then bind_r (ld_next h entry) (\<lambda>n. Inr ((5, n, p), h))
      else if pc = 5 then bind_r (st_next h p n) (\<lambda>h. Inr ((6, n, p), h))
      else if pc = 6 then (if h entry = None then Inl OutOfBounds else Inr ((7, n, p), free_node h entry))
      else Inr ((pc, n, p), h))"

declare add_step.simps [simp del] sweep_step.simps [simp del]

text \<open>A schedule: \<open>True\<close> runs a step of the main thread, \<open>False\<close> one of the sweeping thread.\<close>

type_synonym race = "(nat \<times> addr) \<times> (nat \<times> addr \<times> addr) \<times> heap"

fun race_step :: "addr \<Rightarrow> addr \<Rightarrow> addr \<Rightarrow> bool \<Rightarrow> race \<Rightarrow> race result" where
  "race_step new head entry who (a, b, h) =
     (if who then bind_r (add_step new head a h) (\<lambda>(a, h). Inr (a, b, h))
      else bind_r (sweep_step entry b h) (\<lambda>(b, h). Inr (a, b, h)))"

definition race_run :: "addr \<Rightarrow> addr \<Rightarrow> addr \<Rightarrow> bool list \<Rightarrow> race \<Rightarrow> race result" where
  "race_run new head entry sched s = fold_r (race_step new head entry) sched s"

definition race_start :: "heap \<Rightarrow> race" where
  "race_start h = ((0, 0), (0, 0, 0), h)"

section \<open>Writes as functions\<close>

definition upd_n :: "addr \<Rightarrow> addr \<Rightarrow> heap \<Rightarrow> heap" where
  "upd_n a v h = h(a := map_option (nxt_update (\<lambda>_. v)) (h a))"

definition upd_p :: "addr \<Rightarrow> addr \<Rightarrow> heap \<Rightarrow> heap" where
  "upd_p a v h = h(a := map_option (prv_update (\<lambda>_. v)) (h a))"

lemma st_upd: "a \<in> dom h \<Longrightarrow> st_next h a v = Inr (upd_n a v h)" "a \<in> dom h \<Longrightarrow> st_prev h a v = Inr (upd_p a v h)"
  by (auto simp: st_next_def st_prev_def upd_n_def upd_p_def)

lemma st_absent: "a \<notin> dom h \<Longrightarrow> st_next h a v = Inl OutOfBounds"
  by (auto simp: st_next_def domIff)

lemma dom_upd [simp]: "dom (upd_n a v h) = dom h" "dom (upd_p a v h) = dom h" "dom (free_node h a) = dom h - {a}"
  by (auto simp: upd_n_def upd_p_def free_node_def split: if_splits)

lemma ld_upd [simp]:
  "ld_next (upd_p a v h) x = ld_next h x" "ld_prev (upd_n a v h) x = ld_prev h x"
  "x \<noteq> a \<Longrightarrow> ld_next (upd_n a v h) x = ld_next h x" "x \<noteq> a \<Longrightarrow> ld_prev (upd_p a v h) x = ld_prev h x"
  "x \<noteq> a \<Longrightarrow> ld_next (free_node h a) x = ld_next h x" "x \<noteq> a \<Longrightarrow> ld_prev (free_node h a) x = ld_prev h x"
  by (auto simp: ld_next_def ld_prev_def upd_n_def upd_p_def free_node_def split: option.splits)

text \<open>Writes to different fields, or to different nodes, commute.\<close>

lemma upd_commute:
  "upd_n a v (upd_p b w h) = upd_p b w (upd_n a v h)"
  "a \<noteq> b \<Longrightarrow> upd_n a v (upd_n b w h) = upd_n b w (upd_n a v h)"
  "a \<noteq> b \<Longrightarrow> upd_p a v (upd_p b w h) = upd_p b w (upd_p a v h)"
  "a \<noteq> b \<Longrightarrow> free_node (upd_n a v h) b = upd_n a v (free_node h b)"
  "a \<noteq> b \<Longrightarrow> free_node (upd_p a v h) b = upd_p a v (free_node h b)"
proof -
  show "upd_n a v (upd_p b w h) = upd_p b w (upd_n a v h)"
    by (cases "h b") (auto simp: upd_n_def upd_p_def fun_eq_iff)
qed (auto simp: upd_n_def upd_p_def free_node_def fun_eq_iff)

section \<open>One thread alone\<close>

lemmas step_simps = add_step.simps sweep_step.simps

lemma add_alone:
  "fold_r (\<lambda>_ (a, h). add_step new head a h) [0..<5] ((0, p0), h)
   = bind_r (ld_prev h head) (\<lambda>p. bind_r (list_add_tail h new head) (\<lambda>h. Inr ((5, p), h)))"
  by (cases "ld_prev h head")
    (auto simp: upt_rec step_simps list_add_tail_def list_insert_def bind_r_def split: sum.splits)

lemma delete_upd:
  assumes "link h pe entry" and "link h entry ne" and "ne \<noteq> entry"
  shows "list_delete_entry h entry = Inr (upd_n pe ne (upd_p ne pe h))"
proof -
  have "ne \<in> dom h" "pe \<in> dom h" "ld_next h entry = Inr ne" "ld_prev h entry = Inr pe"
    using ld_link [OF assms(1)] ld_link [OF assms(2)] link_dom [OF assms(1)] link_dom [OF assms(2)] by simp_all
  then show ?thesis using assms(3) by (simp add: list_delete_entry_def st_upd)
qed

lemma sweep_alone:
  assumes "link h pe entry" and "link h entry ne" and "pe \<noteq> entry" and "ne \<noteq> entry"
  shows "fold_r (\<lambda>_ (b, h). sweep_step entry b h) [0..<7] ((0, n0, p0), h)
   = bind_r (list_delete_entry h entry) (\<lambda>h. Inr ((7, ne, pe), free_node h entry))"
proof -
  have d: "entry \<in> dom h" "ne \<in> dom h" "pe \<in> dom h" using assms link_dom by blast+
  have l: "ld_next h entry = Inr ne" "ld_prev h entry = Inr pe" using assms by (auto dest: ld_link)
  have "upd_n pe ne (upd_p ne pe h) entry \<noteq> None" using d(1) by (auto simp: upd_n_def upd_p_def)
  then show ?thesis
    using assms(3,4) d l delete_upd [OF assms(1,2,4)] by (simp add: upt_rec step_simps st_upd)
qed

section \<open>All interleavings\<close>

text \<open>
  The nodes involved: \<open>pe\<close>, \<open>entry\<close> and \<open>ne\<close> follow each other, \<open>z\<close> is the last node. The removed entry
  is not the last one, so no field is written by both threads.
\<close>

definition race_nodes :: "addr \<Rightarrow> addr \<Rightarrow> addr \<Rightarrow> addr \<Rightarrow> addr \<Rightarrow> addr \<Rightarrow> heap \<Rightarrow> bool" where
  "race_nodes new head z entry ne pe h \<longleftrightarrow> distinct [new, head, z, entry] \<and> ne \<notin> {new, head, entry} \<and> pe \<notin> {new, z, entry}
     \<and> link h pe entry \<and> link h entry ne \<and> link h z head \<and> new \<in> dom h"

text \<open>The memory after \<open>i\<close> steps of the main thread and \<open>j\<close> of the sweeping thread.\<close>

definition added :: "addr \<Rightarrow> addr \<Rightarrow> addr \<Rightarrow> nat \<Rightarrow> heap \<Rightarrow> heap" where
  "added new head z i h =
     (let h = if 2 \<le> i then upd_p head new h else h;
          h = if 3 \<le> i then upd_n z new h else h;
          h = if 4 \<le> i then upd_n new head h else h
      in if 5 \<le> i then upd_p new z h else h)"

definition removed :: "addr \<Rightarrow> addr \<Rightarrow> addr \<Rightarrow> nat \<Rightarrow> heap \<Rightarrow> heap" where
  "removed entry ne pe j h =
     (let h = if 3 \<le> j then upd_p ne pe h else h;
          h = if 6 \<le> j then upd_n pe ne h else h
      in if 7 \<le> j then free_node h entry else h)"

definition race_inv :: "addr \<Rightarrow> addr \<Rightarrow> addr \<Rightarrow> addr \<Rightarrow> addr \<Rightarrow> addr \<Rightarrow> heap \<Rightarrow> race \<Rightarrow> bool" where
  "race_inv new head z entry ne pe h s \<longleftrightarrow> (case s of ((i, p), (j, n, q), h') \<Rightarrow>
     i \<le> 5 \<and> j \<le> 7 \<and> h' = added new head z i (removed entry ne pe j h)
     \<and> (1 \<le> i \<longrightarrow> p = z) \<and> (1 \<le> j \<longrightarrow> n = ne) \<and> (2 \<le> j \<longrightarrow> q = pe))"

lemma added_commute:
  assumes "race_nodes new head z entry ne pe h"
  shows "upd_p ne pe (added new head z i g) = added new head z i (upd_p ne pe g)"
    "upd_n pe ne (added new head z i g) = added new head z i (upd_n pe ne g)"
    "free_node (added new head z i g) entry = added new head z i (free_node g entry)"
  using assms by (auto simp: race_nodes_def added_def Let_def upd_commute)

lemma dom_race [simp]:
  "dom (added new head z i g) = dom g" "dom (removed entry ne pe j g) = (if 7 \<le> j then dom g - {entry} else dom g)"
  by (auto simp: added_def removed_def Let_def)

lemma add_step_added:
  assumes "ld_prev g head = Inr z" and "{head, z, new} \<subseteq> dom g" and "new \<noteq> head" and "i \<le> 5" and "1 \<le> i \<longrightarrow> p = z"
  shows "add_step new head (i, p) (added new head z i g) = Inr ((min 5 (Suc i), z), added new head z (min 5 (Suc i)) g)"
proof -
  have d: "{head, z, new} \<subseteq> dom (added new head z k g)" for k using assms(2) by simp
  have "i = 0 \<or> i = 1 \<or> i = 2 \<or> i = 3 \<or> i = 4 \<or> i = 5" using assms(4) by linarith
  then show ?thesis
    using assms(1,5) d [of 1] d [of 2] d [of 3] d [of 4] by (auto simp: step_simps st_upd added_def Let_def)
qed

lemma add_step_inv:
  assumes nodes: "race_nodes new head z entry ne pe h" and i: "i \<le> 5" and p: "1 \<le> i \<longrightarrow> p = z"
    and g: "g = removed entry ne pe j h"
  shows "add_step new head (i, p) (added new head z i g) = Inr ((min 5 (Suc i), z), added new head z (min 5 (Suc i)) g)"
proof (rule add_step_added)
  show "ld_prev g head = Inr z" using nodes by (auto simp: race_nodes_def g removed_def Let_def ld_link)
qed (use nodes i p in \<open>auto simp: race_nodes_def g link_def\<close>)

lemma sweep_step_inv:
  assumes nodes: "race_nodes new head z entry ne pe h" and j: "j \<le> 7" and q: "1 \<le> j \<longrightarrow> n = ne" "2 \<le> j \<longrightarrow> p = pe"
  shows "\<exists>p'. sweep_step entry (j, n, p) (added new head z i (removed entry ne pe j h))
    = Inr ((min 7 (Suc j), ne, p'), added new head z i (removed entry ne pe (min 7 (Suc j)) h)) \<and> (1 \<le> j \<longrightarrow> p' = pe)"
proof -
  have d: "{entry, ne, pe} \<subseteq> dom (added new head z i (removed entry ne pe k h))" if "k < 7" for k
    using nodes that by (auto simp: race_nodes_def link_def)
  have l: "ld_next (added new head z i (removed entry ne pe k h)) entry = Inr ne"
    "ld_prev (added new head z i (removed entry ne pe k h)) entry = Inr pe" if "k < 6" for k
    using nodes that by (auto simp: race_nodes_def added_def removed_def Let_def ld_link)
  have "6 < (7 :: nat)" by simp
  from d [OF this] have e: "added new head z i (removed entry ne pe 6 h) entry \<noteq> None"
    using domIff [of entry "added new head z i (removed entry ne pe 6 h)"] by blast
  have "j = 0 \<or> j = 1 \<or> j = 2 \<or> j = 3 \<or> j = 4 \<or> j = 5 \<or> j = 6 \<or> j = 7" using j by linarith
  then show ?thesis
    using e q d [of j] l [of j] added_commute [OF nodes, of i]
    by (elim disjE) (auto simp: step_simps st_upd removed_def Let_def)
qed

lemma race_step_inv:
  assumes nodes: "race_nodes new head z entry ne pe h" and inv: "race_inv new head z entry ne pe h s"
  shows "\<exists>s'. race_step new head entry who s = Inr s' \<and> race_inv new head z entry ne pe h s'
    \<and> fst (fst s') = (if who then min 5 (Suc (fst (fst s))) else fst (fst s))
    \<and> fst (fst (snd s')) = (if who then fst (fst (snd s)) else min 7 (Suc (fst (fst (snd s)))))"
proof -
  obtain i p j n q h' where s: "s = ((i, p), (j, n, q), h')" by (cases s) auto
  show ?thesis
    using inv add_step_inv [OF nodes, of i p "removed entry ne pe j h" j]
      sweep_step_inv [OF nodes, of j n q i] unfolding s race_inv_def
    by (cases who) auto
qed

lemma race_run_inv:
  assumes nodes: "race_nodes new head z entry ne pe h" and "race_inv new head z entry ne pe h s"
  shows "\<exists>s'. race_run new head entry sched s = Inr s' \<and> race_inv new head z entry ne pe h s'
    \<and> fst (fst s') = min 5 (fst (fst s) + count_list sched True)
    \<and> fst (fst (snd s')) = min 7 (fst (fst (snd s)) + count_list sched False)"
  using assms(2)
proof (induction sched arbitrary: s)
  case Nil
  then show ?case by (auto simp: race_run_def race_inv_def)
next
  case (Cons who sched)
  obtain s1 where s1: "race_step new head entry who s = Inr s1" "race_inv new head z entry ne pe h s1"
    "fst (fst s1) = (if who then min 5 (Suc (fst (fst s))) else fst (fst s))"
    "fst (fst (snd s1)) = (if who then fst (fst (snd s)) else min 7 (Suc (fst (fst (snd s)))))"
    using race_step_inv [OF nodes Cons.prems, of who] by blast
  obtain s' where s': "race_run new head entry sched s1 = Inr s'" "race_inv new head z entry ne pe h s'"
    "fst (fst s') = min 5 (fst (fst s1) + count_list sched True)"
    "fst (fst (snd s')) = min 7 (fst (fst (snd s1)) + count_list sched False)"
    using Cons.IH [OF s1(2)] by blast
  have cap: "min 5 (min 5 (Suc x) + y) = min 5 (Suc (x + y))" "min 7 (min 7 (Suc x) + y) = min 7 (Suc (x + y))" for x y :: nat
    by linarith+
  show ?case using s1(1,3,4) s' by (intro exI [of _ s']) (cases who; simp add: race_run_def cap)
qed

lemma race_nodes_list:
  assumes "dlist h head (xs @ entry # ys)" and "ys \<noteq> []" and "new \<in> dom h" and "new \<notin> set (head # xs @ entry # ys)"
  shows "race_nodes new head (last ys) entry (hd ys) (last (head # xs)) h"
proof -
  have d: "distinct (head # xs @ entry # ys)" using assms(1) by (simp add: dlist_def)
  have l: "link h (last (head # xs)) entry" "link h entry (hd ys)" "link h (last ys) head"
    using assms(1,2) dlist_split [of h head xs "entry # ys"] dlist_split [of h head "xs @ [entry]" ys]
      dlist_split [of h head "xs @ entry # ys" "[]"] by auto
  have mem: "last (head # xs) \<in> set (head # xs)" "hd ys \<in> set ys" "last ys \<in> set ys" using assms(2) by auto
  then show ?thesis using d l assms(3,4) unfolding race_nodes_def by (auto simp del: last.simps)
qed

text \<open>The memory when both threads are done is that of running one after the other.\<close>

lemma race_end:
  assumes "dlist h head (xs @ entry # ys)" and "ys \<noteq> []" and new: "new \<in> dom h" "new \<notin> set (head # xs @ entry # ys)"
  defines "h' \<equiv> added new head (last ys) 5 (removed entry (hd ys) (last (head # xs)) 7 h)"
  shows "dlist h' head (xs @ ys @ [new]) \<and> h' entry = None"
proof -
  note nodes = race_nodes_list [OF assms(1,2) new]
  let ?g = "removed entry (hd ys) (last (head # xs)) 7 h"
  let ?d = "upd_n (last (head # xs)) (hd ys) (upd_p (hd ys) (last (head # xs)) h)"
  have "list_delete_entry h entry = Inr ?d"
    by (rule delete_upd) (use nodes in \<open>auto simp: race_nodes_def simp del: last.simps\<close>)
  then have d: "dlist ?d head (xs @ ys)" using list_delete_dlist [OF assms(1)] by (metis sum.inject(2))
  have e: "entry \<notin> set (head # xs @ ys)" using assms(1) by (auto simp: dlist_def)
  have g: "dlist ?g head (xs @ ys)"
    using free_node_dlist [OF d e] by (simp add: removed_def del: last.simps)
  have n: "new \<in> dom ?g" "new \<notin> set (head # xs @ ys)" using new by auto
  have "ld_prev ?g head = Inr (last ys)" "head \<in> dom ?g" "last ys \<in> dom ?g"
    using nodes unfolding race_nodes_def removed_def
    by (auto simp: ld_link Let_def dest: link_dom simp del: last.simps)
  then have "list_add_tail ?g new head = Inr h'"
    using n(1) by (simp add: list_add_tail_def list_insert_def st_upd h'_def added_def del: last.simps)
  then have "dlist h' head ((xs @ ys) @ [new])" "dom h' = dom ?g"
    using list_add_tail_dlist [OF g n] by (metis sum.inject(2))+
  then show ?thesis by (auto simp: domIff simp del: last.simps)
qed

section \<open>Properties\<close>

definition race_done :: "race \<Rightarrow> bool" where
  "race_done s \<longleftrightarrow> fst (fst s) = 5 \<and> fst (fst (snd s)) = 7"

text \<open>C14. Without the lock, an insertion at the tail and the removal of an entry that is not the last one
  do not disturb each other: under every interleaving of their memory accesses no access fails, both threads are done after five and seven steps, and
  then the list consists of the old entries without the removed one, followed by the new one; the removed entry is
  freed.\<close>

theorem race_inner_entry:
  assumes "dlist h head (xs @ entry # ys)" and "ys \<noteq> []"
    and "new \<in> dom h" and "new \<notin> set (head # xs @ entry # ys)"
  shows "\<exists>s. race_run new head entry sched (race_start h) = Inr s
    \<and> (5 \<le> count_list sched True \<longrightarrow> 7 \<le> count_list sched False \<longrightarrow> race_done s)
    \<and> (race_done s \<longrightarrow> dlist (snd (snd s)) head (xs @ ys @ [new]) \<and> snd (snd s) entry = None)"
proof -
  let ?inv = "race_inv new head (last ys) entry (hd ys) (last (head # xs)) h"
  have "?inv (race_start h)" by (simp add: race_inv_def race_start_def added_def removed_def)
  then obtain s where s: "race_run new head entry sched (race_start h) = Inr s" "?inv s"
    "fst (fst s) = min 5 (count_list sched True)" "fst (fst (snd s)) = min 7 (count_list sched False)"
    using race_run_inv [OF race_nodes_list [OF assms], of "race_start h" sched] by (auto simp: race_start_def)
  have "snd (snd s) = added new head (last ys) 5 (removed entry (hd ys) (last (head # xs)) 7 h)" if "race_done s"
    using s(2) that by (auto simp: race_inv_def race_done_def)
  then show ?thesis using s race_end [OF assms] by (auto simp: race_done_def)
qed

theorem race_inner_entry_witness:
  "\<exists>s. race_run 3 0 1 [True, False, False, False, True, False, True, False, False, True, False, True] (race_start demo_heap) = Inr s
    \<and> race_done s \<and> dlist (snd (snd s)) 0 [2, 3]"
proof -
  obtain s where "race_run 3 0 1 [True, False, False, False, True, False, True, False, False, True, False, True] (race_start demo_heap) = Inr s"
    "race_done s" "race_done s \<longrightarrow> dlist (snd (snd s)) 0 ([] @ [2] @ [3])"
    using race_inner_entry [of demo_heap 0 "[]" 1 "[2]" 3
      "[True, False, False, False, True, False, True, False, False, True, False, True]"] demo_heap_dlist by auto
  then show ?thesis by auto
qed

text \<open>C13. If the removed entry is the last one, the missing lock shows: when the main thread has
  loaded the pointer to the last node, and the sweeping thread then unlinks and frees this
  node before the main thread goes on, the main thread writes to freed memory.\<close>

theorem race_last_entry:
  assumes "dlist h head (xs @ [entry])" and "new \<in> dom h" and "new \<notin> set (head # xs @ [entry])"
  shows "race_run new head entry ([True] @ replicate 7 False @ [True, True]) (race_start h) = Inl OutOfBounds"
proof -
  let ?p = "last (head # xs)"
  have l: "link h ?p entry" "link h entry head" and d: "distinct (head # xs @ [entry])"
    using assms(1) dlist_split [of h head xs "[entry]"] dlist_split [of h head "xs @ [entry]" "[]"] by (auto simp: dlist_def)
  have mem: "?p \<in> set (head # xs)" by simp
  then have pe: "?p \<noteq> entry" "head \<noteq> entry" using d by (auto simp del: last.simps)
  have dom: "entry \<in> dom h" "head \<in> dom h" "?p \<in> dom h" using l link_dom by blast+
  have "upd_n ?p head (upd_p head ?p h) entry \<noteq> None"
    using dom(1) pe by (auto simp: upd_n_def upd_p_def simp del: last.simps)
  then show ?thesis
    using dom ld_link [OF l(1)] ld_link [OF l(2)] pe
    by (simp add: race_run_def race_start_def numeral_eq_Suc step_simps st_upd st_absent del: last.simps)
qed

theorem race_last_entry_witness:
  "race_run 3 0 2 ([True] @ replicate 7 False @ [True, True]) (race_start demo_heap) = Inl OutOfBounds"
  by (rule race_last_entry [of _ _ "[1]"]) (use demo_heap_dlist in auto)

end
