(* ===== verification/LookupRace.thy ===== *)
theory LookupRace
  imports MacRace
begin

text \<open>
  A second race of the switch: \<open>lookup_port\<close> walks over a bucket while the sweeping thread unlinks
  and frees one of its entries. The walk is a cursor whose steps are the single reads of
  \<open>list_for_each_entry_safe\<close> and of the loop body; the sweeping thread makes the steps of theory
  \<open>MacRace\<close>. A schedule interleaves the two.
\<close>

section \<open>The walk, one read at a time\<close>

text \<open>
  \<open>At pos q\<close> is the head of the loop, with the element and the next one loaded; at \<open>Match pos\<close> the
  address of the entry was equal and \<open>entry->iface\<close> is still to be read.
\<close>

datatype cursor = Load_first | Load_next addr | At addr addr | Match addr | Found iface_ptr | Missed

fun look_step :: "addr \<Rightarrow> bytes \<Rightarrow> heap \<Rightarrow> (addr \<rightharpoonup> mac_port_entry_t) \<Rightarrow> cursor \<Rightarrow> cursor result" where
  "look_step head mac h d Load_first = bind_r (ld_next h head) (\<lambda>pos. Inr (Load_next pos))"
| "look_step head mac h d (Load_next pos) = bind_r (ld_next h pos) (\<lambda>q. Inr (At pos q))"
| "look_step head mac h d (At pos q) =
     (if pos = head then Inr Missed
      else case d pos of None \<Rightarrow> Inl OutOfBounds | Some e \<Rightarrow> Inr (if me_mac e = mac then Match pos else Load_next q))"
| "look_step head mac h d (Match pos) =
     (case d pos of None \<Rightarrow> Inl OutOfBounds | Some e \<Rightarrow> Inr (Found (me_iface e)))"
| "look_step head mac h d c = Inr c"

type_synonym look_race = "cursor \<times> (nat \<times> addr \<times> addr) \<times> heap \<times> (addr \<rightharpoonup> mac_port_entry_t)"

text \<open>\<open>True\<close> runs a step of the walk, \<open>False\<close> one of the sweeping thread; \<open>free\<close> gives up the entry with its node.\<close>

fun look_race_step :: "addr \<Rightarrow> bytes \<Rightarrow> addr \<Rightarrow> bool \<Rightarrow> look_race \<Rightarrow> look_race result" where
  "look_race_step head mac entry who (c, b, h, d) =
     (if who then bind_r (look_step head mac h d c) (\<lambda>c. Inr (c, b, h, d))
      else bind_r (sweep_step entry b h) (\<lambda>(b', h'). Inr (c, b', h', if h' entry = None then d(entry := None) else d)))"

definition look_race_run :: "addr \<Rightarrow> bytes \<Rightarrow> addr \<Rightarrow> bool list \<Rightarrow> look_race \<Rightarrow> look_race result" where
  "look_race_run head mac entry sched s = fold_r (look_race_step head mac entry) sched s"

definition look_start :: "heap \<Rightarrow> (addr \<rightharpoonup> mac_port_entry_t) \<Rightarrow> look_race" where
  "look_start h d = (Load_first, (0, 0, 0), h, d)"

text \<open>The cursor holds a pointer to an entry that it will still follow.\<close>

fun holds :: "addr \<Rightarrow> cursor \<Rightarrow> bool" where
  "holds e (Load_next pos) \<longleftrightarrow> pos = e"
| "holds e (At pos q) \<longleftrightarrow> pos = e \<or> q = e"
| "holds e (Match pos) \<longleftrightarrow> pos = e"
| "holds e c \<longleftrightarrow> False"

fun finished :: "cursor \<Rightarrow> bool" where
  "finished (Found i) \<longleftrightarrow> True"
| "finished Missed \<longleftrightarrow> True"
| "finished c \<longleftrightarrow> False"

text \<open>A schedule in which the entry is never freed while the cursor holds it.\<close>

fun considerate :: "addr \<Rightarrow> bytes \<Rightarrow> addr \<Rightarrow> bool list \<Rightarrow> look_race \<Rightarrow> bool" where
  "considerate head mac entry [] s \<longleftrightarrow> True"
| "considerate head mac entry (who # sched) s \<longleftrightarrow>
     (\<not> who \<and> fst (fst (snd s)) = 6 \<longrightarrow> \<not> holds entry (fst s))
     \<and> (case look_race_step head mac entry who s of Inl e \<Rightarrow> True | Inr s' \<Rightarrow> considerate head mac entry sched s')"

section \<open>The sweeping thread alone\<close>

lemma sweep_step_removed:
  assumes l: "link h pe entry" "link h entry ne" "pe \<noteq> entry" "ne \<noteq> entry"
    and j: "j \<le> 7" and q: "1 \<le> j \<longrightarrow> n = ne" "2 \<le> j \<longrightarrow> p = pe"
  shows "\<exists>p'. sweep_step entry (j, n, p) (removed entry ne pe j h)
    = Inr ((min 7 (Suc j), ne, p'), removed entry ne pe (min 7 (Suc j)) h) \<and> (1 \<le> j \<longrightarrow> p' = pe)"
proof -
  have d: "{entry, ne, pe} \<subseteq> dom (removed entry ne pe k h)" if "k < 7" for k
    using l that link_dom [OF l(1)] link_dom [OF l(2)] by auto
  have r: "ld_next (removed entry ne pe k h) entry = Inr ne" "ld_prev (removed entry ne pe k h) entry = Inr pe" if "k < 6" for k
    using l that by (auto simp: removed_def Let_def ld_link)
  have "6 < (7 :: nat)" by simp
  from d [OF this] have e: "removed entry ne pe 6 h entry \<noteq> None"
    using domIff [of entry "removed entry ne pe 6 h"] by blast
  have "j = 0 \<or> j = 1 \<or> j = 2 \<or> j = 3 \<or> j = 4 \<or> j = 5 \<or> j = 6 \<or> j = 7" using j by linarith
  then show ?thesis
    using e q d [of j] r [of j] by (elim disjE) (auto simp: step_simps st_upd removed_def Let_def)
qed

lemma ld_next_removed:
  assumes l: "link h pe entry" "link h entry ne" "pe \<noteq> entry" and x: "7 \<le> j \<longrightarrow> x \<noteq> entry"
  shows "ld_next (removed entry ne pe j h) x = (if 6 \<le> j \<and> x = pe then Inr ne else ld_next h x)"
proof -
  have "pe \<in> dom h" using link_dom [OF l(1)] by simp
  then show ?thesis
    using l(3) x by (auto simp: removed_def Let_def upd_n_def upd_p_def free_node_def ld_next_def split: option.splits)
qed

lemma link_unique: "link h x y \<Longrightarrow> link h x z \<Longrightarrow> y = z" "link h x z \<Longrightarrow> link h y z \<Longrightarrow> x = y"
  by (auto simp: link_def)

lemma dlist_succ:
  assumes dl: "dlist h head L" and L: "L @ [head] = us @ p # vs" and "p \<noteq> head"
  obtains y ws where "vs = y # ws" "link h p y"
proof -
  obtain y ws where v: "vs = y # ws" using L assms(3) by (cases vs) (auto simp: append_eq_append_conv2)
  have "chain h (us @ p # y # ws)" using dl unfolding dlist_def L v by (cases "us @ p # y # ws") auto
  then have "link h p y" by (induction us rule: induct_list012) auto
  with v that show thesis by blast
qed

lemma dlist_next:
  assumes dl: "dlist h head L" and x: "x \<in> set (head # L)"
  obtains y where "link h x y" "y \<in> set (head # L)"
proof (cases "x = head")
  case True
  then have "link h x (hd (L @ [head]))" using dl dlist_split [of h head "[]" L] by simp
  then show thesis using that by (cases L) auto
next
  case False
  then obtain us vs where L: "L @ [head] = us @ x # vs" using x split_list [of x L] by auto
  obtain y ws where "vs = y # ws" "link h x y" by (rule dlist_succ [OF dl L False])
  moreover have "y \<in> set (us @ x # y # ws)" by simp
  ultimately show thesis using that [of y] L by (metis Un_iff empty_iff insert_iff list.set set_append)
qed

section \<open>The invariant\<close>

definition passed :: "bytes \<Rightarrow> addr \<Rightarrow> (addr \<rightharpoonup> mac_port_entry_t) \<Rightarrow> addr list \<Rightarrow> bool" where
  "passed mac e d us \<longleftrightarrow> (\<forall>x \<in> set us. x \<noteq> e \<longrightarrow> (\<forall>en. d x = Some en \<longrightarrow> me_mac en \<noteq> mac))"

text \<open>Where the cursor is in the list \<open>L\<close>, and a bound \<open>k\<close> for the steps it still makes.\<close>

fun cur_inv :: "addr list \<Rightarrow> addr \<Rightarrow> bytes \<Rightarrow> addr \<Rightarrow> (addr \<rightharpoonup> mac_port_entry_t) \<Rightarrow> nat \<Rightarrow> nat \<Rightarrow> cursor \<Rightarrow> bool" where
  "cur_inv L head mac e d j k Load_first \<longleftrightarrow> 2 * length L + 3 \<le> k"
| "cur_inv L head mac e d j k (Load_next p) \<longleftrightarrow>
     (\<exists>us vs. L @ [head] = us @ p # vs \<and> passed mac e d us \<and> 2 * length vs + 2 \<le> k) \<and> (7 \<le> j \<longrightarrow> p \<noteq> e)"
| "cur_inv L head mac e d j k (At p q) \<longleftrightarrow>
     (\<exists>us vs. L @ [head] = us @ p # vs \<and> passed mac e d us \<and> 2 * length vs + 1 \<le> k
       \<and> (p \<noteq> head \<longrightarrow> (\<exists>ws. vs = q # ws \<or> vs = e # q # ws))) \<and> (7 \<le> j \<longrightarrow> p \<noteq> e \<and> q \<noteq> e)"
| "cur_inv L head mac e d j k (Match p) \<longleftrightarrow>
     p \<in> set L \<and> (\<exists>en. d p = Some en \<and> me_mac en = mac) \<and> 1 \<le> k \<and> (7 \<le> j \<longrightarrow> p \<noteq> e)"
| "cur_inv L head mac e d j k (Found i) \<longleftrightarrow> (\<exists>x \<in> set L. \<exists>en. d x = Some en \<and> me_mac en = mac \<and> i = me_iface en)"
| "cur_inv L head mac e d j k Missed \<longleftrightarrow> passed mac e d L"

lemma cur_inv_finished: "cur_inv L head mac e d j 0 c \<Longrightarrow> finished c"
  by (cases c) auto

lemma cur_inv_sweep: "cur_inv L head mac e d j k c \<Longrightarrow> (j = 6 \<longrightarrow> \<not> holds e c) \<Longrightarrow> cur_inv L head mac e d (min 7 (Suc j)) k c"
  by (cases c) (auto simp: min_def not_le split: if_splits)

lemma cur_inv_look:
  assumes dl: "dlist h head L" and e: "e \<in> set L" and l: "link h pe e" "link h e ne" "pe \<noteq> e" "ne \<noteq> e"
    and data: "set L \<subseteq> dom d" and inv: "cur_inv L head mac e d j k c"
  shows "\<exists>c'. look_step head mac (removed e ne pe j h) (if 7 \<le> j then d(e := None) else d) c = Inr c'
    \<and> cur_inv L head mac e d j (k - 1) c'"
proof -
  have hd: "head \<noteq> e" "head \<notin> set L" using dl e by (auto simp: dlist_def)
  have nxt: "\<exists>y. ld_next (removed e ne pe j h) x = Inr y \<and> (7 \<le> j \<longrightarrow> y \<noteq> e)
      \<and> (x = pe \<and> y = ne \<and> 6 \<le> j \<or> link h x y)" if x: "x \<in> set (head # L)" "7 \<le> j \<longrightarrow> x \<noteq> e" for x
  proof -
    obtain y where y: "link h x y" using dlist_next [OF dl x(1)] by blast
    then have "y = e \<longrightarrow> x = pe" using l(1) by (auto simp: link_def)
    then show ?thesis using ld_next_removed [OF l(1-3) x(2)] y ld_link [OF y] l(4) by auto
  qed
  show ?thesis
  proof (cases c)
    case Load_first
    obtain y where y: "ld_next (removed e ne pe j h) head = Inr y" "7 \<le> j \<longrightarrow> y \<noteq> e" "head = pe \<and> y = ne \<and> 6 \<le> j \<or> link h head y"
      using nxt [of head] hd(1) by auto
    have first: "link h head (hd (L @ [head]))" using dl dlist_split [of h head "[]" L] by simp
    obtain z zs where z: "L @ [head] = [] @ z # zs" "length zs = length L" by (cases L) auto
    have zl: "link h head z" using first z(1) by simp
    have "\<exists>us vs. L @ [head] = us @ y # vs \<and> passed mac e d us \<and> 2 * length vs + 2 \<le> k - 1"
      using y(3)
    proof
      assume "link h head y"
      then have "y = z" using zl by (rule link_unique)
      then show ?thesis using z inv Load_first by (intro exI [of _ "[]"] exI [of _ zs]) (auto simp: passed_def)
    next
      assume pe: "head = pe \<and> y = ne \<and> 6 \<le> j"
      then have "z = e" using zl l(1) link_unique(1) by metis
      obtain w ws where "zs = w # ws" "link h e w" using dlist_succ [OF dl z(1)] \<open>z = e\<close> hd(1) by metis
      moreover from this have "w = y" using l(2) pe link_unique(1) by metis
      ultimately show ?thesis using z inv Load_first \<open>z = e\<close>
        by (intro exI [of _ "[e]"] exI [of _ ws]) (auto simp: passed_def)
    qed
    then show ?thesis using Load_first y(1,2) by simp
  next
    case (Load_next p)
    obtain us vs where c: "L @ [head] = us @ p # vs" "passed mac e d us" "2 * length vs + 2 \<le> k" "7 \<le> j \<longrightarrow> p \<noteq> e"
      using inv Load_next by auto
    then have "p \<in> set (L @ [head])" by simp
    then obtain y where y: "ld_next (removed e ne pe j h) p = Inr y" "7 \<le> j \<longrightarrow> y \<noteq> e" "p = pe \<and> y = ne \<and> 6 \<le> j \<or> link h p y"
      using nxt [of p] c(4) by auto
    have "\<exists>ws. vs = y # ws \<or> vs = e # y # ws" if ph: "p \<noteq> head"
    proof -
      obtain z zs where z: "vs = z # zs" "link h p z" by (rule dlist_succ [OF dl c(1) ph])
      show ?thesis
        using y(3)
      proof
        assume "link h p y"
        then show ?thesis using z link_unique(1) by metis
      next
        assume pe: "p = pe \<and> y = ne \<and> 6 \<le> j"
        then have "z = e" using z(2) l(1) link_unique(1) by metis
        then have "L @ [head] = (us @ [p]) @ e # zs" using c(1) z(1) by simp
        then obtain w ws where "zs = w # ws" "link h e w" using dlist_succ [OF dl] hd(1) by metis
        moreover from this have "w = ne" using l(2) link_unique(1) by metis
        ultimately show ?thesis using pe z(1) \<open>z = e\<close> by auto
      qed
    qed
    moreover have "2 * length vs + 1 \<le> k - 1" using c(3) by simp
    ultimately have "cur_inv L head mac e d j (k - 1) (At p y)"
      unfolding cur_inv.simps using c(1,2,4) y(2) by blast
    then show ?thesis by (simp add: Load_next y(1) del: cur_inv.simps)
  next
    case (At p q)
    obtain us vs where c: "L @ [head] = us @ p # vs" "passed mac e d us" "2 * length vs + 1 \<le> k" "7 \<le> j \<longrightarrow> p \<noteq> e \<and> q \<noteq> e"
      "p \<noteq> head \<longrightarrow> (\<exists>ws. vs = q # ws \<or> vs = e # q # ws)"
      using inv At by auto
    show ?thesis
    proof (cases "p = head")
      case True
      have "L @ [head] = us @ [head] @ vs" using c(1) True by simp
      then have "L = us" using hd(2) by (auto simp: append_eq_append_conv2 append_eq_Cons_conv Cons_eq_append_conv)
      then show ?thesis using At True c(2) by simp
    next
      case False
      then have p: "p \<in> set L" using arg_cong [OF c(1), of set] by auto
      then obtain en where en: "d p = Some en" using data by auto
      have here: "(if 7 \<le> j then d(e := None) else d) p = Some en" using en c(4) by simp
      obtain ws where ws: "vs = q # ws \<or> vs = e # q # ws" using c(5) False by blast
      show ?thesis
      proof (cases "me_mac en = mac")
        case True
        then show ?thesis using At here False p en c(3,4) ws by (auto simp: less_eq_Suc_le)
      next
        case neq: False
        have "passed mac e d (us @ [p])" "passed mac e d (us @ [p, e])" using c(2) neq en by (auto simp: passed_def)
        then have "\<exists>us' vs'. L @ [head] = us' @ q # vs' \<and> passed mac e d us' \<and> 2 * length vs' + 2 \<le> k - 1"
          using ws
        proof (elim disjE)
          assume "vs = q # ws"
          then show ?thesis using c(1,3) \<open>passed mac e d (us @ [p])\<close> by (intro exI [of _ "us @ [p]"] exI [of _ ws]) auto
        next
          assume "vs = e # q # ws"
          then show ?thesis using c(1,3) \<open>passed mac e d (us @ [p, e])\<close> by (intro exI [of _ "us @ [p, e]"] exI [of _ ws]) auto
        qed
        then show ?thesis using At here False neq c(4) by simp
      qed
    qed
  next
    case (Match p)
    then show ?thesis using inv data by (auto intro!: bexI [of _ p])
  qed (use inv in auto)
qed

section \<open>Schedules\<close>

text \<open>The state after any considerate schedule.\<close>

definition look_inv :: "addr list \<Rightarrow> addr \<Rightarrow> bytes \<Rightarrow> addr \<Rightarrow> addr \<Rightarrow> addr \<Rightarrow> heap \<Rightarrow> (addr \<rightharpoonup> mac_port_entry_t) \<Rightarrow> nat \<Rightarrow> look_race \<Rightarrow> bool" where
  "look_inv L head mac e ne pe h d k s \<longleftrightarrow> (case s of (c, (j, n, p), h', d') \<Rightarrow>
     j \<le> 7 \<and> h' = removed e ne pe j h \<and> d' = (if 7 \<le> j then d(e := None) else d) \<and> cur_inv L head mac e d j k c
     \<and> (1 \<le> j \<longrightarrow> n = ne) \<and> (2 \<le> j \<longrightarrow> p = pe))"

lemma removed_entry:
  assumes "link h pe e" and "link h e ne"
  shows "removed e ne pe j h e = None \<longleftrightarrow> 7 \<le> j"
proof -
  have "e \<in> dom h" using link_dom [OF assms(1)] by simp
  then have "e \<in> dom (removed e ne pe j h) \<longleftrightarrow> \<not> 7 \<le> j" by simp
  then show ?thesis by (metis domIff)
qed

lemma look_race_step_inv:
  assumes dl: "dlist h head L" "e \<in> set L" and l: "link h pe e" "link h e ne" "pe \<noteq> e" "ne \<noteq> e" and data: "set L \<subseteq> dom d"
    and inv: "look_inv L head mac e ne pe h d k s" and c: "\<not> who \<and> fst (fst (snd s)) = 6 \<longrightarrow> \<not> holds e (fst s)"
  shows "\<exists>s'. look_race_step head mac e who s = Inr s' \<and> look_inv L head mac e ne pe h d (if who then k - 1 else k) s'"
proof -
  obtain cu j n p h' d' where s: "s = (cu, (j, n, p), h', d')" by (cases s) auto
  have i: "j \<le> 7" "h' = removed e ne pe j h" "d' = (if 7 \<le> j then d(e := None) else d)" "cur_inv L head mac e d j k cu"
    "1 \<le> j \<longrightarrow> n = ne" "2 \<le> j \<longrightarrow> p = pe"
    using inv by (simp_all add: look_inv_def s)
  show ?thesis
  proof (cases who)
    case True
    obtain cu' where "look_step head mac h' d' cu = Inr cu'" "cur_inv L head mac e d j (k - 1) cu'"
      using cur_inv_look [OF dl l data i(4)] unfolding i(2,3) by blast
    then have "look_race_step head mac e who s = Inr (cu', (j, n, p), h', d')"
      "look_inv L head mac e ne pe h d (if who then k - 1 else k) (cu', (j, n, p), h', d')"
      using True i by (simp_all add: s look_inv_def)
    then show ?thesis by blast
  next
    case False
    obtain p' where p': "sweep_step e (j, n, p) h' = Inr ((min 7 (Suc j), ne, p'), removed e ne pe (min 7 (Suc j)) h)" "1 \<le> j \<longrightarrow> p' = pe"
      using sweep_step_removed [OF l i(1,5,6)] i(2) by blast
    have "cur_inv L head mac e d (min 7 (Suc j)) k cu" using cur_inv_sweep [OF i(4)] c False by (simp add: s)
    then show ?thesis using False p' i(3) removed_entry [OF l(1,2)] by (auto simp: s look_inv_def)
  qed
qed

lemma look_race_run_inv:
  assumes dl: "dlist h head L" "e \<in> set L" and l: "link h pe e" "link h e ne" "pe \<noteq> e" "ne \<noteq> e" and data: "set L \<subseteq> dom d"
  shows "look_inv L head mac e ne pe h d k s \<Longrightarrow> considerate head mac e sched s \<Longrightarrow>
    \<exists>s'. look_race_run head mac e sched s = Inr s' \<and> look_inv L head mac e ne pe h d (k - count_list sched True) s'"
proof (induction sched arbitrary: s k)
  case (Cons who sched)
  obtain s1 where s1: "look_race_step head mac e who s = Inr s1" "look_inv L head mac e ne pe h d (if who then k - 1 else k) s1"
    using look_race_step_inv [OF dl l data Cons.prems(1), of who] Cons.prems(2) by auto
  then show ?case using Cons.IH [OF s1(2)] Cons.prems(2) by (cases who) (auto simp: look_race_run_def)
qed (simp add: look_race_run_def)

section \<open>Properties\<close>

text \<open>C12. A walk of \<open>lookup_port\<close> over a bucket while an entry of it is unlinked and freed: under every interleaving of their memory
  accesses in which the entry is not freed while the walk still holds a pointer to it, no access fails; the
  walk ends after two reads per entry; what it finds is the interface of an entry of the bucket with the address looked for; and when it
  finds none, no entry but possibly the removed one has this address.\<close>

theorem lookup_race_safe:
  assumes "dlist h head (xs @ e # ys)" and "set (xs @ e # ys) \<subseteq> dom d" and "considerate head mac e sched (look_start h d)"
  shows "\<exists>c b h' d'. look_race_run head mac e sched (look_start h d) = Inr (c, b, h', d')
    \<and> (2 * length (xs @ e # ys) + 3 \<le> count_list sched True \<longrightarrow> finished c)
    \<and> (\<forall>i. c = Found i \<longrightarrow> (\<exists>x \<in> set (xs @ e # ys). \<exists>en. d x = Some en \<and> me_mac en = mac \<and> i = me_iface en))
    \<and> (c = Missed \<longrightarrow> (\<forall>x \<in> set (xs @ ys). \<forall>en. d x = Some en \<longrightarrow> me_mac en \<noteq> mac))"
proof -
  let ?L = "xs @ e # ys" and ?pe = "last (head # xs)" and ?ne = "hd (ys @ [head])"
  have dist: "distinct (head # ?L)" using assms(1) by (simp add: dlist_def)
  have l: "link h ?pe e" "link h e ?ne"
    using assms(1) dlist_split [of h head xs "e # ys"] dlist_split [of h head "xs @ [e]" ys] by auto
  have "?pe \<in> set (head # xs)" "?ne \<in> set (ys @ [head])" by (simp, cases ys, simp_all)
  then have ne: "?pe \<noteq> e" "?ne \<noteq> e" using dist by (auto simp del: last.simps)
  have "look_inv ?L head mac e ?ne ?pe h d (2 * length ?L + 3) (look_start h d)"
    by (simp add: look_inv_def look_start_def removed_def)
  from look_race_run_inv [OF assms(1) _ l ne assms(2) this assms(3)] obtain c b h' d' where
    run: "look_race_run head mac e sched (look_start h d) = Inr (c, b, h', d')"
    "look_inv ?L head mac e ?ne ?pe h d (2 * length ?L + 3 - count_list sched True) (c, b, h', d')" by fastforce
  then obtain j where j: "cur_inv ?L head mac e d j (2 * length ?L + 3 - count_list sched True) c"
    by (cases b) (auto simp: look_inv_def)
  have "finished c" if "2 * length ?L + 3 \<le> count_list sched True"
    using j that cur_inv_finished [of ?L head mac e d j c] by simp
  moreover have "\<exists>x \<in> set ?L. \<exists>en. d x = Some en \<and> me_mac en = mac \<and> i = me_iface en" if "c = Found i" for i
    using j that by simp
  moreover have "\<forall>x \<in> set (xs @ ys). \<forall>en. d x = Some en \<longrightarrow> me_mac en \<noteq> mac" if "c = Missed"
    using j that dist by (auto simp: passed_def)
  ultimately show ?thesis using run(1) by blast
qed

text \<open>Two entries with their data, the walk for the second one, and the removal of the first while the walk is past it.\<close>

definition demo_data :: "addr \<rightharpoonup> mac_port_entry_t" where
  "demo_data = [1 \<mapsto> \<lparr>me_mac = [0, 0, 0, 0, 0, 1], me_iface = demo_iface 7, me_visited = 0\<rparr>,
     2 \<mapsto> \<lparr>me_mac = [0, 0, 0, 0, 0, 2], me_iface = demo_iface 8, me_visited = 0\<rparr>]"

definition demo_walk :: "bool list" where
  "demo_walk = [True, False, False, True, True, False, False, True, False, False, True, False, True, True, True]"

lemma demo_walk_considerate: "considerate 0 [0, 0, 0, 0, 0, 2] 1 demo_walk (look_start demo_heap demo_data)"
  by (simp add: demo_walk_def look_start_def demo_heap_def demo_data_def step_simps ld_next_def ld_prev_def st_next_def st_prev_def free_node_def)

theorem lookup_race_safe_witness:
  "\<exists>b h d. look_race_run 0 [0, 0, 0, 0, 0, 2] 1 demo_walk (look_start demo_heap demo_data) = Inr (Found (demo_iface 8), b, h, d)"
proof -
  have "set ([] @ 1 # [2]) \<subseteq> dom demo_data" by (simp add: demo_data_def)
  then obtain c b h d where run: "look_race_run 0 [0, 0, 0, 0, 0, 2] 1 demo_walk (look_start demo_heap demo_data) = Inr (c, b, h, d)"
    "2 * length ([] @ 1 # [2 :: addr]) + 3 \<le> count_list demo_walk True \<longrightarrow> finished c"
    "\<forall>i. c = Found i \<longrightarrow> (\<exists>x \<in> set ([] @ 1 # [2]). \<exists>en. demo_data x = Some en \<and> me_mac en = [0, 0, 0, 0, 0, 2] \<and> i = me_iface en)"
    "c = Missed \<longrightarrow> (\<forall>x \<in> set ([] @ [2]). \<forall>en. demo_data x = Some en \<longrightarrow> me_mac en \<noteq> [0, 0, 0, 0, 0, 2])"
    using lookup_race_safe [of demo_heap 0 "[]" 1 "[2]" demo_data "[0, 0, 0, 0, 0, 2]" demo_walk]
      demo_heap_dlist(1) demo_walk_considerate by auto
  have "finished c" using run(2) by (simp add: demo_walk_def)
  then have "c = Found (demo_iface 8)" using run(3,4) by (cases c) (auto simp: demo_data_def split: if_splits)
  then show ?thesis using run(1) by blast
qed

lemma walk_alone:
  assumes dl: "dlist h head L"
  shows "L = us @ zs @ e # ys \<Longrightarrow> \<forall>x \<in> set zs. \<exists>en. d x = Some en \<and> me_mac en \<noteq> mac \<Longrightarrow>
    look_race_run head mac entry (replicate (2 * length zs) True @ sched) (Load_next (hd (zs @ [e])), b, h, d)
      = look_race_run head mac entry sched (Load_next e, b, h, d)"
proof (induction zs arbitrary: us)
  case (Cons z zs)
  have z: "z \<noteq> head" using dl Cons.prems(1) by (auto simp: dlist_def)
  have "L @ [head] = us @ z # (zs @ e # ys @ [head])" using Cons.prems(1) by simp
  then obtain y ws where y: "zs @ e # ys @ [head] = y # ws" "link h z y" using dlist_succ [OF dl _ z] by metis
  then have "y = hd (zs @ [e])" by (cases zs) auto
  moreover obtain en where "d z = Some en" "me_mac en \<noteq> mac" using Cons.prems(2) by auto
  ultimately show ?case using Cons.IH [of "us @ [z]"] Cons.prems ld_link [OF y(2)] z by (simp add: look_race_run_def)
qed simp

lemma sweep_steps:
  assumes l: "link h pe e" "link h e ne" "pe \<noteq> e" "ne \<noteq> e"
  shows "j \<le> 7 \<Longrightarrow> \<exists>n p. look_race_run head mac e (replicate j False) (c, (0, 0, 0), h, d)
      = Inr (c, (j, n, p), removed e ne pe j h, if 7 \<le> j then d(e := None) else d)
    \<and> (1 \<le> j \<longrightarrow> n = ne) \<and> (2 \<le> j \<longrightarrow> p = pe)"
proof (induction j)
  case 0
  then show ?case by (simp add: look_race_run_def removed_def)
next
  case (Suc j)
  then obtain n p where n: "look_race_run head mac e (replicate j False) (c, (0, 0, 0), h, d)
      = Inr (c, (j, n, p), removed e ne pe j h, d)" "1 \<le> j \<longrightarrow> n = ne" "2 \<le> j \<longrightarrow> p = pe" by auto
  obtain p' where "sweep_step e (j, n, p) (removed e ne pe j h) = Inr ((Suc j, ne, p'), removed e ne pe (Suc j) h)" "1 \<le> j \<longrightarrow> p' = pe"
    using sweep_step_removed [OF l _ n(2,3)] Suc.prems by auto
  moreover have "replicate (Suc j) False = replicate j False @ [False]" by (simp add: replicate_append_same)
  ultimately show ?case using n(1) removed_entry [OF l(1,2)]
    by (auto simp: look_race_run_def fold_r_append)
qed

text \<open>C11. Without the lock no entry is safe: whatever the bucket and whichever entry is removed, if the address looked for is not that of an
  entry before it, there is a moment (when the walk has just loaded the pointer to the entry) at which the sweeping thread can
  unlink and free the entry so that the next read of \<open>lookup_port\<close> is one of freed memory.\<close>

theorem lookup_race_use_after_free:
  assumes "dlist h head (xs @ e # ys)" and "\<forall>x \<in> set xs. \<exists>en. d x = Some en \<and> me_mac en \<noteq> mac"
  shows "look_race_run head mac e (replicate (2 * length xs + 1) True @ replicate 7 False @ [True]) (look_start h d) = Inl OutOfBounds"
proof -
  let ?pe = "last (head # xs)" and ?ne = "hd (ys @ [head])"
  have dist: "distinct (head # xs @ e # ys)" using assms(1) by (simp add: dlist_def)
  have l: "link h ?pe e" "link h e ?ne" "link h head (hd (xs @ [e]))"
    using assms(1) dlist_split [of h head xs "e # ys"] dlist_split [of h head "xs @ [e]" ys] dlist_split [of h head "[]" "xs @ e # ys"]
    by (auto simp: hd_append)
  have "?pe \<in> set (head # xs)" "?ne \<in> set (ys @ [head])" by (simp, cases ys, simp_all)
  then have ne: "?pe \<noteq> e" "?ne \<noteq> e" using dist by (auto simp del: last.simps)
  obtain n p where s: "look_race_run head mac e (replicate 7 False) (Load_next e, (0, 0, 0), h, d)
      = Inr (Load_next e, (7, n, p), removed e ?ne ?pe 7 h, d(e := None))"
    using sweep_steps [OF l(1,2) ne, of 7 head mac "Load_next e" d] by auto
  have "ld_next (removed e ?ne ?pe 7 h) e = Inl OutOfBounds"
    using removed_entry [OF l(1,2), of 7] by (simp add: ld_next_def)
  then have "look_race_run head mac e (replicate 7 False @ [True]) (Load_next e, (0, 0, 0), h, d) = Inl OutOfBounds"
    using s by (simp add: look_race_run_def fold_r_append)
  then have "look_race_run head mac e (replicate (2 * length xs) True @ replicate 7 False @ [True]) (Load_next (hd (xs @ [e])), (0, 0, 0), h, d)
      = Inl OutOfBounds"
    using walk_alone [OF assms(1), of "[]" xs e ys d mac e "replicate 7 False @ [True]" "(0, 0, 0)"] assms(2) by simp
  then show ?thesis using ld_link [OF l(3)] by (simp add: look_race_run_def look_start_def)
qed

theorem lookup_race_use_after_free_witness:
  "look_race_run 0 [0, 0, 0, 0, 0, 2] 2 ([True, True, True] @ replicate 7 False @ [True]) (look_start demo_heap demo_data) = Inl OutOfBounds"
proof -
  have "replicate (2 * length [1 :: addr] + 1) True = [True, True, True]" by (simp add: numeral_eq_Suc)
  then show ?thesis
    using lookup_race_use_after_free [of demo_heap 0 "[1]" 2 "[]" demo_data "[0, 0, 0, 0, 0, 2]"] demo_heap_dlist(1)
    by (simp add: demo_data_def)
qed

end
