(* ===== verification/Inet.thy ===== *)
theory Inet
  imports Prelude
begin

text \<open>
  The two functions of \<^verbatim>\<open>arpa/inet.h\<close> through which \<^verbatim>\<open>nat_stack\<close> passes
  addresses as text: \<^verbatim>\<open>inet_ntoa\<close> prints the four bytes of an address (as they lie in
  memory) in decimal with dots, \<^verbatim>\<open>inet_addr\<close> reads such a text back, with its other
  notations: octal and hexadecimal numbers, and fewer than four parts, where the last part fills
  the remaining bytes. Trailing white space is not modelled.
\<close>

section \<open>Printing\<close>

definition digit_char :: "nat \<Rightarrow> char" where
  "digit_char d = char_of (48 + d)"

fun dec :: "nat \<Rightarrow> string" where
  "dec n = (if n < 10 then [digit_char n] else dec (n div 10) @ [digit_char (n mod 10)])"

declare dec.simps [simp del]

definition inet_ntoa :: "u32 \<Rightarrow> string" where
  "inet_ntoa a = (case bytes32 a of
     [b0, b1, b2, b3] \<Rightarrow> dec (unat b0) @ ''.'' @ dec (unat b1) @ ''.'' @ dec (unat b2) @ ''.'' @ dec (unat b3)
   | _ \<Rightarrow> [])"

section \<open>Reading\<close>

definition digit_val :: "nat \<Rightarrow> char \<Rightarrow> nat option" where
  "digit_val base c =
     (let n = of_char c :: nat;
          d = (if 48 \<le> n \<and> n \<le> 57 then n - 48
               else if 97 \<le> n \<and> n \<le> 102 then n - 87
               else if 65 \<le> n \<and> n \<le> 70 then n - 55 else 16)
      in if d < base then Some d else None)"

fun digits_val :: "nat \<Rightarrow> nat \<Rightarrow> string \<Rightarrow> nat option" where
  "digits_val base acc [] = Some acc"
| "digits_val base acc (c # cs) =
     (case digit_val base c of None \<Rightarrow> None | Some d \<Rightarrow> digits_val base (base * acc + d) cs)"

definition strtoul0 :: "string \<Rightarrow> nat option" where
  "strtoul0 s = (case s of
     [] \<Rightarrow> None
   | c # cs \<Rightarrow>
       if c = CHR ''0'' then
         (case cs of
            x # ds \<Rightarrow> if (x = CHR ''x'' \<or> x = CHR ''X'') \<and> ds \<noteq> [] then digits_val 16 0 ds else digits_val 8 0 cs
          | [] \<Rightarrow> Some 0)
       else digits_val 10 0 (c # cs))"

fun split_dots :: "string \<Rightarrow> string list" where
  "split_dots [] = [[]]"
| "split_dots (c # cs) =
     (if c = CHR ''.'' then [] # split_dots cs
      else (case split_dots cs of [] \<Rightarrow> [[c]] | p # ps \<Rightarrow> (c # p) # ps))"

definition INADDR_NONE :: u32 where "INADDR_NONE = 0xffffffff"

text \<open>The value of the parts in host order; the last part fills what is left of the four bytes.\<close>

fun parts_val :: "nat \<Rightarrow> nat option list \<Rightarrow> nat option" where
  "parts_val room [] = None"
| "parts_val room [Some v] = (if v < 256 ^ room then Some v else None)"
| "parts_val room (Some v # vs) =
     (if v < 256 \<and> 1 < room then map_option ((+) (v * 256 ^ (room - 1))) (parts_val (room - 1) vs) else None)"
| "parts_val room (None # vs) = None"

definition inet_addr :: "string \<Rightarrow> u32" where
  "inet_addr s = (case parts_val 4 (map strtoul0 (split_dots s)) of
     None \<Rightarrow> INADDR_NONE
   | Some v \<Rightarrow> htonl (of_nat v))"

section \<open>Reading what was printed\<close>

lemma of_digit_char: "d < 10 \<Longrightarrow> of_char (digit_char d) = 48 + d"
  by (simp add: digit_char_def)

lemma digit_val_char: "d < 10 \<Longrightarrow> digit_val 10 (digit_char d) = Some d"
  by (simp add: digit_val_def of_digit_char Let_def)

lemma digit_char_zero: "d < 10 \<Longrightarrow> digit_char d = CHR ''0'' \<longleftrightarrow> d = 0"
  using of_digit_char [of d] of_char_eq_iff [of "digit_char d" "CHR ''0''", where 'a = nat] by simp

lemma digit_char_dot: "d < 10 \<Longrightarrow> digit_char d \<noteq> CHR ''.''"
  using of_digit_char [of d] by auto

lemma digits_val_append:
  "digits_val b acc (xs @ ys) = (case digits_val b acc xs of None \<Rightarrow> None | Some a \<Rightarrow> digits_val b a ys)"
  by (induction b acc xs rule: digits_val.induct) (auto split: option.splits)

lemma digits_val_dec: "digits_val 10 0 (dec n) = Some n"
proof (induction n rule: dec.induct)
  case (1 n)
  then show ?case
    by (subst dec.simps) (simp add: digit_val_char digits_val_append)
qed

lemma dec_cases: "n = 0 \<and> dec n = ''0'' \<or> 0 < n \<and> (\<exists>c cs. dec n = c # cs \<and> c \<noteq> CHR ''0'')"
proof (induction n rule: dec.induct)
  case (1 n)
  show ?case
  proof (cases "n < 10")
    case True
    then show ?thesis using digit_char_zero [of 0]
      by (subst (1 2) dec.simps) (auto simp: digit_char_zero)
  next
    case False
    then show ?thesis using "1.IH" by (subst (1 2) dec.simps) auto
  qed
qed

lemma strtoul0_dec: "strtoul0 (dec n) = Some n"
  using dec_cases [of n] digits_val_dec [of n] by (auto simp: strtoul0_def)

lemma dec_no_dot: "CHR ''.'' \<notin> set (dec n)"
proof (induction n rule: dec.induct)
  case (1 n)
  then show ?case by (subst dec.simps) (auto simp: digit_char_dot dest: sym)
qed

lemma split_dots_end: "CHR ''.'' \<notin> set xs \<Longrightarrow> split_dots xs = [xs]"
  by (induction xs) auto

lemma split_dots_dot: "CHR ''.'' \<notin> set xs \<Longrightarrow> split_dots (xs @ CHR ''.'' # ys) = xs # split_dots ys"
  by (induction xs) auto

lemma le32_sum:
  "le32 b0 b1 b2 b3 = ucast b3 * 256 ^ 3 + (ucast b2 * 256 ^ 2 + (ucast b1 * 256 + ucast b0))"
proof -
  let ?a = "ucast b0 :: u32" and ?b = "push_bit 8 (ucast b1) :: u32"
    and ?c = "push_bit 16 (ucast b2) :: u32" and ?d = "push_bit 24 (ucast b3) :: u32"
  have "?c OR ?d = ?c + ?d"
    by (rule disjunctive_add [symmetric]) (auto simp: bit_simps dest: bit_imp_le_length)
  moreover have "?b OR (?c OR ?d) = ?b + (?c OR ?d)"
    by (rule disjunctive_add [symmetric]) (auto simp: bit_simps dest: bit_imp_le_length)
  moreover have "?a OR (?b OR (?c OR ?d)) = ?a + (?b OR (?c OR ?d))"
    by (rule disjunctive_add [symmetric]) (auto simp: bit_simps dest: bit_imp_le_length)
  ultimately have "le32 b0 b1 b2 b3 = ?a + (?b + (?c + ?d))" by (simp only: le32_def)
  then show ?thesis by (simp add: push_bit_eq_mult algebra_simps)
qed

lemma inet_addr_ntoa: "inet_addr (inet_ntoa a) = a"
proof -
  obtain w x y z where bs: "bytes32 a = [w, x, y, z]" by (simp add: bytes32_def)
  have lt: "unat (v :: u8) < 256" for v using unsigned_less [of v, where 'a = nat] by simp
  have "split_dots (inet_ntoa a) = map (dec \<circ> unat) [w, x, y, z]"
    by (simp add: inet_ntoa_def bs split_dots_dot split_dots_end dec_no_dot)
  then have "inet_addr (inet_ntoa a)
      = htonl (of_nat (unat w * 256 ^ 3 + (unat x * 256 ^ 2 + (unat y * 256 + unat z))))"
    by (simp add: inet_addr_def strtoul0_dec lt)
  also have "of_nat (unat w * 256 ^ 3 + (unat x * 256 ^ 2 + (unat y * 256 + unat z))) = htonl a"
    using bs by (simp add: bytes32_def ntohl_def le32_sum)
  finally show ?thesis by simp
qed

end
