(* ===== verification/NatTable.thy ===== *)
theory NatTable
  imports Headers Hash Inet
begin

text \<open>
  The data of the address translator: \<^verbatim>\<open>nat_stack/include/base.h\<close> and
  \<^verbatim>\<open>include/nat.h\<close>, what the two versions of the translator
  (\<^verbatim>\<open>nat.c\<close>, which the Makefile builds, and the hashed \<^verbatim>\<open>nat_new_2.c\<close>)
  share word for word, and the two contracts both versions are checked against: the pool of
  external ports and the table of mappings.

  Addresses and ports are the values the C variables hold. A field that was copied from a packet
  is in network order, which on a little-endian host is the byte-swapped number; \<open>nat_iface.n_ip\<close>
  is in host order. The static variable \<^verbatim>\<open>nat\<close> is called \<open>nt\<close>.
\<close>

section \<open>Types (base.h, nat.h)\<close>

record nat_iface =
  n_fd :: int
  n_index :: int
  n_mac :: bytes
  n_ip :: u32
  n_mask :: u32
  n_name :: string
  n_ip_str :: string

definition NAT_PORT_MIN :: nat where "NAT_PORT_MIN = 12345"
definition NAT_PORT_MAX :: nat where "NAT_PORT_MAX = 23456"

datatype packet_dir = DIR_IN | DIR_OUT | DIR_INVALID

record nat_connection =
  internal_fin :: u8
  external_fin :: u8
  internal_seq_end :: u32
  external_seq_end :: u32
  internal_ack :: u32
  external_ack :: u32

record nat_mapping =
  internal_ip :: u32
  external_ip :: u32
  internal_port :: u16
  external_port :: u16
  update_time :: time_t
  conn :: nat_connection

type_synonym port_pool_t = "u16 \<Rightarrow> u8"

record nat_table =
  nat_mapping_list :: "nat_mapping list list"
  internal_iface :: "nat_iface option"
  external_iface :: "nat_iface option"
  assigned_ports :: port_pool_t

text \<open>
  What the translator hands to the IP stack it is linked with, and the packets it frees. The
  stack's own functions are not part of the repository.
\<close>

datatype nat_event =
    IpSend bytes nat
  | IcmpSend bytes nat u8 u8
  | ArpPacket "nat_iface option" bytes nat
  | FreePacket bytes

definition conn_zero :: nat_connection where
  "conn_zero = \<lparr>internal_fin = 0, external_fin = 0, internal_seq_end = 0, external_seq_end = 0,
     internal_ack = 0, external_ack = 0\<rparr>"

section \<open>Code the two versions share\<close>

fun if_name_to_iface :: "nat_iface list \<Rightarrow> string \<Rightarrow> nat_iface option" where
  "if_name_to_iface [] if_name = None"
| "if_name_to_iface (iface # ifs) if_name =
     (if n_name iface = if_name then Some iface else if_name_to_iface ifs if_name)"

definition free_port :: "u16 \<Rightarrow> port_pool_t \<Rightarrow> port_pool_t" where
  "free_port port portspool =
     (if NAT_PORT_MIN \<le> unat port \<and> unat port \<le> NAT_PORT_MAX then portspool(port := 0) else portspool)"

text \<open>
  The loop of \<open>nat_table_destroy\<close>: every element of every list is unlinked and freed. The
  mappings that were freed are returned as well.
\<close>

fun destroy_list :: "nat_mapping list \<Rightarrow> nat_mapping list \<times> nat_mapping list" where
  "destroy_list [] = ([], [])"
| "destroy_list (m # ms) = (case destroy_list ms of (left, freed) \<Rightarrow> (left, m # freed))"

definition nat_table_destroy :: "nat_table \<Rightarrow> nat_table \<times> nat_mapping list" where
  "nat_table_destroy nt =
     (let rs = map destroy_list (nat_mapping_list nt)
      in (nt\<lparr>nat_mapping_list := map fst rs\<rparr>, concat (map snd rs)))"

section \<open>The pool of external ports\<close>

text \<open>
  The contract: \<open>assign\<close> hands out the least free port of a range, or the value \<open>none\<close> when there
  is none; \<open>release\<close> gives a port of the range back.
\<close>

text \<open>Successive calls of \<open>assign\<close>, with the ports they return.\<close>

primrec assign_many :: "(port_pool_t \<Rightarrow> u16 \<times> port_pool_t) \<Rightarrow> nat \<Rightarrow> port_pool_t \<Rightarrow> u16 list \<times> port_pool_t" where
  "assign_many assign 0 ports = ([], ports)"
| "assign_many assign (Suc n) ports =
     (case assign ports of (p, ports) \<Rightarrow>
        (case assign_many assign n ports of (ps, ports) \<Rightarrow> (p # ps, ports)))"

locale port_pool =
  fixes assign :: "port_pool_t \<Rightarrow> u16 \<times> port_pool_t"
    and release :: "u16 \<Rightarrow> port_pool_t \<Rightarrow> port_pool_t"
    and lo hi :: nat
    and none :: u16
  assumes hi_16bit: "hi < 2 ^ 16"
    and none_outside: "\<not> (lo \<le> unat none \<and> unat none < hi)"
    and assign_some: "find (\<lambda>i. ports (of_nat i) = 0) [lo..<hi] = Some i \<Longrightarrow>
      assign ports = (of_nat i, ports(of_nat i := 1))"
    and assign_none: "find (\<lambda>i. ports (of_nat i) = 0) [lo..<hi] = None \<Longrightarrow> assign ports = (none, ports)"
    and release_law: "lo \<le> unat p \<Longrightarrow> unat p < hi \<Longrightarrow> release p ports = ports(p := 0)"
begin

lemma unat_of_nat_range: "i < hi \<Longrightarrow> unat (of_nat i :: u16) = i"
  using hi_16bit by (simp add: unat_of_nat)

lemma assign_cases:
  obtains i where "lo \<le> i" "i < hi" "ports (of_nat i) = 0" "\<And>j. lo \<le> j \<Longrightarrow> j < i \<Longrightarrow> ports (of_nat j) \<noteq> 0"
      "assign ports = (of_nat i, ports(of_nat i := 1))"
    | "\<And>j. lo \<le> j \<Longrightarrow> j < hi \<Longrightarrow> ports (of_nat j) \<noteq> 0" "assign ports = (none, ports)"
proof (cases "find (\<lambda>i. ports (of_nat i) = 0) [lo..<hi]")
  case None
  then show thesis using that(2) assign_none by (auto simp: find_None_iff)
next
  case (Some i)
  from Some obtain k where k: "k < length [lo..<hi]" "ports (of_nat ([lo..<hi] ! k)) = 0"
    "i = [lo..<hi] ! k" "\<forall>j<k. ports (of_nat ([lo..<hi] ! j)) \<noteq> 0"
    by (auto simp: find_Some_iff)
  have "ports (of_nat j) \<noteq> 0" if "lo \<le> j" "j < i" for j
    using k(1,3) k(4) [rule_format, of "j - lo"] that by simp
  with k(1-3) show thesis using that(1) [of i] assign_some [OF Some] by simp
qed

lemma assign_fresh:
  assumes "assign ports = (p, ports')" and "p \<noteq> none"
  shows "ports p = 0" "ports' = ports(p := 1)" "lo \<le> unat p" "unat p < hi"
proof -
  obtain i where "lo \<le> i" "i < hi" "ports (of_nat i) = 0" "p = of_nat i" "ports' = ports(of_nat i := 1)"
    using assms by (cases rule: assign_cases [of ports]) auto
  then show "ports p = 0" "ports' = ports(p := 1)" "lo \<le> unat p" "unat p < hi"
    by (simp_all add: unat_of_nat_range)
qed

lemma assign_least:
  assumes "assign ports = (p, ports')" and "p \<noteq> none" and "lo \<le> j" and "j < unat p"
  shows "ports (of_nat j) \<noteq> 0"
  using assms by (cases rule: assign_cases [of ports]) (auto simp: unat_of_nat_range)

lemma assign_none_iff:
  "fst (assign ports) = none \<longleftrightarrow> (\<forall>j. lo \<le> j \<and> j < hi \<longrightarrow> ports (of_nat j) \<noteq> 0)"
proof (cases rule: assign_cases [of ports])
  case (1 i)
  then show ?thesis using none_outside by (auto simp: unat_of_nat_range)
qed auto

lemma assign_none_same: "fst (assign ports) = none \<Longrightarrow> assign ports = (none, ports)"
proof (cases rule: assign_cases [of ports])
  case (1 i)
  moreover assume "fst (assign ports) = none"
  ultimately show ?thesis using none_outside unat_of_nat_range [of i] by auto
qed auto

lemma release_assign:
  assumes "lo \<le> unat p" and "unat p < hi"
  shows "fst (assign (release p ports)) \<noteq> none" "unat (fst (assign (release p ports))) \<le> unat p"
proof -
  let ?q = "release p ports"
  have free: "?q (of_nat (unat p)) = 0" by (simp add: release_law assms)
  then show n: "fst (assign ?q) \<noteq> none" using assms by (auto simp: assign_none_iff)
  then show "unat (fst (assign ?q)) \<le> unat p"
    using assign_least [of ?q "fst (assign ?q)" "snd (assign ?q)" "unat p"] free assms
    by (metis linorder_not_less prod.collapse)
qed

lemma assign_many_from:
  assumes "lo \<le> i" and "i + n \<le> hi"
    and "\<And>j. lo \<le> j \<Longrightarrow> j < hi \<Longrightarrow> ports (of_nat j) = 0 \<longleftrightarrow> i \<le> j"
  shows "fst (assign_many assign n ports) = map of_nat [i..<i + n]
    \<and> (\<forall>j. lo \<le> j \<and> j < hi \<longrightarrow> snd (assign_many assign n ports) (of_nat j) = 0 \<longleftrightarrow> i + n \<le> j)"
  using assms
proof (induction n arbitrary: i ports)
  case (Suc n)
  have eq: "assign ports = (of_nat i, ports(of_nat i := 1))"
  proof (cases rule: assign_cases [of ports])
    case (1 k)
    have "i \<le> k" using 1(1-3) Suc.prems(3) by simp
    moreover have "\<not> i < k" using 1(4) [of i] Suc.prems(1,2) Suc.prems(3) [of i] by auto
    ultimately have "k = i" by simp
    with 1 show ?thesis by simp
  next
    case 2
    then show ?thesis using Suc.prems(1,2) Suc.prems(3) [of i] by auto
  qed
  define p where "p = ports(of_nat i := 1)"
  have inj: "(of_nat j :: u16) = of_nat i \<longleftrightarrow> j = i" if "j < hi" for j
  proof -
    have "i < hi" using Suc.prems(2) by simp
    then show ?thesis using unat_of_nat_range [OF that] unat_of_nat_range [of i] by metis
  qed
  have "p (of_nat j) = 0 \<longleftrightarrow> Suc i \<le> j" if "lo \<le> j" "j < hi" for j
    using Suc.prems(3) [OF that] inj [OF that(2)] by (auto simp: p_def)
  from Suc.IH [of "Suc i" p, OF _ _ this] Suc.prems(1,2)
  have *: "fst (assign_many assign n p) = map of_nat [Suc i..<Suc i + n]"
    "\<forall>j. lo \<le> j \<and> j < hi \<longrightarrow> (snd (assign_many assign n p) (of_nat j) = 0) = (Suc i + n \<le> j)"
    by (simp_all del: upt.simps)
  have "[i..<i + Suc n] = i # [Suc i..<Suc i + n]" by (simp add: upt_conv_Cons del: upt.simps)
  with * show ?case by (simp add: eq p_def [symmetric] case_prod_beta del: upt.simps)
qed simp

text \<open>From an empty pool the whole range comes out in order, and then nothing.\<close>

lemma capacity:
  assumes "lo \<le> hi"
  shows "fst (assign_many assign (hi - lo) (\<lambda>_. 0)) = map of_nat [lo..<hi]"
    "fst (assign (snd (assign_many assign (hi - lo) (\<lambda>_. 0)))) = none"
  using assign_many_from [of lo "hi - lo" "\<lambda>_. 0"] assms by (auto simp: assign_none_iff)

end

section \<open>The table of mappings\<close>

text \<open>
  The contract of the table: \<open>ins\<close> records a new flow under the external port \<open>port\<close> says is next
  (\<open>None\<close> when the pool is empty), \<open>look_int\<close> finds a flow by its internal address and port,
  \<open>look_ext\<close> by its external port.
\<close>

definition open_flow ::
  "(nat_table \<Rightarrow> u32 \<Rightarrow> u16 \<Rightarrow> nat_mapping option) \<Rightarrow> (time_t \<Rightarrow> u32 \<Rightarrow> u16 \<Rightarrow> nat_table \<Rightarrow> nat_table)
    \<Rightarrow> time_t \<times> u32 \<times> u16 \<Rightarrow> nat_table \<Rightarrow> nat_table" where
  "open_flow look_int ins f nt =
     (case f of (now, ip, p) \<Rightarrow> if look_int nt ip p = None then ins now ip p nt else nt)"

locale nat_store =
  fixes inv :: "nat_table \<Rightarrow> bool"
    and look_int :: "nat_table \<Rightarrow> u32 \<Rightarrow> u16 \<Rightarrow> nat_mapping option"
    and look_ext :: "nat_table \<Rightarrow> u16 \<Rightarrow> nat_mapping option"
    and ins :: "time_t \<Rightarrow> u32 \<Rightarrow> u16 \<Rightarrow> nat_table \<Rightarrow> nat_table"
    and port :: "nat_table \<Rightarrow> u16 option"
  assumes inv_ins: "inv nt \<Longrightarrow> inv (ins now ip p nt)"
    and ext_new: "inv nt \<Longrightarrow> port nt = Some q \<Longrightarrow>
      \<exists>m. look_ext (ins now ip p nt) q = Some m \<and> internal_ip m = ip \<and> internal_port m = p"
    and port_fresh: "inv nt \<Longrightarrow> port nt = Some q \<Longrightarrow> look_ext nt q = None"
    and ext_old: "inv nt \<Longrightarrow> look_ext nt q = Some m \<Longrightarrow> look_ext (ins now ip p nt) q = Some m"
    and int_new: "inv nt \<Longrightarrow> port nt = Some q \<Longrightarrow> look_int nt ip p = None \<Longrightarrow>
      \<exists>m. look_int (ins now ip p nt) ip p = Some m \<and> external_port m = q"
    and int_old: "inv nt \<Longrightarrow> look_int nt ip p = Some m \<Longrightarrow> look_int (ins now ip' p' nt) ip p = Some m"
begin

abbreviation opens :: "(time_t \<times> u32 \<times> u16) list \<Rightarrow> nat_table \<Rightarrow> nat_table" where
  "opens \<equiv> fold (open_flow look_int ins)"

lemma opens_inv: "inv nt \<Longrightarrow> inv (opens fs nt)"
  by (induction fs arbitrary: nt) (auto simp: open_flow_def inv_ins)

lemma opens_int: "inv nt \<Longrightarrow> look_int nt ip p = Some m \<Longrightarrow> look_int (opens fs nt) ip p = Some m"
  by (induction fs arbitrary: nt) (auto simp: open_flow_def inv_ins int_old)

lemma opens_ext: "inv nt \<Longrightarrow> look_ext nt q = Some m \<Longrightarrow> look_ext (opens fs nt) q = Some m"
  by (induction fs arbitrary: nt) (auto simp: open_flow_def inv_ins ext_old)

text \<open>
  Round trip: a flow that was opened while a port was free keeps that port whatever is opened
  later, and the port leads back to the flow.
\<close>

lemma reply:
  assumes inv: "inv nt" and free: "port nt = Some q" and new: "look_int nt ip p = None"
  shows "\<exists>m m'. look_int (opens ((now, ip, p) # fs) nt) ip p = Some m \<and> external_port m = q
    \<and> look_ext (opens ((now, ip, p) # fs) nt) q = Some m' \<and> internal_ip m' = ip \<and> internal_port m' = p"
proof -
  let ?nt = "ins now ip p nt"
  have inv': "inv ?nt" using inv by (rule inv_ins)
  obtain m m' where "look_int ?nt ip p = Some m" "external_port m = q"
    "look_ext ?nt q = Some m'" "internal_ip m' = ip" "internal_port m' = p"
    using int_new [OF inv free new] ext_new [OF inv free] by blast
  then show ?thesis using opens_int [OF inv'] opens_ext [OF inv'] new by (auto simp: open_flow_def)
qed

text \<open>Flows opened at different times get different external ports.\<close>

lemma ports_differ:
  assumes inv: "inv nt" and free: "port nt = Some q" and new: "look_int nt ip p = None"
    and later: "port (opens ((now, ip, p) # fs) nt) = Some q'"
  shows "q' \<noteq> q"
proof
  assume "q' = q"
  moreover have "look_ext (opens ((now, ip, p) # fs) nt) q' = None"
    by (rule port_fresh [OF opens_inv [OF inv] later])
  ultimately show False using reply [OF inv free new, of now fs] by auto
qed

end

lemma empty_lists: "replicate HASH_8BITS x = x # replicate 255 x"
  by (simp add: HASH_8BITS_def numeral_eq_Suc)

section \<open>A concrete table and concrete packets\<close>

definition demo_ip :: "nat \<Rightarrow> nat \<Rightarrow> nat \<Rightarrow> nat \<Rightarrow> u32" where
  "demo_ip a b c d = le32 (of_nat a) (of_nat b) (of_nat c) (of_nat d)"

definition demo_ext :: nat_iface where
  "demo_ext = \<lparr>n_fd = 4, n_index = 3, n_mac = replicate 6 2, n_ip = ntohl (demo_ip 159 226 39 43),
     n_mask = 0xffffff00, n_name = ''n1-eth1'', n_ip_str = ''159.226.39.43''\<rparr>"

definition demo_int :: nat_iface where
  "demo_int = \<lparr>n_fd = 3, n_index = 2, n_mac = replicate 6 1, n_ip = ntohl (demo_ip 10 21 0 254),
     n_mask = 0xffffff00, n_name = ''n1-eth0'', n_ip_str = ''10.21.0.254''\<rparr>"

definition demo_nat :: nat_table where
  "demo_nat = \<lparr>nat_mapping_list = replicate HASH_8BITS [], internal_iface = Some demo_int,
     external_iface = Some demo_ext, assigned_ports = (\<lambda>_. 0)\<rparr>"

text \<open>A TCP segment without data.\<close>

definition demo_tcp :: "u32 \<Rightarrow> u32 \<Rightarrow> u16 \<Rightarrow> u16 \<Rightarrow> bytes" where
  "demo_tcp src dst sport dport = replicate 12 7 @ [8, 0] @ [0x45, 0, 0, 40, 0, 0, 0, 0, 64, 6, 0, 0]
     @ bytes32 src @ bytes32 dst @ bytes16 sport @ bytes16 dport @ replicate 16 0"

definition demo_syn :: bytes where
  "demo_syn = demo_tcp (demo_ip 10 21 0 1) (demo_ip 159 226 39 123) (htons 50000) (htons 80)"

definition demo_reply :: bytes where
  "demo_reply = demo_tcp (demo_ip 159 226 39 123) (demo_ip 159 226 39 43) (htons 80) (htons 12345)"

definition demo_syn2 :: bytes where
  "demo_syn2 = demo_tcp (demo_ip 10 21 0 2) (demo_ip 159 226 39 123) (htons 50000) (htons 80)"

lemmas hdr_defs = tcp_packet_def ip_hdr_len_def tcp_off_def tcp_seg_len_def get16_def get32_def
  bytes16_def bytes32_def ntohs_def le16_def ip_saddr_def ip_daddr_def tcp_sport_def tcp_dport_def

lemma demo_syn_bytes: "demo_syn =
  [7, 7, 7, 7, 7, 7, 7, 7, 7, 7, 7, 7, 8, 0, 0x45,0,0,40,0,0,0,0,64,6,0,0,
   10,21,0,1,159,226,39,123,195,80,0,80,0,0,0,0,0,0,0,0,0,0,0,0,0,0,0,0]"
  by code_simp

lemma demo_reply_bytes: "demo_reply =
  [7, 7, 7, 7, 7, 7, 7, 7, 7, 7, 7, 7, 8, 0, 0x45,0,0,40,0,0,0,0,64,6,0,0,
   159,226,39,123,159,226,39,43,0,80,48,57,0,0,0,0,0,0,0,0,0,0,0,0,0,0,0,0]"
  by code_simp

lemma demo_packets: "tcp_packet demo_syn" "demo_syn ! 23 = IPPROTO_TCP"
  "tcp_packet demo_reply" "demo_reply ! 23 = IPPROTO_TCP" "length demo_syn = 54" "length demo_reply = 54"
  "tcp_off demo_syn = 34" "tcp_seg_len demo_syn = 20"
  unfolding demo_syn_bytes demo_reply_bytes by (simp_all add: hdr_defs IPPROTO_TCP_def)

lemma demo_sum_fits: "tcp_total demo_syn < 2 ^ 32"
proof -
  have "word_sum (put16 demo_syn 50 0) 34 10 \<le> 65535 * 10" by (rule word_sum_bound)
  moreover have "unat (get32 demo_syn 26) + unat (get32 demo_syn 30) + unat (htons (ucast (demo_syn ! 23)))
      + unat (htons (ntohs (get16 demo_syn 16) - of_nat (ip_hdr_len demo_syn))) \<le> 2083066280"
    unfolding demo_syn_bytes by (simp add: hdr_defs le32_def)
  ultimately show ?thesis by (simp add: tcp_total_def demo_packets)
qed

section \<open>Carries that are lost\<close>

text \<open>The last octet of an address is the highest byte of the word that is added.\<close>

lemma last_octets_total: "2 ^ 24 * (unat (p ! 29) + unat (p ! 33)) \<le> tcp_total p"
proof -
  have "256 * unat (p ! Suc i) \<le> unat (get16 p i)" for i
  proof -
    have "get16 p i = ucast (p ! i) + push_bit 8 (ucast (p ! Suc i))"
      unfolding get16_def le16_def by (subst disjunctive_add) (auto simp: bit_simps dest: bit_imp_le_length)
    moreover have "unat (p ! j) < 256" for j using unsigned_less [of "p ! j", where 'a = nat] by simp
    from this [of i] this [of "Suc i"] have "unat (p ! i) + unat (p ! Suc i) * 256 < 65536" by linarith
    ultimately show ?thesis by (simp add: push_bit_eq_mult unat_word_ariths)
  qed
  from this [of 28] this [of 32] show ?thesis by (simp add: tcp_total_def unat_get32)
qed

text \<open>Two packets of 40 bytes, from 10.0.0.200 to 10.0.0.100 and one whose sum fits.\<close>

definition demo_wrap :: bytes where
  "demo_wrap = demo_tcp (demo_ip 10 0 0 200) (demo_ip 10 0 0 100) (htons 50000) (htons 80)"

lemma demo_wrap_packet: "tcp_packet demo_wrap" "even (tcp_seg_len demo_wrap)" "256 \<le> unat (demo_wrap ! 29) + unat (demo_wrap ! 33)"
  by code_simp+

text \<open>C29. \<open>tcp_checksum\<close> adds the two addresses, the rest of the pseudo header and the segment in 32 bits and loses the
  carries: on a packet with complete headers and a segment of even length, the checksum it
  gives is one that a receiver accepts exactly when the sum stays below \<open>2\<^sup>3\<^sup>2\<close>. An address is added as a
  little-endian word, so the checksum is always wrong when the last octets of the two addresses add up to 256 or
  more. The IP checksum is always right.\<close>

theorem tcp_checksum_loses_carry:
  assumes "tcp_packet p" and "even (tcp_seg_len p)"
  shows "\<exists>p'. update_checksums p 14 (tcp_off p) = Inr p' \<and> ip_checksum_valid p'
    \<and> (tcp_checksum_valid p' \<longleftrightarrow> tcp_total p < 2 ^ 32)
    \<and> (256 \<le> unat (p ! 29) + unat (p ! 33) \<longrightarrow> \<not> tcp_checksum_valid p')"
proof -
  obtain p' where "update_checksums p 14 (tcp_off p) = Inr p'" "resummed p p'"
    using update_checksums_resummed [OF assms(1)] by blast
  moreover have "\<not> tcp_total p < 2 ^ 32" if "256 \<le> unat (p ! 29) + unat (p ! 33)"
    using last_octets_total [of p] that by simp
  ultimately show ?thesis using assms(2) by (auto simp: resummed_def tcp_sum_fits_def)
qed

theorem tcp_checksum_loses_carry_witness:
  "(\<exists>p'. update_checksums demo_wrap 14 (tcp_off demo_wrap) = Inr p' \<and> ip_checksum_valid p' \<and> \<not> tcp_checksum_valid p')
   \<and> (\<exists>p'. update_checksums demo_syn 14 (tcp_off demo_syn) = Inr p' \<and> ip_checksum_valid p' \<and> tcp_checksum_valid p')"
  using tcp_checksum_loses_carry [OF demo_wrap_packet(1,2)] demo_wrap_packet(3)
    tcp_checksum_loses_carry [OF demo_packets(1)] demo_packets(8) demo_sum_fits by auto

end
