(* ===== verification/NatHash.thy ===== *)
theory NatHash
  imports NatTable
begin

text \<open>
  \<^verbatim>\<open>nat_stack/nat_new_2.c\<close>, the version of the translator that uses the hash table. A
  mapping is stored twice: in the list its internal address and port hash to, and a copy in the list its external
  address and port hash to. A pointer to a mapping is its place, the index of the list and the
  position in it: lists only grow at the end while such a pointer is held. The functions carry the suffix \<open>_h\<close>;
  those that are the same text as in \<^verbatim>\<open>nat.c\<close> (\<open>nat_hash\<close>, \<open>if_name_to_iface\<close>,
  \<open>free_port\<close>, \<open>nat_table_destroy\<close>) are shared.
\<close>

section \<open>Definitions\<close>

type_synonym mapping_ref = "nat \<times> nat"

definition is_flow_finished_h :: "nat_connection \<Rightarrow> int" where
  "is_flow_finished_h c =
     (if external_fin c = 1 \<and> internal_fin c = 1 \<and> external_ack c = internal_seq_end c + 1
        \<and> internal_ack c = external_seq_end c + 1 then 1 else 0)"

text \<open>The search loop over one list, from position \<open>i\<close> on.\<close>

fun find_pos :: "(nat_mapping \<Rightarrow> bool) \<Rightarrow> nat \<Rightarrow> nat_mapping list \<Rightarrow> nat option" where
  "find_pos P i [] = None"
| "find_pos P i (m # ms) = (if P m then Some i else find_pos P (i + 1) ms)"

definition nat_lookup_external_h :: "nat_table \<Rightarrow> u16 \<Rightarrow> mapping_ref option result" where
  "nat_lookup_external_h nt port =
     bind_r (deref (external_iface nt)) (\<lambda>ext.
     bind_r (nat_hash (n_ip ext) port) (\<lambda>v.
     let val = v mod HASH_8BITS in
     Inr (map_option (Pair val) (find_pos (\<lambda>m. external_port m = port) 0 (nat_mapping_list nt ! val)))))"

definition nat_lookup_internal_h :: "nat_table \<Rightarrow> u32 \<Rightarrow> u16 \<Rightarrow> mapping_ref option result" where
  "nat_lookup_internal_h nt ip port =
     bind_r (nat_hash ip port) (\<lambda>v.
     let val = v mod HASH_8BITS in
     Inr (map_option (Pair val)
       (find_pos (\<lambda>m. internal_ip m = ip \<and> internal_port m = port) 0 (nat_mapping_list nt ! val))))"

text \<open>Here \<open>i\<close> is a \<open>u16\<close> and the range includes \<open>NAT_PORT_MAX\<close>; \<open>port\<close> stays 0 when nothing is free.\<close>

function assign_loop_h :: "u16 \<Rightarrow> port_pool_t \<Rightarrow> u16 \<times> port_pool_t" where
  "assign_loop_h i ports =
     (if unat i \<le> NAT_PORT_MAX
      then if ports i = 0 then (i, ports(i := 1)) else assign_loop_h (i + 1) ports
      else (0, ports))"
  by auto
termination
proof (relation "measure (\<lambda>(i, _). NAT_PORT_MAX + 1 - unat i)")
  fix i :: u16 and ports :: port_pool_t
  assume i: "unat i \<le> NAT_PORT_MAX"
  then have "unat (i + 1) = unat i + 1"
    by (simp add: NAT_PORT_MAX_def unat_word_ariths)
  with i show "((i + 1, ports), i, ports) \<in> measure (\<lambda>(i, _). NAT_PORT_MAX + 1 - unat i)" by simp
qed simp

declare assign_loop_h.simps [simp del]

definition assign_external_port_h :: "port_pool_t \<Rightarrow> u16 \<times> port_pool_t" where
  "assign_external_port_h ports = assign_loop_h (of_nat NAT_PORT_MIN) ports"

definition upd_ref :: "mapping_ref \<Rightarrow> (nat_mapping \<Rightarrow> nat_mapping) \<Rightarrow> nat_mapping list list \<Rightarrow> nat_mapping list list" where
  "upd_ref r f ls = (case r of (b, i) \<Rightarrow> ls[b := (ls ! b)[i := f (ls ! b ! i)]])"

definition at_ref :: "mapping_ref \<Rightarrow> nat_mapping list list \<Rightarrow> nat_mapping" where
  "at_ref r ls = (case r of (b, i) \<Rightarrow> ls ! b ! i)"

definition add_tail :: "nat_mapping \<Rightarrow> nat \<Rightarrow> nat_mapping list list \<Rightarrow> nat_mapping list list" where
  "add_tail m b ls = ls[b := ls ! b @ [m]]"

text \<open>The copy is never given a time: its \<open>update_time\<close> stays 0 until a packet finds it.\<close>

definition nat_insert_mapping_h ::
  "time_t \<Rightarrow> u32 \<Rightarrow> u16 \<Rightarrow> nat_table \<Rightarrow> (mapping_ref \<times> nat_table) result" where
  "nat_insert_mapping_h now ip port nt =
     bind_r (deref (external_iface nt)) (\<lambda>ext.
     case assign_external_port_h (assigned_ports nt) of (p, ports) \<Rightarrow>
     let m = \<lparr>internal_ip = ip, external_ip = n_ip ext, internal_port = port, external_port = htons p,
              update_time = 0, conn = conn_zero\<rparr> in
     bind_r (nat_hash ip port) (\<lambda>nv.
     let new_val = nv mod HASH_8BITS;
         ref = (new_val, length (nat_mapping_list nt ! new_val));
         ls = add_tail m new_val (nat_mapping_list nt);
         copy = \<lparr>internal_ip = internal_ip m, external_ip = external_ip m, internal_port = internal_port m,
                 external_port = external_port m, update_time = 0, conn = conn_zero\<rparr> in
     bind_r (nat_hash (external_ip copy) (external_port copy)) (\<lambda>v.
     let ls = add_tail copy (v mod HASH_8BITS) ls;
         ls = upd_ref ref (\<lambda>m. m\<lparr>update_time := now\<rparr>) ls in
     Inr (ref, nt\<lparr>assigned_ports := ports, nat_mapping_list := ls\<rparr>))))"

definition get_packet_direction_h :: "nat_table \<Rightarrow> bytes \<Rightarrow> packet_dir result" where
  "get_packet_direction_h nt packet =
     bind_r (rd32 packet (packet_to_ip_hdr + 16)) (\<lambda>d.
     bind_r (deref (external_iface nt)) (\<lambda>ext.
     Inr (if ntohl d = n_ip ext then DIR_IN else DIR_OUT)))"

definition nat_update_tcp_connection_h :: "bytes \<Rightarrow> packet_dir \<Rightarrow> nat_mapping \<Rightarrow> nat_mapping result" where
  "nat_update_tcp_connection_h packet dir m =
     bind_r (packet_to_tcp_hdr packet) (\<lambda>tcp_hdr.
     if dir = DIR_INVALID then Inr m else
     bind_r (rd8 packet (tcp_hdr + 13)) (\<lambda>flags.
     bind_r (rd32 packet (tcp_hdr + 4)) (\<lambda>seq.
     bind_r (rd32 packet (tcp_hdr + 8)) (\<lambda>ack.
     Inr (m\<lparr>conn := (if dir = DIR_IN
       then (conn m)\<lparr>external_fin := flags AND TCP_FIN, external_seq_end := seq, external_ack := ack\<rparr>
       else (conn m)\<lparr>internal_fin := flags AND TCP_FIN, internal_seq_end := seq, internal_ack := ack\<rparr>)\<rparr>)))))"

definition nat_get_mapping_from_packet_h ::
  "time_t \<Rightarrow> bytes \<Rightarrow> packet_dir \<Rightarrow> nat_table \<Rightarrow> (mapping_ref option \<times> nat_table) result" where
  "nat_get_mapping_from_packet_h now packet dir nt =
     bind_r (packet_to_tcp_hdr packet) (\<lambda>tcp_hdr.
     bind_r (rd16 packet (tcp_hdr + 2)) (\<lambda>des_port.
     bind_r (rd16 packet tcp_hdr) (\<lambda>src_port.
     bind_r (rd32 packet (packet_to_ip_hdr + 12)) (\<lambda>ip.
     if dir = DIR_IN then
       bind_r (nat_lookup_external_h nt des_port) (\<lambda>r. Inr (r, nt))
     else
       bind_r (nat_lookup_internal_h nt ip src_port) (\<lambda>r.
         case r of
           Some ref \<Rightarrow> Inr (Some ref, nt)
         | None \<Rightarrow> bind_r (nat_insert_mapping_h now ip src_port nt) (\<lambda>(ref, nt). Inr (Some ref, nt)))))))"

text \<open>
  \<open>mapping_entry\<close> may be null in the second branch, for an inbound packet without a mapping; its
  \<open>external_port\<close> is read there.
\<close>

definition do_translation_h ::
  "time_t \<Rightarrow> bytes \<Rightarrow> nat \<Rightarrow> packet_dir \<Rightarrow> nat_table \<Rightarrow> nat_event list \<Rightarrow> (nat_table \<times> nat_event list) result" where
  "do_translation_h now packet len dir nt out =
     bind_r (packet_to_tcp_hdr packet) (\<lambda>tcp_hdr.
     bind_r (deref (external_iface nt)) (\<lambda>ext.
     let NAT_ip = inet_addr (n_ip_str ext) in
     bind_r (rd32 packet (packet_to_ip_hdr + 12)) (\<lambda>srcip.
     bind_r (rd16 packet tcp_hdr) (\<lambda>srcport.
     bind_r (nat_get_mapping_from_packet_h now packet dir nt) (\<lambda>(mapping_entry, nt).
     bind_r
       (if dir = DIR_IN \<and> mapping_entry \<noteq> None then
          bind_r (deref mapping_entry) (\<lambda>r.
          bind_r (wr32 packet (packet_to_ip_hdr + 16) (internal_ip (at_ref r (nat_mapping_list nt)))) (\<lambda>packet.
          wr16 packet (tcp_hdr + 2) (internal_port (at_ref r (nat_mapping_list nt)))))
        else
          bind_r (wr32 packet (packet_to_ip_hdr + 12) NAT_ip) (\<lambda>packet.
          bind_r (deref mapping_entry) (\<lambda>r.
          wr16 packet tcp_hdr (external_port (at_ref r (nat_mapping_list nt))))))
       (\<lambda>packet.
     bind_r (update_checksums packet packet_to_ip_hdr tcp_hdr) (\<lambda>packet.
     bind_r (deref mapping_entry) (\<lambda>r.
       Inr (nt\<lparr>nat_mapping_list := upd_ref r (\<lambda>m. m\<lparr>update_time := now\<rparr>) (nat_mapping_list nt)\<rparr>,
            out @ [IpSend packet len])))))))))"

definition nat_translate_packet_h ::
  "time_t \<Rightarrow> bytes \<Rightarrow> nat \<Rightarrow> nat_table \<Rightarrow> nat_event list \<Rightarrow> (nat_table \<times> nat_event list) result" where
  "nat_translate_packet_h now packet len nt out =
     bind_r (get_packet_direction_h nt packet) (\<lambda>dir.
     if dir = DIR_INVALID then
       Inr (nt, out @ [IcmpSend packet len ICMP_DEST_UNREACH ICMP_HOST_UNREACH, FreePacket packet])
     else bind_r (rd8 packet (packet_to_ip_hdr + 9)) (\<lambda>proto.
       if proto \<noteq> IPPROTO_TCP then Inr (nt, out @ [FreePacket packet])
       else do_translation_h now packet len dir nt out))"

fun timeout_list_h :: "time_t \<Rightarrow> nat_mapping list \<Rightarrow> port_pool_t \<Rightarrow> nat_mapping list \<times> port_pool_t" where
  "timeout_list_h now [] ports = ([], ports)"
| "timeout_list_h now (m # ms) ports =
     (if is_flow_finished_h (conn m) \<noteq> 0 \<or> 60 \<le> update_time m - now
      then timeout_list_h now ms (free_port (external_port m) ports)
      else (case timeout_list_h now ms ports of (ms, ports) \<Rightarrow> (m # ms, ports)))"

fun timeout_lists_h :: "time_t \<Rightarrow> nat_mapping list list \<Rightarrow> port_pool_t \<Rightarrow> nat_mapping list list \<times> port_pool_t" where
  "timeout_lists_h now [] ports = ([], ports)"
| "timeout_lists_h now (l # ls) ports =
     (case timeout_list_h now l ports of (l, ports) \<Rightarrow>
        (case timeout_lists_h now ls ports of (ls, ports) \<Rightarrow> (l # ls, ports)))"

definition nat_timeout_h :: "time_t \<Rightarrow> nat_table \<Rightarrow> nat_table" where
  "nat_timeout_h now nt =
     (case timeout_lists_h now (nat_mapping_list nt) (assigned_ports nt) of (ls, ports) \<Rightarrow>
        nt\<lparr>nat_mapping_list := ls, assigned_ports := ports\<rparr>)"

definition nat_table_init_h :: "nat_iface list \<Rightarrow> nat_table result" where
  "nat_table_init_h ifs =
     (let int = if_name_to_iface ifs ''n1-eth0'';
          ext = if_name_to_iface ifs ''n1-eth1''
      in if int = None \<or> ext = None then Inl (Exit 1)
         else Inr \<lparr>nat_mapping_list = replicate HASH_8BITS [], internal_iface = int,
                   external_iface = ext, assigned_ports = (\<lambda>_. 0)\<rparr>)"

section \<open>The port pool\<close>

lemma assign_loop_h_find:
  "unat i \<le> NAT_PORT_MAX + 1 \<Longrightarrow> assign_loop_h i ports =
     (case find (\<lambda>j. ports (of_nat j) = 0) [unat i..<NAT_PORT_MAX + 1] of
        Some j \<Rightarrow> (of_nat j, ports(of_nat j := 1))
      | None \<Rightarrow> (0, ports))"
proof (induction i ports rule: assign_loop_h.induct)
  case (1 i ports)
  show ?case
  proof (cases "unat i \<le> NAT_PORT_MAX")
    case True
    then have "unat (i + 1) = unat i + 1" by (simp add: NAT_PORT_MAX_def unat_word_ariths)
    moreover have "[unat i..<NAT_PORT_MAX + 1] = unat i # [unat i + 1..<NAT_PORT_MAX + 1]"
      using True by (simp add: upt_conv_Cons del: upt_Suc)
    ultimately show ?thesis using True 1
      by (subst assign_loop_h.simps) (simp del: upt_Suc)
  next
    case False
    with "1.prems" show ?thesis by (subst assign_loop_h.simps) simp
  qed
qed

lemma port_range_h: "NAT_PORT_MIN \<le> NAT_PORT_MAX + 1" "NAT_PORT_MAX + 1 - NAT_PORT_MIN = 11112"
  "NAT_PORT_MAX + 1 < 2 ^ 16" "unat (of_nat NAT_PORT_MIN :: u16) = NAT_PORT_MIN"
  by (simp_all add: NAT_PORT_MIN_def NAT_PORT_MAX_def)

interpretation pool_h: port_pool assign_external_port_h free_port NAT_PORT_MIN "NAT_PORT_MAX + 1" 0
proof
  show "assign_external_port_h ports = (of_nat i, ports(of_nat i := 1))"
    if "find (\<lambda>i. ports (of_nat i) = 0) [NAT_PORT_MIN..<NAT_PORT_MAX + 1] = Some i" for ports i
    using that port_range_h(1,4) by (simp add: assign_external_port_h_def assign_loop_h_find del: upt_Suc)
  show "assign_external_port_h ports = (0, ports)"
    if "find (\<lambda>i. ports (of_nat i) = 0) [NAT_PORT_MIN..<NAT_PORT_MAX + 1] = None" for ports
    using that port_range_h(1,4) by (simp add: assign_external_port_h_def assign_loop_h_find del: upt_Suc)
qed (auto simp: NAT_PORT_MIN_def NAT_PORT_MAX_def free_port_def)

text \<open>C31. The pool of \<open>nat_new_2.c\<close>: starting empty, 11112 calls return all the ports from 12345 to
  23456 in order, \<open>NAT_PORT_MAX\<close> included, and the next call returns 0.\<close>

theorem assign_external_port_h_capacity:
  "fst (assign_many assign_external_port_h 11112 (\<lambda>_. 0)) = map of_nat [12345..<23457]
   \<and> fst (assign_external_port_h (snd (assign_many assign_external_port_h 11112 (\<lambda>_. 0)))) = 0"
proof -
  have "NAT_PORT_MAX + 1 = 23457" "NAT_PORT_MIN = 12345" by (simp_all add: NAT_PORT_MIN_def NAT_PORT_MAX_def)
  then show ?thesis using pool_h.capacity [OF port_range_h(1), unfolded port_range_h(2)] by (metis)
qed

section \<open>The table\<close>

definition hash_idx :: "u32 \<Rightarrow> u16 \<Rightarrow> nat" where
  "hash_idx ip p = unat (xor_bytes (bytes32 ip) XOR xor_bytes (bytes16 p))"

lemma nat_hash_idx: "nat_hash ip p = Inr (hash_idx ip p)" "hash_idx ip p < HASH_8BITS"
  using nat_hash_bound [of ip p] by (auto simp: nat_hash_eq hash_idx_def)

lemma find_pos_find:
  "find P l = map_option (\<lambda>j. l ! (j - i)) (find_pos P i l)
   \<and> (\<forall>j. find_pos P i l = Some j \<longrightarrow> i \<le> j \<and> j < i + length l)"
proof (induction P i l rule: find_pos.induct)
  case (2 P i m ms)
  then show ?case by (cases "find_pos P (i + 1) ms") (auto simp: nth_Cons' Suc_diff_le)
qed simp

definition nat_find_ext_h :: "nat_table \<Rightarrow> u16 \<Rightarrow> nat_mapping option" where
  "nat_find_ext_h nt q =
     find (\<lambda>m. external_port m = q) (nat_mapping_list nt ! hash_idx (n_ip (the (external_iface nt))) q)"

definition nat_find_int_h :: "nat_table \<Rightarrow> u32 \<Rightarrow> u16 \<Rightarrow> nat_mapping option" where
  "nat_find_int_h nt ip p =
     find (\<lambda>m. internal_ip m = ip \<and> internal_port m = p) (nat_mapping_list nt ! hash_idx ip p)"

text \<open>A pointer of the table, and the mapping it points to.\<close>

definition valid_ref :: "nat_table \<Rightarrow> mapping_ref \<Rightarrow> bool" where
  "valid_ref nt r \<longleftrightarrow> fst r < length (nat_mapping_list nt) \<and> snd r < length (nat_mapping_list nt ! fst r)"

text \<open>
  The invariant: 256 lists, every external port in use is marked in the pool (0 stands for an
  exhausted pool), mappings with the same external port belong to the same flow, and the two forms
  of the address of the external interface agree.
\<close>

definition port_in_use_h :: "port_pool_t \<Rightarrow> u16 \<Rightarrow> bool" where
  "port_in_use_h ports q \<longleftrightarrow> NAT_PORT_MIN \<le> unat (ntohs q) \<and> unat (ntohs q) \<le> NAT_PORT_MAX \<and> ports (ntohs q) \<noteq> 0"

definition mappings :: "nat_table \<Rightarrow> nat_mapping set" where
  "mappings nt = set (concat (nat_mapping_list nt))"

definition nat_inv_h :: "nat_table \<Rightarrow> bool" where
  "nat_inv_h nt \<longleftrightarrow>
     external_iface nt \<noteq> None \<and> length (nat_mapping_list nt) = HASH_8BITS
     \<and> inet_addr (n_ip_str (the (external_iface nt))) = htonl (n_ip (the (external_iface nt)))
     \<and> (\<forall>m \<in> mappings nt. external_port m = 0 \<or> port_in_use_h (assigned_ports nt) (external_port m))
     \<and> (\<forall>m \<in> mappings nt. \<forall>m' \<in> mappings nt.
          external_port m = external_port m' \<and> external_port m \<noteq> 0 \<longrightarrow>
          internal_ip m = internal_ip m' \<and> internal_port m = internal_port m')"

definition nat_add_h :: "time_t \<Rightarrow> u32 \<Rightarrow> u16 \<Rightarrow> nat_table \<Rightarrow> nat_table" where
  "nat_add_h now ip p nt = (case nat_insert_mapping_h now ip p nt of Inl _ \<Rightarrow> nt | Inr (r, nt') \<Rightarrow> nt')"

definition nat_next_port_h :: "nat_table \<Rightarrow> u16 option" where
  "nat_next_port_h nt =
     (let p = fst (assign_external_port_h (assigned_ports nt)) in if p = 0 then None else Some (htons p))"

lemma ntohs_0 [simp]: "ntohs 0 = 0"
  by code_simp

lemma ntohs_eq_0 [simp]: "ntohs p = 0 \<longleftrightarrow> p = 0"
  using ntohs_inj [of p 0] by simp

lemma nth_add_tail:
  "b < length ls \<Longrightarrow> add_tail m b ls ! c = (if c = b then ls ! b @ [m] else ls ! c)"
  "length (add_tail m b ls) = length ls"
  by (auto simp: add_tail_def nth_list_update)

lemma nth_upd_ref:
  "fst r < length ls \<Longrightarrow> upd_ref r f ls ! c =
     (if c = fst r then (ls ! c)[snd r := f (ls ! c ! snd r)] else ls ! c)"
  "length (upd_ref r f ls) = length ls"
  by (auto simp: upd_ref_def nth_list_update split: prod.split)

text \<open>What an insertion does to every list.\<close>

lemma nat_insert_h_eq:
  assumes inv: "nat_inv_h nt"
  obtains m copy q ports where
    "nat_insert_mapping_h now ip p nt
      = Inr ((hash_idx ip p, length (nat_mapping_list nt ! hash_idx ip p)), nat_add_h now ip p nt)"
    "assign_external_port_h (assigned_ports nt) = (q, ports)"
    "assigned_ports (nat_add_h now ip p nt) = ports"
    "external_iface (nat_add_h now ip p nt) = external_iface nt"
    "length (nat_mapping_list (nat_add_h now ip p nt)) = HASH_8BITS"
    "\<And>c. nat_mapping_list (nat_add_h now ip p nt) ! c = nat_mapping_list nt ! c
       @ (if c = hash_idx ip p then [m] else [])
       @ (if c = hash_idx (n_ip (the (external_iface nt))) (htons q) then [copy] else [])"
    "internal_ip m = ip" "internal_port m = p" "external_port m = htons q"
    "internal_ip copy = ip" "internal_port copy = p" "external_port copy = htons q"
    "update_time m = now" "update_time copy = 0" "conn m = conn_zero" "conn copy = conn_zero"
proof -
  obtain q ports where q: "assign_external_port_h (assigned_ports nt) = (q, ports)" by fastforce
  obtain ext where e: "external_iface nt = Some ext" using inv by (auto simp: nat_inv_h_def)
  define copy where "copy = \<lparr>internal_ip = ip, external_ip = n_ip ext, internal_port = p,
    external_port = htons q, update_time = 0, conn = conn_zero\<rparr>"
  let ?a = "hash_idx ip p" and ?b = "hash_idx (n_ip ext) (htons q)" and ?ls = "nat_mapping_list nt"
  define ls' where "ls' = upd_ref (?a, length (?ls ! ?a)) (\<lambda>m. m\<lparr>update_time := now\<rparr>)
    (add_tail copy ?b (add_tail copy ?a ?ls))"
  have len: "length ?ls = HASH_8BITS" using inv by (simp add: nat_inv_h_def)
  have run: "nat_insert_mapping_h now ip p nt
      = Inr ((?a, length (?ls ! ?a)), nt\<lparr>assigned_ports := ports, nat_mapping_list := ls'\<rparr>)"
    by (simp add: nat_insert_mapping_h_def e q nat_hash_idx Let_def copy_def ls'_def)
  have nth: "ls' ! c = ?ls ! c @ (if c = ?a then [copy\<lparr>update_time := now\<rparr>] else [])
       @ (if c = ?b then [copy] else [])" for c
    using nat_hash_idx(2) by (simp add: ls'_def nth_upd_ref nth_add_tail len list_update_append)
  show thesis
    by (rule that [of q ports "copy\<lparr>update_time := now\<rparr>" copy])
      (use nth in \<open>auto simp: nat_add_h_def run q e len copy_def ls'_def nth_upd_ref nth_add_tail\<close>)
qed

lemma mappings_nth: "mappings nt = (\<Union>c < length (nat_mapping_list nt). set (nat_mapping_list nt ! c))"
  by (force simp: mappings_def in_set_conv_nth)

lemma nat_add_h_cases:
  assumes inv: "nat_inv_h nt"
  obtains m copy q ports where
    "assign_external_port_h (assigned_ports nt) = (q, ports)"
    "assigned_ports (nat_add_h now ip p nt) = ports"
    "mappings (nat_add_h now ip p nt) \<subseteq> mappings nt \<union> {m, copy}"
    "internal_ip m = ip" "internal_port m = p" "external_port m = htons q"
    "internal_ip copy = ip" "internal_port copy = p" "external_port copy = htons q"
    "nat_find_ext_h (nat_add_h now ip p nt) (htons q)
       = (case nat_find_ext_h nt (htons q) of Some x \<Rightarrow> Some x
          | None \<Rightarrow> Some (if hash_idx ip p = hash_idx (n_ip (the (external_iface nt))) (htons q) then m else copy))"
    "\<And>x y. nat_find_ext_h nt x = Some y \<Longrightarrow> nat_find_ext_h (nat_add_h now ip p nt) x = Some y"
    "nat_find_int_h nt ip p = None \<Longrightarrow> nat_find_int_h (nat_add_h now ip p nt) ip p = Some m"
    "\<And>a b y. nat_find_int_h nt a b = Some y \<Longrightarrow> nat_find_int_h (nat_add_h now ip p nt) a b = Some y"
    "external_iface (nat_add_h now ip p nt) = external_iface nt"
    "length (nat_mapping_list (nat_add_h now ip p nt)) = HASH_8BITS"
proof (cases rule: nat_insert_h_eq [OF inv, of now ip p])
  case (1 m copy q ports)
  have len: "length (nat_mapping_list nt) = HASH_8BITS" using inv by (simp add: nat_inv_h_def)
  have "mappings (nat_add_h now ip p nt) \<subseteq> mappings nt \<union> {m, copy}"
    unfolding mappings_nth 1(6) 1(5) len by auto
  then show thesis
    by (rule that [OF 1(2,3)])
      (use 1(7-12) in \<open>auto simp: nat_find_ext_h_def nat_find_int_h_def 1(4-6) find_append split: option.split\<close>)
qed

lemma assigned_port_fresh_h:
  assumes "nat_inv_h nt" and "assign_external_port_h (assigned_ports nt) = (q, ports)" and "q \<noteq> 0"
    and "m \<in> mappings nt"
  shows "external_port m \<noteq> htons q"
proof
  assume "external_port m = htons q"
  then have "port_in_use_h (assigned_ports nt) (htons q)"
    using assms(1,3,4) by (fastforce simp: nat_inv_h_def)
  then show False using pool_h.assign_fresh(1) [OF assms(2,3)] by (simp add: port_in_use_h_def)
qed

lemma nat_inv_h_add:
  assumes inv: "nat_inv_h nt"
  shows "nat_inv_h (nat_add_h now ip p nt)"
proof (cases rule: nat_add_h_cases [OF inv, of now ip p])
  case (1 m copy q ports)
  note q = 1(1) and a = 1(2,3) and new = 1(4-9)
  have keep: "port_in_use_h ports x" if "port_in_use_h (assigned_ports nt) x" for x
    using that by (cases rule: pool_h.assign_cases [of "assigned_ports nt"]) (auto simp: port_in_use_h_def q)
  have used: "external_port x = 0 \<or> port_in_use_h ports (external_port x)"
    if "x \<in> mappings nt \<union> {m, copy}" for x
  proof (cases "x \<in> mappings nt")
    case True
    then show ?thesis using inv keep by (auto simp: nat_inv_h_def)
  next
    case False
    then have "external_port x = htons q" using that new by auto
    then show ?thesis using pool_h.assign_fresh [OF q] by (cases "q = 0") (auto simp: port_in_use_h_def)
  qed
  have same: "internal_ip x = internal_ip y \<and> internal_port x = internal_port y"
    if "x \<in> mappings nt \<union> {m, copy}" "y \<in> mappings nt \<union> {m, copy}" "external_port x = external_port y"
      "external_port x \<noteq> 0" for x y
  proof (cases "x \<in> mappings nt \<and> y \<in> mappings nt")
    case True
    then show ?thesis using inv that(3,4) by (auto simp: nat_inv_h_def)
  next
    case False
    then have "x \<in> {m, copy} \<or> y \<in> {m, copy}" using that(1,2) by blast
    then have "external_port x = htons q" using that(3) new by auto
    then have "x \<notin> mappings nt" "y \<notin> mappings nt"
      using that(3,4) assigned_port_fresh_h [OF inv q] by auto
    then show ?thesis using that(1,2) new by auto
  qed
  let ?n = "nat_add_h now ip p nt"
  have "\<forall>x \<in> mappings ?n. external_port x = 0 \<or> port_in_use_h (assigned_ports ?n) (external_port x)"
    unfolding 1(2) using used 1(3) by blast
  moreover have "\<forall>x \<in> mappings ?n. \<forall>y \<in> mappings ?n. external_port x = external_port y \<and> external_port x \<noteq> 0
      \<longrightarrow> internal_ip x = internal_ip y \<and> internal_port x = internal_port y"
    by (intro ballI impI same) (use 1(3) in auto)
  ultimately show ?thesis using inv unfolding nat_inv_h_def 1(14) 1(15) by (elim conjE) (intro conjI refl)
qed

lemma nat_find_h_mapping:
  assumes "nat_inv_h nt"
  shows "nat_find_ext_h nt q = Some m \<Longrightarrow> m \<in> mappings nt \<and> external_port m = q"
    "nat_find_int_h nt ip p = Some m \<Longrightarrow> m \<in> mappings nt \<and> internal_ip m = ip \<and> internal_port m = p"
  using assms nat_hash_idx(2)
  by (auto simp: nat_find_ext_h_def nat_find_int_h_def mappings_nth nat_inv_h_def dest!: find_SomeD)

lemma nat_next_port_h_eq: "nat_next_port_h nt = Some q \<longleftrightarrow>
    (\<exists>p. fst (assign_external_port_h (assigned_ports nt)) = p \<and> p \<noteq> 0 \<and> q = htons p)"
  by (auto simp: nat_next_port_h_def Let_def)

interpretation store_h: nat_store nat_inv_h nat_find_int_h nat_find_ext_h nat_add_h nat_next_port_h
proof
  fix nt :: nat_table and now :: time_t and ip ip' :: u32 and p p' q :: u16 and m :: nat_mapping
  assume inv: "nat_inv_h nt"
  show "nat_inv_h (nat_add_h now ip p nt)" using inv by (rule nat_inv_h_add)
  show fresh: "nat_find_ext_h nt q = None" if nx: "nat_next_port_h nt = Some q"
  proof (rule ccontr)
    assume "nat_find_ext_h nt q \<noteq> None"
    then obtain y where y: "y \<in> mappings nt" "external_port y = q" using nat_find_h_mapping(1) [OF inv] by blast
    obtain r ports where "assign_external_port_h (assigned_ports nt) = (r, ports)" "r \<noteq> 0" "q = htons r"
      using nx by (cases "assign_external_port_h (assigned_ports nt)") (auto simp: nat_next_port_h_eq)
    with assigned_port_fresh_h [OF inv] y show False by blast
  qed
  show "\<exists>m. nat_find_ext_h (nat_add_h now ip p nt) q = Some m \<and> internal_ip m = ip \<and> internal_port m = p"
    if "nat_next_port_h nt = Some q"
  proof (cases rule: nat_add_h_cases [OF inv, of now ip p])
    case (1 m copy r ports)
    then have "q = htons r" using that by (simp add: nat_next_port_h_eq)
    then show ?thesis using 1(4-10) fresh [OF that] by simp
  qed
  show "nat_find_ext_h (nat_add_h now ip p nt) q = Some m" if "nat_find_ext_h nt q = Some m"
    by (cases rule: nat_add_h_cases [OF inv, of now ip p]) (use that in blast)
  show "\<exists>m. nat_find_int_h (nat_add_h now ip p nt) ip p = Some m \<and> external_port m = q"
    if "nat_next_port_h nt = Some q" "nat_find_int_h nt ip p = None"
  proof (cases rule: nat_add_h_cases [OF inv, of now ip p])
    case (1 m copy r ports)
    then have "q = htons r" using that by (simp add: nat_next_port_h_eq)
    then show ?thesis using 1(6,12) that(2) by simp
  qed
  show "nat_find_int_h (nat_add_h now ip' p' nt) ip p = Some m" if "nat_find_int_h nt ip p = Some m"
    by (cases rule: nat_add_h_cases [OF inv, of now ip' p']) (use that in blast)
qed

section \<open>Touching a mapping\<close>

text \<open>\<open>time(&mapping_entry->update_time)\<close> changes nothing a lookup can see but the time.\<close>

definition touch :: "time_t \<Rightarrow> mapping_ref \<Rightarrow> nat_table \<Rightarrow> nat_table" where
  "touch now r nt =
     nt\<lparr>nat_mapping_list := upd_ref r (\<lambda>m. m\<lparr>update_time := now\<rparr>) (nat_mapping_list nt)\<rparr>"

definition same_flow :: "nat_mapping \<Rightarrow> nat_mapping \<Rightarrow> bool" where
  "same_flow m m' \<longleftrightarrow> m\<lparr>update_time := 0\<rparr> = m'\<lparr>update_time := 0\<rparr>"

lemma same_flowD:
  "same_flow m m' \<Longrightarrow> internal_ip m = internal_ip m' \<and> internal_port m = internal_port m'
     \<and> external_port m = external_port m' \<and> external_ip m = external_ip m' \<and> conn m = conn m'"
  by (cases m; cases m') (simp add: same_flow_def)

lemma same_flow_refl [simp]: "same_flow m m" "same_flow m (m\<lparr>update_time := t\<rparr>)"
  by (simp_all add: same_flow_def)

lemma same_flow_trans: "same_flow a b \<Longrightarrow> same_flow b c \<Longrightarrow> same_flow a c"
  by (simp add: same_flow_def)

lemma find_same_flow:
  assumes "list_all2 same_flow l l'" and "\<And>m m'. same_flow m m' \<Longrightarrow> P m = P m'"
  shows "rel_option same_flow (find P l) (find P l')"
  using assms by (induction rule: list_all2_induct) auto

lemma touch_lists: "list_all2 same_flow (nat_mapping_list nt ! c) (nat_mapping_list (touch now r nt) ! c)"
proof (cases "fst r < length (nat_mapping_list nt)")
  case True
  have "same_flow (l ! i) (l[j := (l ! j)\<lparr>update_time := now\<rparr>] ! i)" if "i < length l" for l i j
    using that by (cases "j = i") auto
  with True show ?thesis by (auto simp: touch_def nth_upd_ref list_all2_conv_all_nth)
next
  case False
  then show ?thesis by (auto simp: touch_def upd_ref_def list_update_beyond list_all2_conv_all_nth split: prod.split)
qed

lemma touch_simps [simp]: "external_iface (touch now r nt) = external_iface nt"
  "assigned_ports (touch now r nt) = assigned_ports nt"
  "length (nat_mapping_list (touch now r nt)) = length (nat_mapping_list nt)"
  by (simp_all add: touch_def nth_upd_ref)

lemma find_touch:
  "rel_option same_flow (nat_find_ext_h nt q) (nat_find_ext_h (touch now r nt) q)"
  "rel_option same_flow (nat_find_int_h nt ip p) (nat_find_int_h (touch now r nt) ip p)"
  unfolding nat_find_ext_h_def nat_find_int_h_def touch_simps
  by (rule find_same_flow [OF touch_lists]; auto dest: same_flowD)+

lemma mappings_touch:
  assumes "m' \<in> mappings (touch now r nt)"
  obtains m where "m \<in> mappings nt" "same_flow m m'"
proof -
  from assms obtain c i where c: "c < length (nat_mapping_list nt)" "i < length (nat_mapping_list (touch now r nt) ! c)"
    "m' = nat_mapping_list (touch now r nt) ! c ! i" by (auto simp: mappings_nth in_set_conv_nth)
  with touch_lists [of nt c now r] have "i < length (nat_mapping_list nt ! c)"
    "same_flow (nat_mapping_list nt ! c ! i) m'" by (auto simp: list_all2_conv_all_nth)
  with c(1) that show thesis by (force simp: mappings_nth)
qed

lemma nat_inv_h_touch:
  assumes inv: "nat_inv_h nt"
  shows "nat_inv_h (touch now r nt)"
proof -
  have "external_port m = 0 \<or> port_in_use_h (assigned_ports nt) (external_port m)"
    if "m \<in> mappings (touch now r nt)" for m
    using inv by (cases rule: mappings_touch [OF that]) (auto simp: nat_inv_h_def dest!: same_flowD)
  moreover have "internal_ip m = internal_ip m' \<and> internal_port m = internal_port m'"
    if m: "m \<in> mappings (touch now r nt)" "m' \<in> mappings (touch now r nt)"
      "external_port m = external_port m'" "external_port m \<noteq> 0" for m m'
  proof -
    obtain n n' where n: "n \<in> mappings nt" "same_flow n m" "n' \<in> mappings nt" "same_flow n' m'"
      using mappings_touch [OF m(1)] mappings_touch [OF m(2)] by metis
    then have "external_port n = external_port n'" "external_port n \<noteq> 0" using m(3,4) by (auto dest!: same_flowD)
    then have "internal_ip n = internal_ip n' \<and> internal_port n = internal_port n'"
      using inv n(1,3) unfolding nat_inv_h_def by blast
    then show ?thesis using n(2,4) by (auto dest!: same_flowD)
  qed
  ultimately show ?thesis using inv unfolding nat_inv_h_def touch_simps by blast
qed

section \<open>Translation\<close>

definition nat_ip_h :: "nat_table \<Rightarrow> u32" where
  "nat_ip_h nt = htonl (n_ip (the (external_iface nt)))"

lemma find_pos_at:
  "map_option (\<lambda>r. at_ref r ls) (map_option (Pair v) (find_pos P 0 (ls ! v))) = find P (ls ! v)"
  using find_pos_find [of P "ls ! v" 0] by (auto simp: at_ref_def map_option.compositionality comp_def)

lemma lookup_h_ok:
  assumes "nat_inv_h nt"
  shows "\<exists>r. nat_lookup_external_h nt q = Inr r
      \<and> map_option (\<lambda>r. at_ref r (nat_mapping_list nt)) r = nat_find_ext_h nt q"
    "\<exists>r. nat_lookup_internal_h nt ip p = Inr r
      \<and> map_option (\<lambda>r. at_ref r (nat_mapping_list nt)) r = nat_find_int_h nt ip p"
  using assms nat_hash_idx(2)
  by (auto simp: nat_inv_h_def nat_lookup_external_h_def nat_lookup_internal_h_def nat_hash_idx(1)
      nat_find_ext_h_def nat_find_int_h_def find_pos_at Let_def)

text \<open>An outgoing packet always has a mapping: it is made when there is none.\<close>

lemma nat_get_mapping_out:
  assumes inv: "nat_inv_h nt" and p: "tcp_packet p"
  obtains r nt1 m where "nat_get_mapping_from_packet_h now p DIR_OUT nt = Inr (Some r, nt1)"
    "nt1 = open_flow nat_find_int_h nat_add_h (now, ip_saddr p, tcp_sport p) nt"
    "at_ref r (nat_mapping_list nt1) = m" "nat_find_int_h nt1 (ip_saddr p) (tcp_sport p) = Some m"
proof -
  let ?ip = "ip_saddr p" and ?s = "tcp_sport p"
  have get: "nat_get_mapping_from_packet_h now p DIR_OUT nt =
      bind_r (nat_lookup_internal_h nt ?ip ?s) (\<lambda>r. case r of
           Some ref \<Rightarrow> Inr (Some ref, nt)
         | None \<Rightarrow> bind_r (nat_insert_mapping_h now ?ip ?s nt) (\<lambda>(ref, nt). Inr (Some ref, nt)))"
    using tcp_packetD [OF p]
    by (simp add: nat_get_mapping_from_packet_h_def packet_to_tcp_hdr_ok rd_ok ip_saddr_def tcp_sport_def)
  obtain r where r: "nat_lookup_internal_h nt ?ip ?s = Inr r"
    "map_option (\<lambda>r. at_ref r (nat_mapping_list nt)) r = nat_find_int_h nt ?ip ?s"
    using lookup_h_ok(2) [OF inv] by blast
  show thesis
  proof (cases r)
    case (Some ref)
    with r that [of ref nt] get show thesis by (auto simp: open_flow_def)
  next
    case None
    then have none: "nat_find_int_h nt ?ip ?s = None" using r by auto
    show thesis
    proof (cases rule: nat_insert_h_eq [OF inv, of now ?ip ?s])
      case (1 m copy q ports)
      have "find (\<lambda>m. internal_ip m = ?ip \<and> internal_port m = ?s) (nat_mapping_list nt ! hash_idx ?ip ?s) = None"
        using none by (simp add: nat_find_int_h_def)
      then have "nat_find_int_h (nat_add_h now ?ip ?s nt) ?ip ?s = Some m"
        using 1(6-8) by (simp add: nat_find_int_h_def find_append)
      moreover have "at_ref (hash_idx ?ip ?s, length (nat_mapping_list nt ! hash_idx ?ip ?s))
          (nat_mapping_list (nat_add_h now ?ip ?s nt)) = m" using 1(6) by (simp add: at_ref_def)
      ultimately show thesis using that r(1) None get 1(1) none by (auto simp: open_flow_def)
    qed
  qed
qed

lemma do_translation_h_out:
  assumes inv: "nat_inv_h nt" and p: "tcp_packet p"
  obtains r nt1 m p' where "nt1 = open_flow nat_find_int_h nat_add_h (now, ip_saddr p, tcp_sport p) nt"
    "nat_find_int_h nt1 (ip_saddr p) (tcp_sport p) = Some m"
    "do_translation_h now p len DIR_OUT nt out = Inr (touch now r nt1, out @ [IpSend p' len])"
    "resummed (rewrite_src p (nat_ip_h nt) (external_port m)) p'"
    "update_checksums (rewrite_src p (nat_ip_h nt) (external_port m)) 14 (tcp_off p) = Inr p'"
proof (cases rule: nat_get_mapping_out [OF inv p, of now])
  case (1 r nt1 m)
  obtain ext where ext: "external_iface nt = Some ext" and ip: "inet_addr (n_ip_str ext) = nat_ip_h nt"
    using inv by (auto simp: nat_inv_h_def nat_ip_h_def)
  let ?q = "rewrite_src p (nat_ip_h nt) (external_port m)"
  obtain p' where p': "update_checksums ?q 14 (tcp_off p) = Inr p'" "resummed ?q p'"
    using update_checksums_resummed [of ?q] p by auto
  have "do_translation_h now p len DIR_OUT nt out = Inr (touch now r nt1, out @ [IpSend p' len])"
    using tcp_packetD [OF p] p'(1) 1(1,3)
    by (simp add: do_translation_h_def packet_to_tcp_hdr_ok rd_ok ext ip rewrite_src_def touch_def)
  with 1(2,4) p' show thesis using that by blast
qed

lemma do_translation_h_in:
  assumes inv: "nat_inv_h nt" and p: "tcp_packet p" and m: "nat_find_ext_h nt (tcp_dport p) = Some m"
  obtains r p' where "do_translation_h now p len DIR_IN nt out = Inr (touch now r nt, out @ [IpSend p' len])"
    "resummed (rewrite_dst p (internal_ip m) (internal_port m)) p'"
    "update_checksums (rewrite_dst p (internal_ip m) (internal_port m)) 14 (tcp_off p) = Inr p'"
proof -
  obtain ext where ext: "external_iface nt = Some ext" using inv by (auto simp: nat_inv_h_def)
  obtain r where r: "nat_lookup_external_h nt (tcp_dport p) = Inr (Some r)" "at_ref r (nat_mapping_list nt) = m"
    using lookup_h_ok(1) [OF inv, of "tcp_dport p"] m by auto
  let ?q = "rewrite_dst p (internal_ip m) (internal_port m)"
  obtain p' where p': "update_checksums ?q 14 (tcp_off p) = Inr p'" "resummed ?q p'"
    using update_checksums_resummed [of ?q] p by auto
  have "do_translation_h now p len DIR_IN nt out = Inr (touch now r nt, out @ [IpSend p' len])"
    using tcp_packetD [OF p] p'(1) r
    by (simp add: do_translation_h_def nat_get_mapping_from_packet_h_def packet_to_tcp_hdr_ok rd_ok ext
        rewrite_dst_def touch_def tcp_dport_def)
  with p' show thesis using that by blast
qed

lemma do_translation_h_unknown:
  assumes inv: "nat_inv_h nt" and p: "tcp_packet p" and none: "nat_find_ext_h nt (tcp_dport p) = None"
  shows "do_translation_h now p len DIR_IN nt out = Inl NullDeref"
proof -
  obtain ext where ext: "external_iface nt = Some ext" using inv by (auto simp: nat_inv_h_def)
  have "nat_lookup_external_h nt (tcp_dport p) = Inr None"
    using lookup_h_ok(1) [OF inv, of "tcp_dport p"] none by auto
  then show ?thesis using tcp_packetD [OF p]
    by (simp add: do_translation_h_def nat_get_mapping_from_packet_h_def packet_to_tcp_hdr_ok rd_ok ext tcp_dport_def)
qed

lemma nat_translate_h_dir:
  assumes inv: "nat_inv_h nt" and p: "tcp_packet p" and tcp: "p ! 23 = IPPROTO_TCP"
  shows "nat_translate_packet_h now p len nt out
    = do_translation_h now p len (if ip_daddr p = nat_ip_h nt then DIR_IN else DIR_OUT) nt out"
proof -
  obtain ext where ext: "external_iface nt = Some ext" using inv by (auto simp: nat_inv_h_def)
  have "ntohl (get32 p 30) = n_ip ext \<longleftrightarrow> get32 p 30 = htonl (n_ip ext)"
    by (metis ntohl_ntohl)
  then show ?thesis using tcp_packetD [OF p] tcp
    by (simp add: nat_translate_packet_h_def get_packet_direction_h_def rd_ok ext nat_ip_h_def ip_daddr_def)
qed

text \<open>What was recorded stays recorded, whatever packet comes next.\<close>

definition keeps_flows :: "nat_table \<Rightarrow> nat_table \<Rightarrow> bool" where
  "keeps_flows nt nt' \<longleftrightarrow> external_iface nt' = external_iface nt
     \<and> (\<forall>q m. nat_find_ext_h nt q = Some m \<longrightarrow> (\<exists>m'. nat_find_ext_h nt' q = Some m' \<and> same_flow m m'))
     \<and> (\<forall>ip p m. nat_find_int_h nt ip p = Some m \<longrightarrow> (\<exists>m'. nat_find_int_h nt' ip p = Some m' \<and> same_flow m m'))"

lemma keeps_flows_refl [simp]: "keeps_flows nt nt"
  by (auto simp: keeps_flows_def)

lemma keeps_flows_trans: "keeps_flows a b \<Longrightarrow> keeps_flows b c \<Longrightarrow> keeps_flows a c"
  unfolding keeps_flows_def by (elim conjE, intro conjI) (simp, (meson same_flow_trans)+)

lemma keeps_flows_touch: "keeps_flows nt (touch now r nt)"
proof -
  have "\<exists>m'. nat_find_ext_h (touch now r nt) q = Some m' \<and> same_flow m m'"
    if "nat_find_ext_h nt q = Some m" for q m
    using find_touch(1) [of nt q now r] that by (auto simp: option_rel_Some1)
  moreover have "\<exists>m'. nat_find_int_h (touch now r nt) ip p = Some m' \<and> same_flow m m'"
    if "nat_find_int_h nt ip p = Some m" for ip p m
    using find_touch(2) [of nt ip p now r] that by (auto simp: option_rel_Some1)
  ultimately show ?thesis by (simp add: keeps_flows_def)
qed

lemma keeps_flows_open:
  assumes "nat_inv_h nt"
  shows "keeps_flows nt (open_flow nat_find_int_h nat_add_h f nt)"
proof -
  obtain now ip p where f: "f = (now, ip, p)" by (cases f)
  have "keeps_flows nt (nat_add_h now ip p nt)"
    unfolding keeps_flows_def
    by (cases rule: nat_add_h_cases [OF assms, of now ip p]) (metis same_flow_refl(1))
  then show ?thesis by (simp add: open_flow_def f)
qed

lemma nat_translate_h_keeps:
  assumes inv: "nat_inv_h nt" and p: "tcp_packet p" "p ! 23 = IPPROTO_TCP"
    and run: "nat_translate_packet_h now p len nt out = Inr (nt', out')"
  shows "nat_inv_h nt' \<and> keeps_flows nt nt'"
proof (cases "ip_daddr p = nat_ip_h nt")
  case False
  obtain r nt1 where "nt1 = open_flow nat_find_int_h nat_add_h (now, ip_saddr p, tcp_sport p) nt" "nt' = touch now r nt1"
    using run False nat_translate_h_dir [OF inv p, of now len out]
    by (cases rule: do_translation_h_out [OF inv p(1), of now len out]) auto
  moreover have "nat_inv_h nt1" using store_h.opens_inv [OF inv, of "[(now, ip_saddr p, tcp_sport p)]"] calculation by simp
  ultimately show ?thesis
    using keeps_flows_open [OF inv] keeps_flows_touch keeps_flows_trans nat_inv_h_touch by blast
next
  case True
  then have run': "do_translation_h now p len DIR_IN nt out = Inr (nt', out')"
    using run nat_translate_h_dir [OF inv p, of now len out] by simp
  then obtain m where "nat_find_ext_h nt (tcp_dport p) = Some m"
    using do_translation_h_unknown [OF inv p(1), of now len out] by (cases "nat_find_ext_h nt (tcp_dport p)") auto
  then obtain r where "nt' = touch now r nt"
    using run' by (cases rule: do_translation_h_in [OF inv p(1), of m now len out]) auto
  then show ?thesis using nat_inv_h_touch [OF inv] keeps_flows_touch by simp
qed

definition translate_all_h ::
  "(time_t \<times> bytes) list \<Rightarrow> nat_table \<times> nat_event list \<Rightarrow> (nat_table \<times> nat_event list) result" where
  "translate_all_h = fold_r (\<lambda>(now, p) (nt, out). nat_translate_packet_h now p (length p) nt out)"

lemma translate_all_h_keeps:
  assumes "nat_inv_h nt" and "\<forall>(now, p) \<in> set ps. tcp_packet p \<and> p ! 23 = IPPROTO_TCP"
    and "translate_all_h ps (nt, out) = Inr (nt', out')"
  shows "nat_inv_h nt' \<and> keeps_flows nt nt'"
  using assms
proof (induction ps arbitrary: nt out)
  case (Cons tp ps)
  obtain now p where tp: "tp = (now, p)" by fastforce
  obtain nt1 out1 where 1: "nat_translate_packet_h now p (length p) nt out = Inr (nt1, out1)"
    "translate_all_h ps (nt1, out1) = Inr (nt', out')"
    using Cons.prems(3) by (auto simp: translate_all_h_def tp bind_r_eq_Inr)
  have "nat_inv_h nt1 \<and> keeps_flows nt nt1"
    using nat_translate_h_keeps [OF Cons.prems(1) _ _ 1(1)] Cons.prems(2) tp by auto
  moreover have "nat_inv_h nt' \<and> keeps_flows nt1 nt'"
    using Cons.IH [OF _ _ 1(2)] Cons.prems(2) calculation by auto
  ultimately show ?case using keeps_flows_trans by blast
qed (simp add: translate_all_h_def)

section \<open>A concrete table\<close>

lemma demo_nat_inv_h: "nat_inv_h demo_nat"
proof -
  have "''159.226.39.43'' = inet_ntoa (demo_ip 159 226 39 43)" by code_simp
  then have "inet_addr ''159.226.39.43'' = demo_ip 159 226 39 43" by (simp only: inet_addr_ntoa)
  then show ?thesis by (simp add: nat_inv_h_def demo_nat_def demo_ext_def mappings_def)
qed

lemma demo_lookup_h: "nat_find_int_h demo_nat ip p = None" "nat_find_ext_h demo_nat q = None"
  using nat_hash_idx(2) by (simp_all add: nat_find_int_h_def nat_find_ext_h_def demo_nat_def)

lemma demo_dir_h: "ip_daddr demo_syn \<noteq> nat_ip_h demo_nat" "ip_daddr demo_reply = nat_ip_h demo_nat"
  "tcp_dport demo_reply = htons 12345"
  unfolding nat_ip_h_def demo_nat_def demo_ext_def by (simp_all, code_simp+)

lemma demo_next_h: "nat_next_port_h demo_nat = Some (htons 12345)"
  by (simp add: nat_next_port_h_def demo_nat_def assign_external_port_h_def NAT_PORT_MIN_def NAT_PORT_MAX_def
      assign_loop_h.simps)

section \<open>Properties\<close>

text \<open>Every outgoing packet is translated by \<open>nat_new_2.c\<close>, the first of a flow included: the
  call succeeds, the packet that is sent has the external address and the port of the flow's mapping as its source, and this
  mapping is in the table afterwards. The checksums are right under the same conditions as before.\<close>

theorem nat_h_outgoing_translated:
  assumes inv: "nat_inv_h nt" and p: "tcp_packet p" "p ! 23 = IPPROTO_TCP" and out: "ip_daddr p \<noteq> nat_ip_h nt"
  shows "\<exists>nt' p' m. nat_translate_packet_h now p len nt evs = Inr (nt', evs @ [IpSend p' len])
    \<and> nat_inv_h nt' \<and> nat_find_int_h nt' (ip_saddr p) (tcp_sport p) = Some m
    \<and> resummed (rewrite_src p (nat_ip_h nt) (external_port m)) p'"
proof (cases rule: do_translation_h_out [OF inv p(1), of now len evs])
  case (1 r nt1 m p')
  then have run: "nat_translate_packet_h now p len nt evs = Inr (touch now r nt1, evs @ [IpSend p' len])"
    using out nat_translate_h_dir [OF inv p, of now len evs] by simp
  obtain m' where "nat_find_int_h (touch now r nt1) (ip_saddr p) (tcp_sport p) = Some m'" "same_flow m m'"
    using find_touch(2) [of nt1 "ip_saddr p" "tcp_sport p" now r] 1(2) by (auto simp: option_rel_Some1)
  with run 1(4) nat_translate_h_keeps [OF inv p run] show ?thesis by (auto dest!: same_flowD)
qed

theorem nat_h_outgoing_translated_witness:
  "\<exists>nt' p' m. nat_translate_packet_h 5 demo_syn 54 demo_nat [] = Inr (nt', [] @ [IpSend p' 54])
    \<and> nat_inv_h nt' \<and> nat_find_int_h nt' (ip_saddr demo_syn) (tcp_sport demo_syn) = Some m
    \<and> resummed (rewrite_src demo_syn (nat_ip_h demo_nat) (external_port m)) p'"
  by (rule nat_h_outgoing_translated [OF demo_nat_inv_h demo_packets(1,2) demo_dir_h(1)])

text \<open>C17. Round trip through \<open>nat_new_2.c\<close>: when a flow is opened while port \<open>q\<close> is free and the packets
  that follow are handled without a crash, a packet to port \<open>q\<close> of the external address is sent to the
  address and port the flow came from. The copy of the mapping in the list of the external port
  is what makes this work.\<close>

theorem nat_h_round_trip:
  assumes inv: "nat_inv_h nt" and syn: "tcp_packet syn" "syn ! 23 = IPPROTO_TCP" "ip_daddr syn \<noteq> nat_ip_h nt"
    and new: "nat_find_int_h nt (ip_saddr syn) (tcp_sport syn) = None" and free: "nat_next_port_h nt = Some q"
    and ps: "\<forall>(t, p) \<in> set ps. tcp_packet p \<and> p ! 23 = IPPROTO_TCP"
    and run: "translate_all_h ((t0, syn) # ps) (nt, []) = Inr (nt', out')"
    and rep: "tcp_packet rep" "rep ! 23 = IPPROTO_TCP" "ip_daddr rep = nat_ip_h nt" "tcp_dport rep = q"
  shows "\<exists>nt2 r. nat_translate_packet_h t1 rep (length rep) nt' out' = Inr (nt2, out' @ [IpSend r (length rep)])
    \<and> ip_daddr r = ip_saddr syn \<and> tcp_dport r = tcp_sport syn \<and> ip_saddr r = ip_saddr rep
    \<and> tcp_sport r = tcp_sport rep"
proof -
  obtain nt1 out1 where first: "nat_translate_packet_h t0 syn (length syn) nt [] = Inr (nt1, out1)"
    and rest: "translate_all_h ps (nt1, out1) = Inr (nt', out')"
    using run by (auto simp: translate_all_h_def bind_r_eq_Inr)
  let ?add = "nat_add_h t0 (ip_saddr syn) (tcp_sport syn) nt"
  obtain r where nt1: "nt1 = touch t0 r ?add"
    using first syn(3) new nat_translate_h_dir [OF inv syn(1,2), of t0 "length syn" "[]"]
    by (cases rule: do_translation_h_out [OF inv syn(1), of t0 "length syn" "[]"]) (auto simp: open_flow_def)
  obtain m where m: "nat_find_ext_h ?add q = Some m" "internal_ip m = ip_saddr syn" "internal_port m = tcp_sport syn"
    using store_h.ext_new [OF inv free] by blast
  have inv1: "nat_inv_h nt1" and keep1: "keeps_flows nt nt1" using nat_translate_h_keeps [OF inv syn(1,2) first] by auto
  have inv': "nat_inv_h nt'" and keep': "keeps_flows nt1 nt'" using translate_all_h_keeps [OF inv1 ps rest] by auto
  have "keeps_flows ?add nt'" using keeps_flows_trans [OF keeps_flows_touch] keep' nt1 by blast
  then obtain m' where m': "nat_find_ext_h nt' q = Some m'" "same_flow m m'" using m(1) unfolding keeps_flows_def by blast
  have ip': "nat_ip_h nt' = nat_ip_h nt" using keep1 keep' by (simp add: keeps_flows_def nat_ip_h_def)
  obtain r' p' where t: "do_translation_h t1 rep (length rep) DIR_IN nt' out' = Inr (touch t1 r' nt', out' @ [IpSend p' (length rep)])"
    "resummed (rewrite_dst rep (internal_ip m') (internal_port m')) p'"
    using do_translation_h_in [OF inv' rep(1)] m'(1) rep(4) by metis
  show ?thesis
    using t nat_translate_h_dir [OF inv' rep(1,2), of t1 "length rep" out'] rep ip' m(2,3) same_flowD [OF m'(2)]
      resummed_fields [OF _ t(2)] by (auto simp: rewrite_fields)
qed

theorem nat_h_round_trip_witness:
  "\<exists>nt' out' nt2 r. translate_all_h [(5, demo_syn)] (demo_nat, []) = Inr (nt', out')
    \<and> nat_translate_packet_h 6 demo_reply (length demo_reply) nt' out'
        = Inr (nt2, out' @ [IpSend r (length demo_reply)])
    \<and> ip_daddr r = ip_saddr demo_syn \<and> tcp_dport r = tcp_sport demo_syn \<and> ip_saddr r = ip_saddr demo_reply
    \<and> tcp_sport r = tcp_sport demo_reply"
proof -
  obtain nt' out' where run: "translate_all_h [(5, demo_syn)] (demo_nat, []) = Inr (nt', out')"
    using demo_dir_h(1) nat_translate_h_dir [OF demo_nat_inv_h demo_packets(1,2), of 5 "length demo_syn" "[]"]
    by (cases rule: do_translation_h_out [OF demo_nat_inv_h demo_packets(1), of 5 "length demo_syn" "[]"])
      (auto simp: translate_all_h_def)
  show ?thesis
    using nat_h_round_trip [OF demo_nat_inv_h demo_packets(1,2) demo_dir_h(1) demo_lookup_h(1) demo_next_h _ run
        demo_packets(3,4) demo_dir_h(2,3), of 6] run by auto
qed

text \<open>C36. An inbound TCP packet to a port that no mapping has makes \<open>nat_new_2.c\<close> follow a null
  pointer: any host outside can stop the translator with one packet.\<close>

theorem nat_h_unsolicited_crash:
  assumes "nat_inv_h nt" and "tcp_packet p" and "p ! 23 = IPPROTO_TCP" and "ip_daddr p = nat_ip_h nt"
    and "nat_find_ext_h nt (tcp_dport p) = None"
  shows "nat_translate_packet_h now p len nt out = Inl NullDeref"
  using nat_translate_h_dir [OF assms(1-3)] do_translation_h_unknown [OF assms(1,2,5)] assms(4) by simp

theorem nat_h_unsolicited_crash_witness:
  "nat_translate_packet_h 5 demo_reply 54 demo_nat [] = Inl NullDeref"
  by (rule nat_h_unsolicited_crash [OF demo_nat_inv_h demo_packets(3,4) demo_dir_h(2) demo_lookup_h(2)])

end
