(* ===== verification/InsertRace.thy ===== *)
theory InsertRace
  imports LookupRace NatHash
begin

text \<open>
  An insertion against a walk. The main thread of each stack appends an entry (\<open>list_add_tail\<close>, with the steps of theory \<open>MacRace\<close>)
  while the other thread walks the same bucket with \<open>list_for_each_entry_safe\<close>, looking for an entry to remove: the
  sweeping thread of the switch for an aged one, the time-out thread of the NAT for an expired one. Here the walk is
  split into its single reads, too. \<open>list_insert\<close> makes the new node reachable (\<open>prev->next = new\<close>) before it sets the
  node's own pointers. \<^verbatim>\<open>nat_new_2.c\<close> calls \<open>init_list_head\<close> on the node before: then no interleaving does harm, the
  walk at most waits on the new entry until the insertion goes on. \<^verbatim>\<open>mac.c\<close> and \<^verbatim>\<open>nat.c\<close> only clear the node: then
  the walk can follow a null pointer.
\<close>

section \<open>The walk, one read at a time\<close>

text \<open>
  The macro with a body that leaves the loop at the first entry that satisfies \<open>P\<close>: \<open>Walk_first\<close> is before the first read of
  \<open>pos\<close>, \<open>Walk_next pos\<close> before the read that gives \<open>q\<close>, \<open>Walk_at pos q\<close> before the test and the body. The data \<open>d\<close> of the entries
  is complete before the insertion starts, as in \<^verbatim>\<open>mac.c\<close> and \<^verbatim>\<open>nat.c\<close>; \<^verbatim>\<open>nat_new_2.c\<close> sets \<open>update_time\<close> of the
  first of its two entries after the insertion, from 0 to the present time, and neither value makes \<open>nat_timeout\<close> remove the entry.
\<close>

datatype walk = Walk_first | Walk_next addr | Walk_at addr addr | Walk_hit addr | Walk_end

fun walk_step :: "addr \<Rightarrow> ('e \<Rightarrow> bool) \<Rightarrow> heap \<Rightarrow> (addr \<rightharpoonup> 'e) \<Rightarrow> walk \<Rightarrow> walk result" where
  "walk_step head P h d Walk_first = bind_r (ld_next h head) (\<lambda>pos. Inr (Walk_next pos))"
| "walk_step head P h d (Walk_next pos) = bind_r (ld_next h pos) (\<lambda>q. Inr (Walk_at pos q))"
| "walk_step head P h d (Walk_at pos q) =
     (if pos = head then Inr Walk_end
      else case d pos of None \<Rightarrow> Inl OutOfBounds | Some e \<Rightarrow> Inr (if P e then Walk_hit pos else Walk_next q))"
| "walk_step head P h d c = Inr c"

type_synonym walk_race = "walk \<times> (nat \<times> addr) \<times> heap"

text \<open>\<open>True\<close> runs a step of \<open>list_add_tail\<close>, \<open>False\<close> one of the walk.\<close>

fun walk_race_step :: "addr \<Rightarrow> addr \<Rightarrow> ('e \<Rightarrow> bool) \<Rightarrow> (addr \<rightharpoonup> 'e) \<Rightarrow> bool \<Rightarrow> walk_race \<Rightarrow> walk_race result" where
  "walk_race_step head new P d who (c, a, h) =
     (if who then bind_r (add_step new head a h) (\<lambda>(a, h). Inr (c, a, h))
      else bind_r (walk_step head P h d c) (\<lambda>c. Inr (c, a, h)))"

definition walk_race_run :: "addr \<Rightarrow> addr \<Rightarrow> ('e \<Rightarrow> bool) \<Rightarrow> (addr \<rightharpoonup> 'e) \<Rightarrow> bool list \<Rightarrow> walk_race \<Rightarrow> walk_race result" where
  "walk_race_run head new P d sched s = fold_r (walk_race_step head new P d) sched s"

definition walk_start :: "heap \<Rightarrow> walk_race" where
  "walk_start h = (Walk_first, (0, 0), h)"

fun walk_over :: "walk \<Rightarrow> bool" where
  "walk_over (Walk_hit p) \<longleftrightarrow> True"
| "walk_over Walk_end \<longleftrightarrow> True"
| "walk_over c \<longleftrightarrow> False"

section \<open>The insertion alone\<close>

lemma ld_next_added:
  assumes "new \<in> dom h" and "z \<in> dom h" and "new \<noteq> z"
  shows "ld_next (added new head z i h) x =
    (if 4 \<le> i \<and> x = new then Inr head else if 3 \<le> i \<and> x = z then Inr new else ld_next h x)"
  using assms by (auto simp: added_def Let_def upd_n_def upd_p_def ld_next_def split: option.splits)

section \<open>The invariant\<close>

definition unhit :: "('e \<Rightarrow> bool) \<Rightarrow> (addr \<rightharpoonup> 'e) \<Rightarrow> addr list \<Rightarrow> bool" where
  "unhit P d us \<longleftrightarrow> (\<forall>x \<in> set us. \<forall>e. d x = Some e \<longrightarrow> \<not> P e)"

definition ahead :: "addr list \<Rightarrow> addr \<Rightarrow> ('e \<Rightarrow> bool) \<Rightarrow> (addr \<rightharpoonup> 'e) \<Rightarrow> addr \<Rightarrow> addr list \<Rightarrow> bool" where
  "ahead L head P d p vs \<longleftrightarrow> (\<exists>us. L @ [head] = us @ p # vs \<and> unhit P d us)"

text \<open>
  Where the walk is after \<open>i\<close> steps of the insertion of \<open>new\<close> behind the list \<open>L\<close>, and a bound \<open>k\<close> for its remaining
  steps once the insertion has set the pointer of the new node. Before that it may read the new node's own pointer
  again and again.
\<close>

inductive walk_inv :: "addr list \<Rightarrow> addr \<Rightarrow> addr \<Rightarrow> ('e \<Rightarrow> bool) \<Rightarrow> (addr \<rightharpoonup> 'e) \<Rightarrow> nat \<Rightarrow> nat \<Rightarrow> walk \<Rightarrow> bool"
  for L head new P d where
  first: "2 * length L + 5 \<le> k \<Longrightarrow> walk_inv L head new P d i k Walk_first"
| next_old: "ahead L head P d p vs \<Longrightarrow> 2 * length vs + 4 \<le> k \<Longrightarrow> walk_inv L head new P d i k (Walk_next p)"
| next_new: "unhit P d L \<Longrightarrow> 3 \<le> i \<Longrightarrow> 4 \<le> k \<Longrightarrow> walk_inv L head new P d i k (Walk_next new)"
| next_end: "unhit P d L \<Longrightarrow> 3 \<le> i \<Longrightarrow> 2 \<le> k \<Longrightarrow> walk_inv L head new P d i k (Walk_next head)"
| at_old: "ahead L head P d p (q # vs) \<Longrightarrow> p \<noteq> head \<Longrightarrow> 2 * length vs + 5 \<le> k \<Longrightarrow> walk_inv L head new P d i k (Walk_at p q)"
| at_last: "ahead L head P d p [head] \<Longrightarrow> p \<noteq> head \<Longrightarrow> 3 \<le> i \<Longrightarrow> 5 \<le> k \<Longrightarrow> walk_inv L head new P d i k (Walk_at p new)"
| at_self: "unhit P d L \<Longrightarrow> 3 \<le> i \<Longrightarrow> 5 \<le> k \<Longrightarrow> walk_inv L head new P d i k (Walk_at new new)"
| at_new: "unhit P d L \<Longrightarrow> 3 \<le> i \<Longrightarrow> 3 \<le> k \<Longrightarrow> walk_inv L head new P d i k (Walk_at new head)"
| at_end: "unhit P d L \<Longrightarrow> 1 \<le> k \<Longrightarrow> walk_inv L head new P d i k (Walk_at head q)"
| hit: "p \<in> set (L @ [new]) \<Longrightarrow> d p = Some e \<Longrightarrow> P e \<Longrightarrow> walk_inv L head new P d i k (Walk_hit p)"
| over: "unhit P d L \<Longrightarrow> walk_inv L head new P d i k Walk_end"

lemma walk_inv_over: "walk_inv L head new P d i 0 c \<Longrightarrow> walk_over c"
  by (erule walk_inv.cases) auto

lemma walk_inv_weaken: "walk_inv L head new P d i k c \<Longrightarrow> i \<le> j \<Longrightarrow> k \<le> m \<Longrightarrow> walk_inv L head new P d j m c"
  by (erule walk_inv.cases) (auto intro: walk_inv.intros)

text \<open>The list from \<open>p\<close> on: what the read of its \<open>next\<close> pointer gives while the insertion goes on.\<close>

lemma next_added:
  assumes dl: "dlist h head L" and new: "new \<in> dom h" "new \<notin> set (head # L)" and p: "L @ [head] = us @ p # vs" "p \<noteq> head"
  obtains q ws where "vs = q # ws" "ld_next (added new head (last (head # L)) i h) p = Inr (if 3 \<le> i \<and> vs = [head] then new else q)"
proof -
  let ?z = "last (head # L)"
  obtain q ws where q: "vs = q # ws" "link h p q" using dlist_succ [OF dl p] .
  have dist: "distinct (L @ [head])" using dl by (auto simp: dlist_def)
  have lz: "link h ?z head" using dl dlist_split [of h head L "[]"] by simp
  then have z: "?z \<in> dom h" using link_dom by blast
  have "p \<in> set (L @ [head])" unfolding p(1) by simp
  then have mem: "p \<in> set L" "?z \<in> set (head # L)" using p(2) by auto
  then have neq: "new \<noteq> ?z" "p \<noteq> new" using new(2) by (auto simp del: last.simps)
  have "p = ?z \<longleftrightarrow> vs = [head]"
  proof
    assume "p = ?z"
    then have "q = head" using link_unique(1) [OF q(2)] lz by simp
    then show "vs = [head]" using p(1) q(1) dist by (cases ws rule: rev_cases) auto
  next
    assume "vs = [head]"
    then show "p = ?z" using p(1) by simp
  qed
  then have "ld_next (added new head ?z i h) p = Inr (if 3 \<le> i \<and> vs = [head] then new else q)"
    using ld_next_added [OF new(1) z neq(1), of head i p] ld_link [OF q(2)] neq(2) by simp
  then show thesis by (rule that [OF q(1)])
qed

lemma ahead_cases:
  assumes "ahead L head P d p vs" and "distinct (L @ [head])"
  shows "length vs \<le> length L" and "p \<noteq> head \<Longrightarrow> p \<in> set L" and "p = head \<Longrightarrow> vs = [] \<and> unhit P d L"
    and "d p = Some e \<Longrightarrow> \<not> P e \<Longrightarrow> vs = q # ws \<Longrightarrow> ahead L head P d q ws"
    and "d p = Some e \<Longrightarrow> \<not> P e \<Longrightarrow> vs = [head] \<Longrightarrow> unhit P d L"
proof -
  obtain us where us: "L @ [head] = us @ p # vs" "unhit P d us" using assms(1) by (auto simp: ahead_def)
  show "length vs \<le> length L" using arg_cong [OF us(1), of length] by simp
  have "p \<in> set (L @ [head])" unfolding us(1) by simp
  then show "p \<noteq> head \<Longrightarrow> p \<in> set L" by simp
  show "p = head \<Longrightarrow> vs = [] \<and> unhit P d L"
    using us assms(2) by (cases vs rule: rev_cases) auto
  assume e: "d p = Some e" "\<not> P e"
  then have u: "unhit P d (us @ [p])" using us(2) by (auto simp: unhit_def)
  then show "vs = q # ws \<Longrightarrow> ahead L head P d q ws"
    using us(1) unfolding ahead_def by (intro exI [of _ "us @ [p]"]) simp
  show "vs = [head] \<Longrightarrow> unhit P d L" using u us(1) by simp
qed

lemma walk_inv_step:
  assumes dl: "dlist h head L" and new: "new \<in> dom h" "new \<notin> set (head # L)" "ld_next h new = Inr new"
    and data: "set (L @ [new]) \<subseteq> dom d" and inv: "walk_inv L head new P d i k c" and k: "k \<le> 2 * length L + 5"
  shows "\<exists>c'. walk_step head P (added new head (last (head # L)) i h) d c = Inr c'
    \<and> walk_inv L head new P d i (if 4 \<le> i then k - 1 else 2 * length L + 5) c'"
proof -
  let ?z = "last (head # L)" and ?k = "if 4 \<le> i then k - 1 else 2 * length L + 5"
  let ?h = "added new head ?z i h"
  have dist: "distinct (L @ [head])" using dl by (auto simp: dlist_def)
  have lz: "link h ?z head" using dl dlist_split [of h head L "[]"] by simp
  then have z: "?z \<in> dom h" using link_dom by blast
  have "?z \<in> set (head # L)" by simp
  then have neq: "new \<noteq> ?z" "new \<noteq> head" using new(2) by (auto simp del: last.simps)
  have ln: "ld_next ?h new = Inr (if 4 \<le> i then head else new)"
    using ld_next_added [OF new(1) z neq(1), of head i new] neq new(3) by auto
  have lh: "\<exists>q. ld_next ?h head = Inr q"
    using ld_next_added [OF new(1) z neq(1), of head i head] ld_next_head [OF dl] neq by auto
  obtain e where en: "d new = Some e" using data by auto
  then have new_hit: "walk_inv L head new P d i ?k (Walk_hit new)" if "P e"
    using that by (intro hit [of new L new d e P]) auto
  from inv show ?thesis
  proof cases
    case first
    have "?z = head \<longleftrightarrow> L = []" using dist by (cases L rule: rev_cases) auto
    then have q: "ld_next ?h head = Inr (if L = [] \<and> 3 \<le> i then new else hd (L @ [head]))"
      using ld_next_added [OF new(1) z neq(1), of head i head] ld_next_head [OF dl] neq(2) by auto
    have "unhit P d []" by (simp add: unhit_def)
    moreover have "L @ [head] = [] @ hd (L @ [head]) # tl (L @ [head])" by simp
    ultimately have "ahead L head P d (hd (L @ [head])) (tl (L @ [head]))" unfolding ahead_def by blast
    moreover have "length (tl (L @ [head])) = length L" by simp
    ultimately show ?thesis using q first by (auto simp: unhit_def intro: walk_inv.intros)
  next
    case (next_old p vs)
    show ?thesis
    proof (cases "p = head")
      case True
      have "walk_inv L head new P d i ?k (Walk_at head q)" for q
        by (rule at_end) (use True ahead_cases(3) [OF next_old(2) dist] k next_old(3) in auto)
      then show ?thesis using True lh next_old(1) by auto
    next
      case False
      obtain us where us: "L @ [head] = us @ p # vs" using next_old(2) by (auto simp: ahead_def)
      obtain q ws where q: "vs = q # ws" "ld_next ?h p = Inr (if 3 \<le> i \<and> vs = [head] then new else q)"
        using next_added [OF dl new(1,2) us False, of i] .
      have "length vs \<le> length L" using ahead_cases(1) [OF next_old(2) dist] .
      then show ?thesis using q next_old False
        by (auto intro: walk_inv.intros)
    qed
  next
    case (at_old p q vs)
    have p: "p \<in> set L" using ahead_cases(2) [OF at_old(2) dist at_old(3)] .
    then obtain e where e: "d p = Some e" using data by auto
    show ?thesis
      using e p at_old ahead_cases(4) [OF at_old(2) dist e _ refl] ahead_cases(1) [OF at_old(2) dist]
      by (cases "P e") (auto intro: walk_inv.intros)
  next
    case (at_last p)
    have p: "p \<in> set L" using ahead_cases(2) [OF at_last(2) dist at_last(3)] .
    then obtain e where e: "d p = Some e" using data by auto
    show ?thesis
      using e p at_last ahead_cases(5) [OF at_last(2) dist e _ refl]
      by (cases "P e") (auto intro: walk_inv.intros)
  next
    case next_new
    then show ?thesis using ln k by (auto intro: walk_inv.intros)
  next
    case next_end
    have "walk_inv L head new P d i ?k (Walk_at head q)" for q
      by (rule at_end) (use next_end k in auto)
    then show ?thesis using lh next_end(1) by auto
  next
    case at_self
    have "walk_inv L head new P d i ?k (Walk_next new)" by (rule next_new) (use at_self k in auto)
    then show ?thesis using new_hit at_self(1) neq(2) en by auto
  next
    case at_new
    have "walk_inv L head new P d i ?k (Walk_next head)" by (rule next_end) (use at_new k in auto)
    then show ?thesis using new_hit at_new(1) neq(2) en by auto
  next
    case at_end
    then show ?thesis using k by (auto intro: walk_inv.intros)
  qed (auto intro: walk_inv.intros)
qed

section \<open>Schedules\<close>

definition insert_inv :: "addr list \<Rightarrow> addr \<Rightarrow> addr \<Rightarrow> ('e \<Rightarrow> bool) \<Rightarrow> (addr \<rightharpoonup> 'e) \<Rightarrow> heap \<Rightarrow> nat \<Rightarrow> walk_race \<Rightarrow> bool" where
  "insert_inv L head new P d h k s \<longleftrightarrow> (case s of (c, (i, p), h') \<Rightarrow>
     i \<le> 5 \<and> (1 \<le> i \<longrightarrow> p = last (head # L)) \<and> h' = added new head (last (head # L)) i h \<and> walk_inv L head new P d i k c)"

lemma walk_race_step_inv:
  assumes dl: "dlist h head L" and new: "new \<in> dom h" "new \<notin> set (head # L)" "ld_next h new = Inr new"
    and data: "set (L @ [new]) \<subseteq> dom d" and inv: "insert_inv L head new P d h k s" and k: "k \<le> 2 * length L + 5"
  shows "\<exists>s'. walk_race_step head new P d who s = Inr s'
    \<and> insert_inv L head new P d h (if who then k else if fst (fst (snd s)) = 5 then k - 1 else 2 * length L + 5) s'
    \<and> fst (fst (snd s')) = (if who then min 5 (Suc (fst (fst (snd s)))) else fst (fst (snd s)))"
proof -
  let ?z = "last (head # L)"
  obtain c i p h' where s: "s = (c, (i, p), h')" by (cases s) auto
  have i: "i \<le> 5" "1 \<le> i \<longrightarrow> p = ?z" "h' = added new head ?z i h" "walk_inv L head new P d i k c"
    using inv by (auto simp: s insert_inv_def simp del: last.simps)
  show ?thesis
  proof (cases who)
    case True
    have lz: "link h ?z head" using dl dlist_split [of h head L "[]"] by simp
    have "add_step new head (i, p) h' = Inr ((min 5 (Suc i), ?z), added new head ?z (min 5 (Suc i)) h)"
      unfolding i(3)
      by (rule add_step_added) (use ld_link [OF lz] link_dom [OF lz] new i(1,2) in \<open>auto simp del: last.simps\<close>)
    moreover have "walk_inv L head new P d (min 5 (Suc i)) k c" by (rule walk_inv_weaken [OF i(4)]) (use i(1) in auto)
    ultimately show ?thesis using True by (simp add: s insert_inv_def del: last.simps)
  next
    case False
    obtain c' where c': "walk_step head P h' d c = Inr c'" "walk_inv L head new P d i (if 4 \<le> i then k - 1 else 2 * length L + 5) c'"
      using walk_inv_step [OF dl new data i(4) k] unfolding i(3) by blast
    have "walk_inv L head new P d i (if i = 5 then k - 1 else 2 * length L + 5) c'"
      by (rule walk_inv_weaken [OF c'(2)]) (use k in auto)
    then show ?thesis using False c'(1) i by (simp add: s insert_inv_def del: last.simps)
  qed
qed

lemma walk_race_run_inv:
  assumes dl: "dlist h head L" and new: "new \<in> dom h" "new \<notin> set (head # L)" "ld_next h new = Inr new"
    and data: "set (L @ [new]) \<subseteq> dom d"
  shows "insert_inv L head new P d h k s \<Longrightarrow> k \<le> 2 * length L + 5 \<Longrightarrow>
    \<exists>s'. walk_race_run head new P d sched s = Inr s'
      \<and> insert_inv L head new P d h (if fst (fst (snd s)) = 5 then k - count_list sched False else 2 * length L + 5) s'
      \<and> fst (fst (snd s')) = min 5 (fst (fst (snd s)) + count_list sched True)"
proof (induction sched arbitrary: s k)
  case Nil
  then show ?case
    by (auto simp: walk_race_run_def insert_inv_def intro: walk_inv_weaken simp del: last.simps)
next
  case (Cons who sched)
  let ?i = "fst (fst (snd s))" and ?K = "2 * length L + 5"
  obtain s1 where s1: "walk_race_step head new P d who s = Inr s1"
    "insert_inv L head new P d h (if who then k else if ?i = 5 then k - 1 else ?K) s1"
    "fst (fst (snd s1)) = (if who then min 5 (Suc ?i) else ?i)"
    using walk_race_step_inv [OF dl new data Cons.prems, of who] by blast
  have "(if who then k else if ?i = 5 then k - 1 else ?K) \<le> ?K" using Cons.prems(2) by auto
  from Cons.IH [OF s1(2) this] obtain s' where s': "walk_race_run head new P d sched s1 = Inr s'"
    "insert_inv L head new P d h (if fst (fst (snd s1)) = 5
      then (if who then k else if ?i = 5 then k - 1 else ?K) - count_list sched False else ?K) s'"
    "fst (fst (snd s')) = min 5 (fst (fst (snd s1)) + count_list sched True)" by blast
  have i: "?i \<le> 5" using Cons.prems(1) by (cases s) (auto simp: insert_inv_def)
  have "insert_inv L head new P d h (if ?i = 5 then k - count_list (who # sched) False else ?K) s'"
    using s'(2) s1(3) i Cons.prems(2)
    by (cases s'; cases who) (auto simp: insert_inv_def intro: walk_inv_weaken split: if_splits simp del: last.simps)
  moreover have "fst (fst (snd s')) = min 5 (?i + count_list (who # sched) True)"
    using s'(3) s1(3) i by (cases who) auto
  ultimately show ?case using s1(1) s'(1) by (auto simp: walk_race_run_def)
qed

lemma added_list:
  assumes dl: "dlist h head L" and new: "new \<in> dom h" "new \<notin> set (head # L)"
  shows "dlist (added new head (last (head # L)) 5 h) head (L @ [new])"
proof -
  have lz: "link h (last (head # L)) head" using dl dlist_split [of h head L "[]"] by simp
  have "list_add_tail h new head = Inr (added new head (last (head # L)) 5 h)"
    using ld_link [OF lz] link_dom [OF lz] new(1)
    by (simp add: list_add_tail_def list_insert_def st_upd added_def del: last.simps)
  then show ?thesis using list_add_tail_dlist [OF dl new] by (metis sum.inject(2))
qed

section \<open>Properties\<close>

text \<open>C16. A walk over a bucket and an insertion into it, when the new node was initialised with \<open>init_list_head\<close> first, as in
  \<^verbatim>\<open>nat_new_2.c\<close>: under every interleaving of their memory accesses no access fails. When the insertion is done the bucket is the old
  list followed by the new entry, and the walk is over after two further reads for each entry. An entry the
  walk stops at is in the bucket and satisfies the test; when it ends without one, no old entry satisfies it.\<close>

theorem insert_race_safe:
  assumes "dlist h head L" and "new \<in> dom h" and "new \<notin> set (head # L)" and "ld_next h new = Inr new"
    and "set (L @ [new]) \<subseteq> dom d"
  shows "\<exists>c a h'. walk_race_run head new P d (s1 @ s2) (walk_start h) = Inr (c, a, h')
    \<and> (5 \<le> count_list s1 True \<longrightarrow> dlist h' head (L @ [new]))
    \<and> (5 \<le> count_list s1 True \<longrightarrow> 2 * length L + 5 \<le> count_list s2 False \<longrightarrow> walk_over c)
    \<and> (\<forall>p. c = Walk_hit p \<longrightarrow> p \<in> set (L @ [new]) \<and> (\<exists>e. d p = Some e \<and> P e))
    \<and> (c = Walk_end \<longrightarrow> (\<forall>p \<in> set L. \<forall>e. d p = Some e \<longrightarrow> \<not> P e))"
proof -
  let ?K = "2 * length L + 5"
  have "insert_inv L head new P d h ?K (walk_start h)"
    by (auto simp: insert_inv_def walk_start_def added_def intro: walk_inv.intros)
  from walk_race_run_inv [OF assms this order_refl, of s1] obtain m where m: "walk_race_run head new P d s1 (walk_start h) = Inr m"
    "insert_inv L head new P d h ?K m" "fst (fst (snd m)) = min 5 (count_list s1 True)" by (auto simp: walk_start_def)
  from walk_race_run_inv [OF assms m(2) order_refl, of s2] obtain c i p h' where s: "walk_race_run head new P d s2 m = Inr (c, (i, p), h')"
    "insert_inv L head new P d h (if fst (fst (snd m)) = 5 then ?K - count_list s2 False else ?K) (c, (i, p), h')"
    "i = min 5 (fst (fst (snd m)) + count_list s2 True)" by auto
  have run: "walk_race_run head new P d (s1 @ s2) (walk_start h) = Inr (c, (i, p), h')"
    using m(1) s(1) by (simp add: walk_race_run_def fold_r_append)
  have "dlist h' head (L @ [new])" if "5 \<le> count_list s1 True"
    using s(2,3) m(3) that added_list [OF assms(1-3)] by (simp add: insert_inv_def del: last.simps)
  moreover have "walk_over c" if "5 \<le> count_list s1 True" "?K \<le> count_list s2 False"
    using s(2) m(3) that walk_inv_over [of L head new P d i c] by (simp add: insert_inv_def del: last.simps)
  moreover have "p \<in> set (L @ [new]) \<and> (\<exists>e. d p = Some e \<and> P e)" if "c = Walk_hit p" for p
    using s(2) that by (auto simp: insert_inv_def elim: walk_inv.cases)
  moreover have "\<forall>p \<in> set L. \<forall>e. d p = Some e \<longrightarrow> \<not> P e" if "c = Walk_end"
    using s(2) that by (auto simp: insert_inv_def unhit_def elim: walk_inv.cases)
  ultimately show ?thesis using run by blast
qed

text \<open>A list with the head 5 and the entry 6, and a node 7 to be added.\<close>

definition walk_heap :: "addr \<Rightarrow> heap" where
  "walk_heap a = [5 \<mapsto> \<lparr>nxt = 6, prv = 6\<rparr>, 6 \<mapsto> \<lparr>nxt = 5, prv = 5\<rparr>, 7 \<mapsto> \<lparr>nxt = a, prv = a\<rparr>]"

lemma walk_heap_list: "dlist (walk_heap a) 5 [6]" "7 \<in> dom (walk_heap a)" "ld_next (walk_heap a) 7 = Inr a" "0 \<notin> dom (walk_heap a)"
  by (auto simp: walk_heap_def dlist_def link_def ld_next_def)

text \<open>The test of \<open>nat_timeout\<close> in \<^verbatim>\<open>nat_new_2.c\<close> at time 100, and mappings it keeps.\<close>

definition demo_expired :: "nat_mapping \<Rightarrow> bool" where
  "demo_expired m \<longleftrightarrow> is_flow_finished_h (conn m) \<noteq> 0 \<or> 60 \<le> update_time m - 100"

definition demo_mapping :: "u16 \<Rightarrow> nat_mapping" where
  "demo_mapping port = \<lparr>internal_ip = 1, external_ip = 2, internal_port = 3, external_port = port, update_time = 90,
     conn = \<lparr>internal_fin = 0, external_fin = 0, internal_seq_end = 0, external_seq_end = 0, internal_ack = 0, external_ack = 0\<rparr>\<rparr>"

theorem insert_race_safe_witness:
  "\<exists>c a h. walk_race_run 5 7 demo_expired [6 \<mapsto> demo_mapping 8, 7 \<mapsto> demo_mapping 9]
      ([True, False, True, True, False, True, True] @ replicate 7 False) (walk_start (walk_heap 7)) = Inr (c, a, h)
    \<and> dlist h 5 [6, 7] \<and> c = Walk_end"
proof -
  let ?d = "[6 \<mapsto> demo_mapping 8, 7 \<mapsto> demo_mapping 9]" and ?s = "[True, False, True, True, False, True, True]"
  have "5 \<le> count_list ?s True" "2 * length [6 :: addr] + 5 \<le> count_list (replicate 7 False) False"
    by (simp_all add: numeral_eq_Suc)
  moreover have "set ([6] @ [7]) \<subseteq> dom ?d" by auto
  ultimately obtain c a h where r: "walk_race_run 5 7 demo_expired ?d (?s @ replicate 7 False) (walk_start (walk_heap 7)) = Inr (c, a, h)"
    "dlist h 5 ([6] @ [7])" "walk_over c" "\<forall>p. c = Walk_hit p \<longrightarrow> p \<in> set ([6] @ [7]) \<and> (\<exists>e. ?d p = Some e \<and> demo_expired e)"
    using insert_race_safe [of "walk_heap 7" 5 "[6]" 7 ?d demo_expired ?s "replicate 7 False"] walk_heap_list [of 7] by auto
  have "\<not> demo_expired (demo_mapping p)" for p by (simp add: demo_expired_def demo_mapping_def is_flow_finished_h_def)
  then have "c = Walk_end" using r(3,4) by (cases c) (auto split: if_splits)
  with r show ?thesis by auto
qed

lemma walk_over_list:
  assumes "unhit P d (zs @ [x])" and "set zs \<subseteq> dom d" and "head \<notin> set zs"
    and "\<And>us z y vs. zs @ [x] = us @ z # y # vs \<Longrightarrow> ld_next h z = Inr y"
  shows "walk_race_run head new P d (replicate (2 * length zs) False @ sched) (Walk_next (hd (zs @ [x])), a, h)
    = walk_race_run head new P d sched (Walk_next x, a, h)"
  using assms
proof (induction zs)
  case (Cons z zs)
  obtain y vs where y: "zs @ [x] = y # vs" "y = hd (zs @ [x])" by (cases zs) auto
  have "ld_next h z = Inr y" using Cons.prems(4) [of "[]" z y vs] y(1) by simp
  moreover obtain e where "d z = Some e" using Cons.prems(2) by auto
  moreover have "\<not> P e" using Cons.prems(1) calculation(2) by (simp add: unhit_def)
  moreover have "ld_next h u = Inr v" if "zs @ [x] = us @ u # v # ws" for us u v ws
    using Cons.prems(4) [of "z # us" u v ws] that by simp
  ultimately show ?case using Cons.IH Cons.prems(1-3) y(2) by (simp add: walk_race_run_def unhit_def)
qed simp

text \<open>C15. When the new node was only cleared, as in \<^verbatim>\<open>mac.c\<close> and \<^verbatim>\<open>nat.c\<close>, every bucket without an entry to remove has the same
  bad moment: after the third memory access of the insertion the walk reaches the new entry, reads its null \<open>next\<close> pointer
  and follows it.\<close>

theorem insert_race_null:
  assumes "dlist h head L" and "new \<in> dom h" and "new \<notin> set (head # L)" and "ld_next h new = Inr 0" and "0 \<notin> dom h"
    and "set (L @ [new]) \<subseteq> dom d" and "\<forall>p \<in> set (L @ [new]). \<forall>e. d p = Some e \<longrightarrow> \<not> P e"
  shows "walk_race_run head new P d (replicate 3 True @ replicate (2 * length L + 4) False) (walk_start h) = Inl OutOfBounds"
proof -
  let ?z = "last (head # L)"
  let ?h = "added new head ?z 3 h"
  have dist: "distinct (L @ [head])" using assms(1) by (auto simp: dlist_def)
  have lz: "link h ?z head" using assms(1) dlist_split [of h head L "[]"] by simp
  have "?z \<in> set (head # L)" by simp
  then have neq: "new \<noteq> ?z" "new \<noteq> head" using assms(3) by (auto simp del: last.simps)
  have z: "?z \<in> dom h" "head \<in> dom h" using link_dom [OF lz] by auto
  have step: "add_step new head (i, p) (added new head ?z i h) = Inr ((min 5 (Suc i), ?z), added new head ?z (min 5 (Suc i)) h)"
    if "i \<le> 5" "1 \<le> i \<longrightarrow> p = ?z" for i p
    by (rule add_step_added) (use ld_link [OF lz] z assms(2) neq that in \<open>auto simp del: last.simps\<close>)
  have h0: "added new head ?z 0 h = h" by (simp add: added_def)
  have adds: "walk_race_run head new P d (replicate 3 True) (walk_start h) = Inr (Walk_first, (3, ?z), ?h)"
    using step [of 0 0] step [of 1 ?z] step [of 2 ?z]
    by (simp add: walk_race_run_def walk_start_def numeral_3_eq_3 h0 numeral_2_eq_2 del: last.simps)
  have ld: "ld_next ?h p = (if p = ?z then Inr new else ld_next h p)" for p
    using ld_next_added [OF assms(2) z(1) neq(1), of head 3 p] by simp
  have start: "ld_next ?h head = Inr (hd (L @ [new]))"
    using ld [of head] ld_next_head [OF assms(1)] dist by (cases L rule: rev_cases) (auto simp: hd_append)
  have walk: "walk_race_run head new P d (replicate (2 * length L) False @ [False, False, False]) (Walk_next (hd (L @ [new])), (3, ?z), ?h)
    = walk_race_run head new P d [False, False, False] (Walk_next new, (3, ?z), ?h)"
  proof (rule walk_over_list)
    fix us p y vs
    assume split: "L @ [new] = us @ p # y # vs"
    have "butlast (L @ [new]) = us @ p # butlast (y # vs)" "last (L @ [new]) = last (y # vs)"
      unfolding split by (simp_all add: butlast_append)
    then have L: "L = us @ p # butlast (y # vs)" and y: "last (y # vs) = new" by simp_all
    then have "L @ [head] = us @ p # butlast (y # vs) @ [head]" "p \<noteq> head" using dist by auto
    from next_added [OF assms(1-3) this, of 3] obtain q ws where
      "butlast (y # vs) @ [head] = q # ws" "ld_next ?h p = Inr (if butlast (y # vs) @ [head] = [head] then new else q)" by auto
    then show "ld_next ?h p = Inr y" using y by (cases vs) auto
  qed (use assms(6,7) dist in \<open>auto simp: unhit_def\<close>)
  have "ld_next ?h new = Inr 0" using ld [of new] neq(1) assms(4) by (simp del: last.simps)
  moreover have "ld_next ?h 0 = Inl OutOfBounds"
  proof -
    have "?z \<noteq> 0" "ld_next h 0 = Inl OutOfBounds" using assms(5) z(1) by (metis, simp add: ld_next_def domIff)
    then show ?thesis using ld [of 0] by (simp del: last.simps)
  qed
  moreover obtain e where "d new = Some e" "\<not> P e" using assms(6,7) by auto
  ultimately have "walk_race_run head new P d [False, False, False] (Walk_next new, (3, ?z), ?h) = Inl OutOfBounds"
    using neq(2) by (simp add: walk_race_run_def del: last.simps)
  moreover have "replicate (2 * length L + 4) False = False # replicate (2 * length L + 3) False"
    by (simp add: numeral_eq_Suc)
  then have "replicate 3 True @ replicate (2 * length L + 4) False
    = replicate 3 True @ False # replicate (2 * length L) False @ [False, False, False]"
    unfolding replicate_add by (simp add: numeral_3_eq_3)
  ultimately show ?thesis using adds start walk
    by (simp add: walk_race_run_def fold_r_append del: last.simps)
qed

definition demo_stations :: "addr \<rightharpoonup> mac_port_entry_t" where
  "demo_stations = [6 \<mapsto> \<lparr>me_mac = [0, 0, 0, 0, 0, 1], me_iface = demo_iface 7, me_visited = 90\<rparr>,
     7 \<mapsto> \<lparr>me_mac = [0, 0, 0, 0, 0, 2], me_iface = demo_iface 8, me_visited = 100\<rparr>]"

theorem insert_race_null_witness:
  "walk_race_run 5 7 (aged 100) demo_stations (replicate 3 True @ replicate 6 False) (walk_start (walk_heap 0)) = Inl OutOfBounds"
proof -
  have "set ([6] @ [7]) \<subseteq> dom demo_stations" by (auto simp: demo_stations_def)
  moreover have "\<forall>p \<in> set ([6] @ [7]). \<forall>e. demo_stations p = Some e \<longrightarrow> \<not> aged 100 e"
    by (simp add: demo_stations_def aged_def c_int_def MAC_PORT_TIMEOUT_def)
  ultimately show ?thesis
    using insert_race_null [of "walk_heap 0" 5 "[6]" 7 demo_stations "aged 100"] walk_heap_list [of 0] by simp
qed

end
