(* ===== verification/NatC.thy ===== *)
theory NatC
  imports NatTable
begin

text \<open>
  \<^verbatim>\<open>nat_stack/nat.c\<close>, the address translator the Makefile builds: one function per C
  function, on the packet's bytes. \<open>malloc\<close> succeeds; the calls of \<open>log\<close> and \<open>printf\<close> are left out
  except where their arguments follow a pointer. The clock (\<open>now\<close>) is a parameter. The lock
  protects only the two reads of \<open>get_packet_direction\<close>, so each function is one atomic step here.
\<close>

section \<open>Definitions\<close>

text \<open>The result 1 means that the flow is finished; the function is not called.\<close>

definition is_flow_finished :: "nat_connection \<Rightarrow> int" where
  "is_flow_finished c = (if internal_fin c = 1 \<or> external_fin c = 1 then 0 else 1)"

fun nat_lookup_external :: "nat_mapping list \<Rightarrow> u16 \<Rightarrow> nat_mapping option" where
  "nat_lookup_external [] port = None"
| "nat_lookup_external (m # ms) port =
     (if external_port m = port then Some m else nat_lookup_external ms port)"

fun nat_lookup_internal :: "nat_mapping list \<Rightarrow> u32 \<Rightarrow> u16 \<Rightarrow> nat_mapping option" where
  "nat_lookup_internal [] ip port = None"
| "nat_lookup_internal (m # ms) ip port =
     (if internal_ip m = ip \<and> internal_port m = port then Some m else nat_lookup_internal ms ip port)"

text \<open>The loop of \<open>assign_external_port\<close>, with the value \<open>i\<close> has behind it.\<close>

function assign_loop :: "nat \<Rightarrow> port_pool_t \<Rightarrow> nat \<times> port_pool_t" where
  "assign_loop i portspool =
     (if i < NAT_PORT_MAX
      then if portspool (of_nat i) = 0 then (i, portspool(of_nat i := 1))
           else assign_loop (i + 1) portspool
      else (i, portspool))"
  by auto
termination by (relation "measure (\<lambda>(i, _). NAT_PORT_MAX - i)") auto

declare assign_loop.simps [simp del]

definition assign_external_port :: "port_pool_t \<Rightarrow> u16 \<times> port_pool_t" where
  "assign_external_port portspool =
     (case assign_loop NAT_PORT_MIN portspool of (i, portspool) \<Rightarrow>
        (if i \<noteq> NAT_PORT_MAX then of_nat i else - 1, portspool))"

text \<open>The list argument of \<open>nat_insert_mapping\<close> is the index of a list of the table.\<close>

definition nat_insert_mapping ::
  "time_t \<Rightarrow> nat \<Rightarrow> u32 \<Rightarrow> u16 \<Rightarrow> nat_table \<Rightarrow> (nat_mapping \<times> nat_table) result" where
  "nat_insert_mapping now bucket ip port nt =
     bind_r (deref (external_iface nt)) (\<lambda>ext.
     let ext_ip = inet_addr (n_ip_str ext) in
     case assign_external_port (assigned_ports nt) of (p, ports) \<Rightarrow>
     let m = \<lparr>internal_ip = ip, external_ip = ext_ip, internal_port = port, external_port = htons p,
              update_time = now, conn = conn_zero\<rparr> in
     Inr (m, nt\<lparr>assigned_ports := ports,
                nat_mapping_list := (nat_mapping_list nt)[bucket := nat_mapping_list nt ! bucket @ [m]]\<rparr>))"

definition get_packet_direction :: "nat_table \<Rightarrow> bytes \<Rightarrow> packet_dir result" where
  "get_packet_direction nt packet =
     bind_r (rd32 packet (packet_to_ip_hdr + 16)) (\<lambda>d.
     let daddr = ntohl d in
     bind_r (deref (external_iface nt)) (\<lambda>ext.
     let ext_ip = ntohl (inet_addr (n_ip_str ext)) in
     Inr (if daddr = ext_ip then DIR_IN else DIR_OUT)))"

text \<open>Both branches store the sequence number in the acknowledgement field; nothing calls it.\<close>

definition nat_update_tcp_connection :: "bytes \<Rightarrow> packet_dir \<Rightarrow> nat_mapping \<Rightarrow> nat_mapping result" where
  "nat_update_tcp_connection packet dir m =
     bind_r (packet_to_tcp_hdr packet) (\<lambda>tcp_hdr.
     case dir of
       DIR_IN \<Rightarrow> bind_r (rd32 packet (tcp_hdr + 4)) (\<lambda>seq.
         Inr (m\<lparr>conn := (conn m)\<lparr>external_seq_end := seq, external_ack := seq\<rparr>\<rparr>))
     | DIR_OUT \<Rightarrow> bind_r (rd32 packet (tcp_hdr + 4)) (\<lambda>seq.
         Inr (m\<lparr>conn := (conn m)\<lparr>internal_seq_end := seq, internal_ack := seq\<rparr>\<rparr>))
     | DIR_INVALID \<Rightarrow> Inr m)"

text \<open>The loops over the 256 lists: the first list in which the lookup succeeds.\<close>

fun search_lists :: "('a \<Rightarrow> 'b option) \<Rightarrow> 'a list \<Rightarrow> 'b option" where
  "search_lists look [] = None"
| "search_lists look (l # ls) = (case look l of Some m \<Rightarrow> Some m | None \<Rightarrow> search_lists look ls)"

definition nat_get_mapping_from_packet :: "bytes \<Rightarrow> packet_dir \<Rightarrow> nat_table \<Rightarrow> nat_mapping option result" where
  "nat_get_mapping_from_packet packet dir nt =
     bind_r (packet_to_tcp_hdr packet) (\<lambda>tcp_hdr.
     bind_r (rd16 packet (tcp_hdr + 2)) (\<lambda>des_port.
     bind_r (rd16 packet tcp_hdr) (\<lambda>src_port.
     bind_r (rd32 packet (packet_to_ip_hdr + 12)) (\<lambda>ip.
     Inr (if dir = DIR_IN
          then search_lists (\<lambda>l. nat_lookup_external l des_port) (nat_mapping_list nt)
          else search_lists (\<lambda>l. nat_lookup_internal l ip src_port) (nat_mapping_list nt))))))"

definition do_translation ::
  "time_t \<Rightarrow> bytes \<Rightarrow> nat \<Rightarrow> packet_dir \<Rightarrow> nat_table \<Rightarrow> nat_event list \<Rightarrow> (nat_table \<times> nat_event list) result" where
  "do_translation now packet len dir nt out =
     bind_r (packet_to_tcp_hdr packet) (\<lambda>tcp_hdr.
     bind_r (rd32 packet (packet_to_ip_hdr + 12)) (\<lambda>srcip.
     bind_r (deref (external_iface nt)) (\<lambda>ext.
     let NAT_ip = inet_addr (n_ip_str ext) in
     bind_r (rd16 packet tcp_hdr) (\<lambda>srcport.
     bind_r (nat_get_mapping_from_packet packet dir nt) (\<lambda>mapping_entry.
     bind_r
       (case mapping_entry of
          Some m \<Rightarrow>
            if dir = DIR_IN then
              bind_r (wr32 packet (packet_to_ip_hdr + 16) (internal_ip m)) (\<lambda>packet.
              bind_r (wr16 packet (tcp_hdr + 2) (internal_port m)) (\<lambda>packet.
                Inr (packet, nt)))
            else
              bind_r (wr32 packet (packet_to_ip_hdr + 12) NAT_ip) (\<lambda>packet.
              bind_r (wr16 packet tcp_hdr (external_port m)) (\<lambda>packet.
                Inr (packet, nt)))
        | None \<Rightarrow>
            bind_r (nat_insert_mapping now 0 srcip srcport nt) (\<lambda>(m, nt).
              Inr (packet, nt)))
       (\<lambda>(packet, nt).
     bind_r (update_checksums packet packet_to_ip_hdr tcp_hdr) (\<lambda>packet.
       Inr (nt, out @ [IpSend packet len]))))))))"

definition nat_translate_packet ::
  "time_t \<Rightarrow> bytes \<Rightarrow> nat \<Rightarrow> nat_table \<Rightarrow> nat_event list \<Rightarrow> (nat_table \<times> nat_event list) result" where
  "nat_translate_packet now packet len nt out =
     bind_r (get_packet_direction nt packet) (\<lambda>dir.
     if dir = DIR_INVALID then
       Inr (nt, out @ [IcmpSend packet len ICMP_DEST_UNREACH ICMP_HOST_UNREACH, FreePacket packet])
     else bind_r (rd8 packet (packet_to_ip_hdr + 9)) (\<lambda>proto.
       if proto \<noteq> IPPROTO_TCP then Inr (nt, out @ [FreePacket packet])
       else do_translation now packet len dir nt out))"

text \<open>
  The inner loop of \<open>nat_timeout\<close> removes the elements of one list that satisfy the test and frees
  their ports (the argument of \<open>free_port\<close> is the stored, network-order port); the thread makes one
  pass over the lists and ends.
\<close>

fun timeout_list :: "time_t \<Rightarrow> nat_mapping list \<Rightarrow> port_pool_t \<Rightarrow> nat_mapping list \<times> port_pool_t" where
  "timeout_list now [] ports = ([], ports)"
| "timeout_list now (m # ms) ports =
     (if 60 \<le> update_time m - now
      then timeout_list now ms (free_port (external_port m) ports)
      else (case timeout_list now ms ports of (ms, ports) \<Rightarrow> (m # ms, ports)))"

fun timeout_lists :: "time_t \<Rightarrow> nat_mapping list list \<Rightarrow> port_pool_t \<Rightarrow> nat_mapping list list \<times> port_pool_t" where
  "timeout_lists now [] ports = ([], ports)"
| "timeout_lists now (l # ls) ports =
     (case timeout_list now l ports of (l, ports) \<Rightarrow>
        (case timeout_lists now ls ports of (ls, ports) \<Rightarrow> (l # ls, ports)))"

definition nat_timeout :: "time_t \<Rightarrow> nat_table \<Rightarrow> nat_table" where
  "nat_timeout now nt =
     (case timeout_lists now (nat_mapping_list nt) (assigned_ports nt) of (ls, ports) \<Rightarrow>
        nt\<lparr>nat_mapping_list := ls, assigned_ports := ports\<rparr>)"

text \<open>\<open>printf\<close> follows \<open>external_iface\<close> before the test that it is there.\<close>

definition nat_table_init :: "nat_iface list \<Rightarrow> nat_table result" where
  "nat_table_init ifs =
     (let int = if_name_to_iface ifs ''n1-eth0'';
          ext = if_name_to_iface ifs ''n1-eth1''
      in bind_r (deref ext) (\<lambda>_.
         if int = None \<or> ext = None then Inl (Exit 1)
         else Inr \<lparr>nat_mapping_list = replicate HASH_8BITS [], internal_iface = int,
                   external_iface = ext, assigned_ports = (\<lambda>_. 0)\<rparr>))"

section \<open>The port pool\<close>

lemma assign_loop_find:
  "i \<le> NAT_PORT_MAX \<Longrightarrow> assign_loop i ports =
     (case find (\<lambda>j. ports (of_nat j) = 0) [i..<NAT_PORT_MAX] of
        Some j \<Rightarrow> (j, ports(of_nat j := 1))
      | None \<Rightarrow> (NAT_PORT_MAX, ports))"
proof (induction i ports rule: assign_loop.induct)
  case (1 i ports)
  show ?case
  proof (cases "i < NAT_PORT_MAX")
    case True
    then have "[i..<NAT_PORT_MAX] = i # [i + 1..<NAT_PORT_MAX]" by (simp add: upt_conv_Cons)
    with True 1 show ?thesis by (subst assign_loop.simps) simp
  next
    case False
    with "1.prems" show ?thesis by (subst assign_loop.simps) simp
  qed
qed

lemma port_range: "NAT_PORT_MIN \<le> NAT_PORT_MAX" "NAT_PORT_MAX - NAT_PORT_MIN = 11111" "NAT_PORT_MAX < 2 ^ 16"
  by (simp_all add: NAT_PORT_MIN_def NAT_PORT_MAX_def)

lemma minus_one_u16: "(- 1 :: u16) = 65535"
  by code_simp

interpretation pool: port_pool assign_external_port free_port NAT_PORT_MIN NAT_PORT_MAX 65535
proof
  show "assign_external_port ports = (of_nat i, ports(of_nat i := 1))"
    if "find (\<lambda>i. ports (of_nat i) = 0) [NAT_PORT_MIN..<NAT_PORT_MAX] = Some i" for ports i
  proof -
    have "i \<noteq> NAT_PORT_MAX" using find_SomeD [OF that] by auto
    with that show ?thesis by (simp add: assign_external_port_def assign_loop_find port_range(1))
  qed
  show "assign_external_port ports = (65535, ports)"
    if "find (\<lambda>i. ports (of_nat i) = 0) [NAT_PORT_MIN..<NAT_PORT_MAX] = None" for ports
    using that by (simp add: assign_external_port_def assign_loop_find port_range(1) minus_one_u16)
qed (auto simp: NAT_PORT_MIN_def NAT_PORT_MAX_def free_port_def)

text \<open>C30. The pool of \<open>nat.c\<close>: starting empty, 11111 calls of \<open>assign_external_port\<close> return the ports
  12345, 12346, up to 23455 in this order, and the next call returns 65535. \<open>NAT_PORT_MAX\<close> itself,
  the last port of the range \<open>nat.h\<close> documents, is never assigned.\<close>

theorem assign_external_port_capacity:
  "fst (assign_many assign_external_port 11111 (\<lambda>_. 0)) = map of_nat [12345..<23456]
   \<and> fst (assign_external_port (snd (assign_many assign_external_port 11111 (\<lambda>_. 0)))) = 65535"
  using pool.capacity [OF port_range(1), unfolded port_range(2)]
  unfolding NAT_PORT_MIN_def NAT_PORT_MAX_def
  by blast

section \<open>The table\<close>

lemma nat_lookup_external_find: "nat_lookup_external l q = find (\<lambda>m. external_port m = q) l"
  by (induction l) auto

lemma nat_lookup_internal_find:
  "nat_lookup_internal l ip p = find (\<lambda>m. internal_ip m = ip \<and> internal_port m = p) l"
  by (induction l) auto

lemma search_lists_find: "search_lists (find P) ls = find P (concat ls)"
  by (induction ls) (auto simp: find_append split: option.split)

lemma find_concat_empty [simp]: "concat (l # replicate n []) = l"
  by (induction n) auto

text \<open>
  The invariant of the table: only the first of the 256 lists is used, the external ports in use
  are marked in the pool, and no two mappings share an external port other than the exhausted
  value 65535.
\<close>

definition port_in_use :: "port_pool_t \<Rightarrow> u16 \<Rightarrow> bool" where
  "port_in_use ports q \<longleftrightarrow> NAT_PORT_MIN \<le> unat (ntohs q) \<and> unat (ntohs q) < NAT_PORT_MAX \<and> ports (ntohs q) \<noteq> 0"

definition nat_inv :: "nat_table \<Rightarrow> bool" where
  "nat_inv nt \<longleftrightarrow>
     external_iface nt \<noteq> None
     \<and> nat_mapping_list nt = hd (nat_mapping_list nt) # replicate 255 []
     \<and> (\<forall>m \<in> set (hd (nat_mapping_list nt)).
          external_port m = 65535 \<or> port_in_use (assigned_ports nt) (external_port m))
     \<and> distinct (filter (\<lambda>q. q \<noteq> 65535) (map external_port (hd (nat_mapping_list nt))))"

definition nat_find_int :: "nat_table \<Rightarrow> u32 \<Rightarrow> u16 \<Rightarrow> nat_mapping option" where
  "nat_find_int nt ip p = search_lists (\<lambda>l. nat_lookup_internal l ip p) (nat_mapping_list nt)"

definition nat_find_ext :: "nat_table \<Rightarrow> u16 \<Rightarrow> nat_mapping option" where
  "nat_find_ext nt q = search_lists (\<lambda>l. nat_lookup_external l q) (nat_mapping_list nt)"

definition nat_add :: "time_t \<Rightarrow> u32 \<Rightarrow> u16 \<Rightarrow> nat_table \<Rightarrow> nat_table" where
  "nat_add now ip p nt = (case nat_insert_mapping now 0 ip p nt of Inl _ \<Rightarrow> nt | Inr (m, nt') \<Rightarrow> nt')"

definition nat_next_port :: "nat_table \<Rightarrow> u16 option" where
  "nat_next_port nt =
     (let p = fst (assign_external_port (assigned_ports nt)) in if p = 65535 then None else Some (htons p))"

lemma nat_find_eq:
  assumes "nat_mapping_list nt = l # replicate n []"
  shows "nat_find_ext nt q = find (\<lambda>m. external_port m = q) l"
    "nat_find_int nt ip p = find (\<lambda>m. internal_ip m = ip \<and> internal_port m = p) l"
  unfolding nat_find_ext_def nat_find_int_def nat_lookup_external_find nat_lookup_internal_find
    search_lists_find assms by simp_all

lemma ntohs_65535 [simp]: "ntohs 65535 = 65535"
  by code_simp

lemma ntohs_eq_65535 [simp]: "ntohs p = 65535 \<longleftrightarrow> p = 65535"
  using ntohs_inj [of p 65535] by simp

text \<open>What an insertion does, in the two cases of the pool.\<close>

lemma nat_insert_mapping_eq:
  fixes now :: time_t and ip :: u32 and p :: u16
  assumes "nat_inv nt" and "assign_external_port (assigned_ports nt) = (q, ports)"
    and "external_iface nt = Some ext"
  defines "m \<equiv> \<lparr>internal_ip = ip, external_ip = inet_addr (n_ip_str ext), internal_port = p,
      external_port = htons q, update_time = now, conn = conn_zero\<rparr>"
  shows "nat_insert_mapping now 0 ip p nt
    = Inr (m, nt\<lparr>assigned_ports := ports,
        nat_mapping_list := (hd (nat_mapping_list nt) @ [m]) # replicate 255 []\<rparr>)"
proof -
  obtain l where l: "nat_mapping_list nt = l # replicate 255 []" using assms(1) by (auto simp: nat_inv_def)
  then show ?thesis by (simp add: nat_insert_mapping_def assms(2,3) m_def Let_def)
qed

lemma nat_add_eq:
  assumes "nat_inv nt"
  obtains m ports q where
    "nat_insert_mapping now 0 ip p nt = Inr (m, nat_add now ip p nt)"
    "nat_add now ip p nt = nt\<lparr>assigned_ports := ports,
       nat_mapping_list := (hd (nat_mapping_list nt) @ [m]) # replicate 255 []\<rparr>"
    "assign_external_port (assigned_ports nt) = (q, ports)"
    "internal_ip m = ip" "internal_port m = p" "external_port m = htons q" "update_time m = now"
    "external_ip m = inet_addr (n_ip_str (the (external_iface nt)))"
proof -
  obtain q ports where q: "assign_external_port (assigned_ports nt) = (q, ports)" by fastforce
  obtain ext where e: "external_iface nt = Some ext" using assms by (auto simp: nat_inv_def)
  show thesis
    by (rule that [OF _ _ q]) (auto simp: nat_add_def nat_insert_mapping_eq [OF assms q e] e)
qed

text \<open>The port an insertion assigns is not used by any mapping.\<close>

lemma assigned_port_fresh:
  assumes "nat_inv nt" and "assign_external_port (assigned_ports nt) = (q, ports)" and "q \<noteq> 65535"
  shows "htons q \<notin> external_port ` set (hd (nat_mapping_list nt))"
proof
  assume "htons q \<in> external_port ` set (hd (nat_mapping_list nt))"
  then have "port_in_use (assigned_ports nt) (htons q)" using assms(1,3) by (fastforce simp: nat_inv_def)
  then show False using pool.assign_fresh(1) [OF assms(2,3)] by (simp add: port_in_use_def)
qed

lemma nat_inv_add:
  assumes inv: "nat_inv nt"
  shows "nat_inv (nat_add now ip p nt)"
proof -
  obtain m ports q where add: "nat_add now ip p nt = nt\<lparr>assigned_ports := ports,
       nat_mapping_list := (hd (nat_mapping_list nt) @ [m]) # replicate 255 []\<rparr>"
    and q: "assign_external_port (assigned_ports nt) = (q, ports)" and m: "external_port m = htons q"
    using nat_add_eq [OF inv] by metis
  have keep: "port_in_use ports x" if "port_in_use (assigned_ports nt) x" for x
    using that pool.assign_fresh(2) [OF q] by (cases rule: pool.assign_cases [of "assigned_ports nt"])
      (auto simp: port_in_use_def q)
  show ?thesis
  proof (cases "q = 65535")
    case True
    then show ?thesis using inv keep m by (auto simp: add nat_inv_def)
  next
    case False
    have "port_in_use ports (htons q)" using pool.assign_fresh [OF q False] by (simp add: port_in_use_def)
    with False show ?thesis using inv keep m assigned_port_fresh [OF inv q False]
      by (auto simp: add nat_inv_def)
  qed
qed

lemma nat_next_port_eq: "nat_next_port nt = Some q \<longleftrightarrow>
    (\<exists>p. fst (assign_external_port (assigned_ports nt)) = p \<and> p \<noteq> 65535 \<and> q = htons p)"
  by (auto simp: nat_next_port_def Let_def)

lemma nat_inv_list: "nat_inv nt \<Longrightarrow> nat_mapping_list nt = hd (nat_mapping_list nt) # replicate 255 []"
  by (simp add: nat_inv_def)

lemma nat_find_add:
  assumes inv: "nat_inv nt"
  obtains m q ports where "assign_external_port (assigned_ports nt) = (q, ports)"
    "internal_ip m = ip" "internal_port m = p" "external_port m = htons q"
    "\<And>x. nat_find_ext (nat_add now ip p nt) x
       = (case nat_find_ext nt x of Some m' \<Rightarrow> Some m' | None \<Rightarrow> if htons q = x then Some m else None)"
    "\<And>a b. nat_find_int (nat_add now ip p nt) a b
       = (case nat_find_int nt a b of Some m' \<Rightarrow> Some m' | None \<Rightarrow> if ip = a \<and> p = b then Some m else None)"
proof -
  obtain m ports q where add: "nat_add now ip p nt = nt\<lparr>assigned_ports := ports,
       nat_mapping_list := (hd (nat_mapping_list nt) @ [m]) # replicate 255 []\<rparr>"
    and q: "assign_external_port (assigned_ports nt) = (q, ports)"
    and m: "internal_ip m = ip" "internal_port m = p" "external_port m = htons q"
    using nat_add_eq [OF inv] by metis
  have new: "nat_mapping_list (nat_add now ip p nt) = (hd (nat_mapping_list nt) @ [m]) # replicate 255 []"
    by (simp add: add)
  show thesis
    by (rule that [OF q m])
      (auto simp: nat_find_eq [OF new] nat_find_eq [OF nat_inv_list [OF inv]] find_append m split: option.split)
qed

interpretation store: nat_store nat_inv nat_find_int nat_find_ext nat_add nat_next_port
proof
  fix nt :: nat_table and now :: time_t and ip ip' :: u32 and p p' q :: u16 and m :: nat_mapping
  assume inv: "nat_inv nt"
  show "nat_inv (nat_add now ip p nt)" using inv by (rule nat_inv_add)
  show fresh: "nat_find_ext nt q = None" if nx: "nat_next_port nt = Some q"
  proof -
    obtain r where r: "assign_external_port (assigned_ports nt) = (r, snd (assign_external_port (assigned_ports nt)))"
      "r \<noteq> 65535" "q = htons r" using nx by (auto simp: nat_next_port_eq prod_eq_iff)
    then show ?thesis using assigned_port_fresh [OF inv r(1,2)]
      by (simp add: nat_find_eq [OF nat_inv_list [OF inv]] find_None_iff) (metis imageI)
  qed
  show "\<exists>m. nat_find_ext (nat_add now ip p nt) q = Some m \<and> internal_ip m = ip \<and> internal_port m = p"
    if "nat_next_port nt = Some q"
    using fresh [OF that] that
    by (cases rule: nat_find_add [OF inv, of ip p now]) (auto simp: nat_next_port_eq)
  show "nat_find_ext (nat_add now ip p nt) q = Some m" if "nat_find_ext nt q = Some m"
    using that by (cases rule: nat_find_add [OF inv, of ip p now]) auto
  show "\<exists>m. nat_find_int (nat_add now ip p nt) ip p = Some m \<and> external_port m = q"
    if "nat_next_port nt = Some q" "nat_find_int nt ip p = None"
    using that by (cases rule: nat_find_add [OF inv, of ip p now]) (auto simp: nat_next_port_eq)
  show "nat_find_int (nat_add now ip' p' nt) ip p = Some m" if "nat_find_int nt ip p = Some m"
    using that by (cases rule: nat_find_add [OF inv, of ip' p' now]) auto
qed

section \<open>Translation\<close>

text \<open>
  The function the code computes on a well-formed TCP packet: the packet before its checksums are
  recomputed, and the new table. A packet without a mapping is passed on as it is, whatever its
  direction, and a mapping is made for its source.
\<close>

definition nat_ip :: "nat_table \<Rightarrow> u32" where
  "nat_ip nt = inet_addr (n_ip_str (the (external_iface nt)))"

definition nat_spec :: "time_t \<Rightarrow> bytes \<Rightarrow> nat_table \<Rightarrow> bytes \<times> nat_table" where
  "nat_spec now p nt =
     (if ip_daddr p = nat_ip nt
      then (case nat_find_ext nt (tcp_dport p) of
              Some m \<Rightarrow> (rewrite_dst p (internal_ip m) (internal_port m), nt)
            | None \<Rightarrow> (p, nat_add now (ip_saddr p) (tcp_sport p) nt))
      else (case nat_find_int nt (ip_saddr p) (tcp_sport p) of
              Some m \<Rightarrow> (rewrite_src p (nat_ip nt) (external_port m), nt)
            | None \<Rightarrow> (p, nat_add now (ip_saddr p) (tcp_sport p) nt)))"

lemma nat_get_mapping_ok:
  assumes "tcp_packet p"
  shows "nat_get_mapping_from_packet p dir nt =
    Inr (if dir = DIR_IN then nat_find_ext nt (tcp_dport p) else nat_find_int nt (ip_saddr p) (tcp_sport p))"
  using tcp_packetD [OF assms]
  by (simp add: nat_get_mapping_from_packet_def packet_to_tcp_hdr_ok rd_ok nat_find_ext_def nat_find_int_def
      tcp_dport_def tcp_sport_def ip_saddr_def)

lemma get_packet_direction_ok:
  assumes "external_iface nt \<noteq> None" and "34 \<le> length p"
  shows "get_packet_direction nt p = Inr (if ip_daddr p = nat_ip nt then DIR_IN else DIR_OUT)"
  using assms by (auto simp: get_packet_direction_def rd_ok ip_daddr_def nat_ip_def Let_def)

lemma do_translation_ok:
  assumes inv: "nat_inv nt" and p: "tcp_packet p"
    and dir: "dir = (if ip_daddr p = nat_ip nt then DIR_IN else DIR_OUT)"
  shows "\<exists>p'. do_translation now p len dir nt out = Inr (snd (nat_spec now p nt), out @ [IpSend p' len])
    \<and> resummed (fst (nat_spec now p nt)) p' \<and> update_checksums (fst (nat_spec now p nt)) 14 (tcp_off p) = Inr p'"
proof -
  obtain ext where ext: "external_iface nt = Some ext" using inv by (auto simp: nat_inv_def)
  obtain m where ins: "nat_insert_mapping now 0 (ip_saddr p) (tcp_sport p) nt
      = Inr (m, nat_add now (ip_saddr p) (tcp_sport p) nt)"
    using nat_add_eq [OF inv] by metis
  let ?q = "fst (nat_spec now p nt)"
  have q: "tcp_packet ?q" "tcp_off ?q = tcp_off p"
    using p by (auto simp: nat_spec_def split: option.split)
  obtain p' where p': "update_checksums ?q 14 (tcp_off p) = Inr p'" "resummed ?q p'"
    using update_checksums_resummed [OF q(1)] q(2) by auto
  have "do_translation now p len dir nt out = Inr (snd (nat_spec now p nt), out @ [IpSend p' len])"
    using tcp_packetD [OF p] p'(1) dir ext ins
    by (auto simp: do_translation_def packet_to_tcp_hdr_ok rd_ok nat_get_mapping_ok [OF p] nat_spec_def Let_def
        nat_ip_def rewrite_src_def rewrite_dst_def ip_saddr_def tcp_sport_def split: option.splits if_splits)
  with p' show ?thesis by blast
qed

lemma nat_translate_ok:
  assumes inv: "nat_inv nt" and p: "tcp_packet p" and tcp: "p ! 23 = IPPROTO_TCP"
  shows "\<exists>p'. nat_translate_packet now p len nt out = Inr (snd (nat_spec now p nt), out @ [IpSend p' len])
    \<and> resummed (fst (nat_spec now p nt)) p' \<and> update_checksums (fst (nat_spec now p nt)) 14 (tcp_off p) = Inr p'"
  using do_translation_ok [OF inv p refl, of now len out] inv tcp tcp_packetD(1) [OF p]
  by (auto simp: nat_translate_packet_def get_packet_direction_ok nat_inv_def rd_ok split: if_splits)

lemma nat_inv_spec: "nat_inv nt \<Longrightarrow> nat_inv (snd (nat_spec now p nt))"
  by (auto simp: nat_spec_def nat_inv_add split: option.split)

lemma nat_ip_spec [simp]: "nat_inv nt \<Longrightarrow> nat_ip (snd (nat_spec now p nt)) = nat_ip nt"
proof -
  assume inv: "nat_inv nt"
  have "external_iface (nat_add now ip q nt) = external_iface nt" for ip q
    by (cases rule: nat_add_eq [OF inv, of now ip q]) auto
  then show ?thesis by (auto simp: nat_spec_def nat_ip_def split: option.split)
qed

lemma nat_spec_keeps:
  assumes "nat_inv nt"
  shows "nat_find_ext nt q = Some m \<Longrightarrow> nat_find_ext (snd (nat_spec now p nt)) q = Some m"
    "nat_find_int nt ip r = Some m' \<Longrightarrow> nat_find_int (snd (nat_spec now p nt)) ip r = Some m'"
  using assms by (auto simp: nat_spec_def store.ext_old store.int_old split: option.split)

text \<open>A sequence of packets, each with the time it arrives at.\<close>

definition translate_all ::
  "(time_t \<times> bytes) list \<Rightarrow> nat_table \<times> nat_event list \<Rightarrow> (nat_table \<times> nat_event list) result" where
  "translate_all = fold_r (\<lambda>(now, p) (nt, out). nat_translate_packet now p (length p) nt out)"

lemma translate_all_ok:
  assumes "nat_inv nt" and "\<forall>(now, p) \<in> set ps. tcp_packet p \<and> p ! 23 = IPPROTO_TCP"
  shows "\<exists>nt' out'. translate_all ps (nt, out) = Inr (nt', out') \<and> nat_inv nt' \<and> nat_ip nt' = nat_ip nt
    \<and> nat_find_ext nt \<subseteq>\<^sub>m nat_find_ext nt'
    \<and> (\<forall>ip. nat_find_int nt ip \<subseteq>\<^sub>m nat_find_int nt' ip)"
  using assms
proof (induction ps arbitrary: nt out)
  case (Cons tp ps)
  obtain now p where tp: "tp = (now, p)" by fastforce
  let ?nt = "snd (nat_spec now p nt)"
  obtain p' where run: "nat_translate_packet now p (length p) nt out = Inr (?nt, out @ [IpSend p' (length p)])"
    using nat_translate_ok [OF Cons.prems(1), of p now "length p" out] Cons.prems(2) tp by auto
  have le: "nat_find_ext nt \<subseteq>\<^sub>m nat_find_ext ?nt" "\<And>ip. nat_find_int nt ip \<subseteq>\<^sub>m nat_find_int ?nt ip"
    using nat_spec_keeps [OF Cons.prems(1)] by (auto simp: map_le_def dom_def)
  obtain nt' out' where "translate_all ps (?nt, out @ [IpSend p' (length p)]) = Inr (nt', out')"
    "nat_inv nt'" "nat_ip nt' = nat_ip nt" "nat_find_ext ?nt \<subseteq>\<^sub>m nat_find_ext nt'"
    "\<forall>ip. nat_find_int ?nt ip \<subseteq>\<^sub>m nat_find_int nt' ip"
    using Cons.IH [OF nat_inv_spec [OF Cons.prems(1)], of now p "out @ [IpSend p' (length p)]"] Cons.prems by auto
  with run le show ?case by (auto simp: translate_all_def tp intro: map_le_trans)
qed (simp add: translate_all_def)

text \<open>An exhausted pool stays exhausted.\<close>

lemma nat_full_add:
  assumes "nat_inv nt" and "nat_next_port nt = None"
  shows "nat_next_port (nat_add now ip p nt) = None"
proof -
  have q: "fst (assign_external_port (assigned_ports nt)) = 65535"
    using assms(2) by (auto simp: nat_next_port_def Let_def split: if_splits)
  then have "assigned_ports (nat_add now ip p nt) = assigned_ports nt"
    using pool.assign_none_same [OF q] by (cases rule: nat_add_eq [OF assms(1), of now ip p]) auto
  then show ?thesis using q by (simp add: nat_next_port_def)
qed

lemma nat_full_spec: "nat_inv nt \<Longrightarrow> nat_next_port nt = None \<Longrightarrow> nat_next_port (snd (nat_spec now p nt)) = None"
  by (auto simp: nat_spec_def nat_full_add split: option.split)

lemma translate_all_full:
  assumes "nat_inv nt" and "\<forall>(now, p) \<in> set ps. tcp_packet p \<and> p ! 23 = IPPROTO_TCP"
    and "nat_next_port nt = None" and "translate_all ps (nt, out) = Inr (nt', out')"
  shows "nat_next_port nt' = None"
  using assms
proof (induction ps arbitrary: nt out)
  case (Cons tp ps)
  obtain now p where tp: "tp = (now, p)" by fastforce
  obtain p' where "nat_translate_packet now p (length p) nt out = Inr (snd (nat_spec now p nt), out @ [IpSend p' (length p)])"
    using nat_translate_ok [OF Cons.prems(1), of p now "length p" out] Cons.prems(2) tp by auto
  then have "translate_all ps (snd (nat_spec now p nt), out @ [IpSend p' (length p)]) = Inr (nt', out')"
    using Cons.prems(4) tp by (simp add: translate_all_def)
  then show ?case
    using Cons.IH [OF nat_inv_spec [OF Cons.prems(1)] _ nat_full_spec [OF Cons.prems(1,3)]] Cons.prems(2) by simp
qed (simp add: translate_all_def)

section \<open>Time-outs\<close>

lemma timeout_list_filter: "fst (timeout_list now l ports) = filter (\<lambda>m. update_time m - now < 60) l"
  by (induction now l ports rule: timeout_list.induct) (auto split: prod.split)

lemma timeout_list_id: "\<forall>m \<in> set l. update_time m - now < 60 \<Longrightarrow> timeout_list now l ports = (l, ports)"
  by (induction now l ports rule: timeout_list.induct) auto

lemma timeout_lists_id:
  "\<forall>l \<in> set ls. \<forall>m \<in> set l. update_time m - now < 60 \<Longrightarrow> timeout_lists now ls ports = (ls, ports)"
  by (induction now ls ports rule: timeout_lists.induct) (auto simp: timeout_list_id)

lemma timeout_lists_filter:
  "fst (timeout_lists now ls ports) = map (filter (\<lambda>m. update_time m - now < 60)) ls"
proof (induction now ls ports rule: timeout_lists.induct)
  case (2 now l ls ports)
  then show ?case
    using timeout_list_filter [of now l ports] by (cases "timeout_list now l ports") (simp add: case_prod_beta)
qed simp

lemma nat_timeout_id:
  "\<forall>m \<in> set (concat (nat_mapping_list nt)). update_time m < now + 60 \<Longrightarrow> nat_timeout now nt = nt"
  by (subst nat_timeout_def, subst timeout_lists_id) (simp_all add: diff_less_eq add.commute)

section \<open>Concrete tables\<close>

definition demo_pool_full :: nat_table where
  "demo_pool_full = demo_nat\<lparr>assigned_ports := (\<lambda>_. 1)\<rparr>"

definition demo_future_mapping :: nat_mapping where
  "demo_future_mapping = \<lparr>internal_ip = demo_ip 10 21 0 1, external_ip = demo_ip 159 226 39 43,
     internal_port = htons 50000, external_port = htons 12345, update_time = 100, conn = conn_zero\<rparr>"

definition demo_future :: nat_table where
  "demo_future = demo_nat\<lparr>nat_mapping_list := [demo_future_mapping] # replicate 255 [],
     assigned_ports := (\<lambda>_. 0)(12345 := 1)\<rparr>"

lemma demo_nat_inv: "nat_inv demo_nat"
  by (simp add: nat_inv_def demo_nat_def empty_lists)

lemma demo_nat_ip: "nat_ip demo_nat = demo_ip 159 226 39 43"
proof -
  have "''159.226.39.43'' = inet_ntoa (demo_ip 159 226 39 43)" by code_simp
  then show ?thesis
    by (simp only: nat_ip_def demo_nat_def demo_ext_def nat_table.simps nat_iface.simps option.sel inet_addr_ntoa)
qed

lemma demo_lookup: "nat_find_int demo_nat (ip_saddr demo_syn) (tcp_sport demo_syn) = None"
  "ip_daddr demo_syn \<noteq> nat_ip demo_nat"
  "ip_daddr demo_reply = nat_ip demo_nat" "tcp_dport demo_reply = htons 12345"
  "nat_find_ext demo_nat (tcp_dport demo_reply) = None"
  unfolding demo_nat_ip demo_syn_bytes demo_reply_bytes by code_simp+

lemma demo_next: "nat_next_port demo_nat = Some (htons 12345)"
  by (simp add: nat_next_port_def demo_nat_def assign_external_port_def NAT_PORT_MIN_def NAT_PORT_MAX_def assign_loop.simps)

lemma demo_syn2_bytes: "demo_syn2 = demo_syn[29 := 2]"
  by code_simp

lemma demo_full:
  "nat_inv demo_pool_full" "nat_next_port demo_pool_full = None" "nat_find_ext demo_pool_full 65535 = None"
  "ip_daddr demo_syn \<noteq> nat_ip demo_pool_full"
  "nat_find_int demo_pool_full (ip_saddr demo_syn) (tcp_sport demo_syn) = None"
  "tcp_packet demo_syn2" "demo_syn2 ! 23 = IPPROTO_TCP" "ip_daddr demo_syn2 \<noteq> nat_ip demo_pool_full"
  "nat_find_int demo_pool_full (ip_saddr demo_syn2) (tcp_sport demo_syn2) = None"
  "(ip_saddr demo_syn2, tcp_sport demo_syn2) \<noteq> (ip_saddr demo_syn, tcp_sport demo_syn)"
proof -
  have ip: "nat_ip demo_pool_full = demo_ip 159 226 39 43"
    using demo_nat_ip by (simp add: nat_ip_def demo_pool_full_def)
  have l: "nat_mapping_list demo_pool_full = [] # replicate 255 []"
    by (simp add: demo_pool_full_def demo_nat_def empty_lists)
  have "fst (assign_external_port (\<lambda>_. 1)) = 65535" by (simp add: pool.assign_none_iff)
  then show "nat_next_port demo_pool_full = None" by (simp add: nat_next_port_def demo_pool_full_def)
  show "nat_inv demo_pool_full" by (simp add: nat_inv_def demo_pool_full_def demo_nat_def empty_lists)
  show "nat_find_ext demo_pool_full 65535 = None"
    "nat_find_int demo_pool_full (ip_saddr demo_syn) (tcp_sport demo_syn) = None"
    "nat_find_int demo_pool_full (ip_saddr demo_syn2) (tcp_sport demo_syn2) = None"
    by (simp_all add: nat_find_eq [OF l])
  show "tcp_packet demo_syn2" "demo_syn2 ! 23 = IPPROTO_TCP"
    unfolding demo_syn2_bytes demo_syn_bytes by (simp_all add: hdr_defs IPPROTO_TCP_def)
  show "ip_daddr demo_syn \<noteq> nat_ip demo_pool_full" "ip_daddr demo_syn2 \<noteq> nat_ip demo_pool_full"
    "(ip_saddr demo_syn2, tcp_sport demo_syn2) \<noteq> (ip_saddr demo_syn, tcp_sport demo_syn)"
    unfolding ip by code_simp+
qed

definition demo_shared_reply :: bytes where
  "demo_shared_reply = demo_tcp (demo_ip 159 226 39 123) (demo_ip 159 226 39 43) (htons 80) 65535"

lemma demo_shared:
  "tcp_packet demo_shared_reply" "demo_shared_reply ! 23 = IPPROTO_TCP" "ip_daddr demo_shared_reply = nat_ip demo_pool_full"
  "tcp_dport demo_shared_reply = 65535" "length demo_shared_reply = 54" "length demo_syn2 = 54"
proof -
  have "nat_ip demo_pool_full = demo_ip 159 226 39 43"
    using demo_nat_ip by (simp add: nat_ip_def demo_pool_full_def)
  moreover have "ip_daddr demo_shared_reply = demo_ip 159 226 39 43" by code_simp
  ultimately show "ip_daddr demo_shared_reply = nat_ip demo_pool_full" by simp
  show "tcp_packet demo_shared_reply" "demo_shared_reply ! 23 = IPPROTO_TCP" "tcp_dport demo_shared_reply = 65535"
    "length demo_shared_reply = 54" "length demo_syn2 = 54"
    by code_simp+
qed

lemma demo_future: "nat_mapping_list demo_future = [demo_future_mapping] # replicate 255 []"
  "0 + 60 \<le> update_time demo_future_mapping"
  "external_port demo_future_mapping \<noteq> ntohs (external_port demo_future_mapping)"
  "ntohs (external_port demo_future_mapping) = 12345" "assigned_ports demo_future 12345 = 1"
  by (simp_all add: demo_future_def demo_future_mapping_def) code_simp

section \<open>Properties\<close>

text \<open>C1. On every packet with complete IP and TCP headers, in every table that satisfies the
  invariant, \<open>nat_translate_packet\<close> succeeds and computes the abstract translation: a packet to the
  external address whose destination port is mapped gets the internal address and port as
  destination; any other packet whose source is mapped gets the external address and port as
  source; a packet without mapping is left alone and a mapping is made. Exactly one packet is sent;
  it differs from that result only in its two checksum fields, its IP checksum is valid, and
  when the segment length is even its TCP checksum is valid exactly if the 32-bit sum of \<open>tcp_checksum\<close> does not
  overflow.\<close>

theorem nat_translate_refines:
  assumes "nat_inv nt" and "tcp_packet p" and "p ! 23 = IPPROTO_TCP"
  shows "\<exists>p'. nat_translate_packet now p len nt out = Inr (snd (nat_spec now p nt), out @ [IpSend p' len])
    \<and> resummed (fst (nat_spec now p nt)) p' \<and> nat_inv (snd (nat_spec now p nt))"
  using nat_translate_ok [OF assms] nat_inv_spec [OF assms(1)] by blast

theorem nat_translate_refines_witness:
  "\<exists>p'. nat_translate_packet 5 demo_syn 54 demo_nat []
      = Inr (snd (nat_spec 5 demo_syn demo_nat), [IpSend p' 54])
    \<and> resummed (fst (nat_spec 5 demo_syn demo_nat)) p' \<and> nat_inv (snd (nat_spec 5 demo_syn demo_nat))"
  using nat_translate_refines [OF demo_nat_inv demo_packets(1,2), of 5 54 "[]"] by simp

text \<open>C3. Round trip through \<open>nat.c\<close>: a new flow leaves while a port \<open>q\<close> is free; any
  sequence of TCP packets follows; then a packet to port \<open>q\<close> of the external address is sent on to the
  address and port the flow came from, and a later packet of the flow leaves with the external
  address and port \<open>q\<close> as its source.\<close>

theorem nat_round_trip:
  assumes inv: "nat_inv nt" and syn: "tcp_packet syn" "syn ! 23 = IPPROTO_TCP" "ip_daddr syn \<noteq> nat_ip nt"
    and new: "nat_find_int nt (ip_saddr syn) (tcp_sport syn) = None" and free: "nat_next_port nt = Some q"
    and ps: "\<forall>(t, p) \<in> set ps. tcp_packet p \<and> p ! 23 = IPPROTO_TCP"
    and rep: "tcp_packet rep" "rep ! 23 = IPPROTO_TCP" "ip_daddr rep = nat_ip nt" "tcp_dport rep = q"
    and data: "tcp_packet data" "data ! 23 = IPPROTO_TCP" "ip_daddr data \<noteq> nat_ip nt"
      "ip_saddr data = ip_saddr syn" "tcp_sport data = tcp_sport syn"
  shows "\<exists>nt' out' r m. translate_all ((t0, syn) # ps) (nt, []) = Inr (nt', out')
    \<and> nat_translate_packet t1 rep (length rep) nt' out' = Inr (nt', out' @ [IpSend r (length rep)])
    \<and> ip_daddr r = ip_saddr syn \<and> tcp_dport r = tcp_sport syn \<and> ip_saddr r = ip_saddr rep
    \<and> nat_translate_packet t2 data (length data) nt' out' = Inr (nt', out' @ [IpSend m (length data)])
    \<and> ip_saddr m = nat_ip nt \<and> tcp_sport m = q \<and> ip_daddr m = ip_daddr data"
proof -
  let ?nt1 = "nat_add t0 (ip_saddr syn) (tcp_sport syn) nt"
  have spec: "snd (nat_spec t0 syn nt) = ?nt1" using syn(3) new by (simp add: nat_spec_def)
  obtain p' where first: "nat_translate_packet t0 syn (length syn) nt [] = Inr (?nt1, [IpSend p' (length syn)])"
    using nat_translate_ok [OF inv syn(1,2), of t0 "length syn" "[]"] spec by auto
  have inv1: "nat_inv ?nt1" and ip1: "nat_ip ?nt1 = nat_ip nt"
    using nat_inv_spec [OF inv, of t0 syn] nat_ip_spec [OF inv, of t0 syn] spec by simp_all
  obtain e i where e: "nat_find_ext ?nt1 q = Some e" "internal_ip e = ip_saddr syn" "internal_port e = tcp_sport syn"
    and i: "nat_find_int ?nt1 (ip_saddr syn) (tcp_sport syn) = Some i" "external_port i = q"
    using store.ext_new [OF inv free] store.int_new [OF inv free new] by metis
  obtain nt' out' where run: "translate_all ps (?nt1, [IpSend p' (length syn)]) = Inr (nt', out')"
    and nt': "nat_inv nt'" "nat_ip nt' = nat_ip nt" "nat_find_ext ?nt1 \<subseteq>\<^sub>m nat_find_ext nt'"
      "\<forall>ip. nat_find_int ?nt1 ip \<subseteq>\<^sub>m nat_find_int nt' ip"
    using translate_all_ok [OF inv1 ps, of "[IpSend p' (length syn)]"] ip1 by auto
  have e': "nat_find_ext nt' q = Some e" using nt'(3) e(1) by (metis domI map_le_def)
  have i': "nat_find_int nt' (ip_saddr syn) (tcp_sport syn) = Some i" using nt'(4) i(1) by (metis domI map_le_def)
  have "nat_spec t1 rep nt' = (rewrite_dst rep (ip_saddr syn) (tcp_sport syn), nt')"
    using rep(3,4) nt'(2) e' e by (simp add: nat_spec_def)
  then obtain r where r: "nat_translate_packet t1 rep (length rep) nt' out' = Inr (nt', out' @ [IpSend r (length rep)])"
    "resummed (rewrite_dst rep (ip_saddr syn) (tcp_sport syn)) r"
    using nat_translate_ok [OF nt'(1) rep(1,2), of t1 "length rep" out'] by auto
  have "nat_spec t2 data nt' = (rewrite_src data (nat_ip nt) q, nt')"
    using data(3-5) nt'(2) i' i by (simp add: nat_spec_def)
  then obtain m where m: "nat_translate_packet t2 data (length data) nt' out' = Inr (nt', out' @ [IpSend m (length data)])"
    "resummed (rewrite_src data (nat_ip nt) q) m"
    using nat_translate_ok [OF nt'(1) data(1,2), of t2 "length data" out'] by auto
  show ?thesis
    using first run r m resummed_fields [OF _ r(2)] resummed_fields [OF _ m(2)] rep(1) data(1)
    by (auto simp: translate_all_def rewrite_fields)
qed

theorem nat_round_trip_witness:
  "\<exists>nt' out' r m. translate_all [(5, demo_syn), (6, demo_reply)] (demo_nat, []) = Inr (nt', out')
    \<and> nat_translate_packet 7 demo_reply (length demo_reply) nt' out'
        = Inr (nt', out' @ [IpSend r (length demo_reply)])
    \<and> ip_daddr r = ip_saddr demo_syn \<and> tcp_dport r = tcp_sport demo_syn \<and> ip_saddr r = ip_saddr demo_reply
    \<and> nat_translate_packet 8 demo_syn (length demo_syn) nt' out'
        = Inr (nt', out' @ [IpSend m (length demo_syn)])
    \<and> ip_saddr m = nat_ip demo_nat \<and> tcp_sport m = htons 12345 \<and> ip_daddr m = ip_daddr demo_syn"
  by (rule nat_round_trip [OF demo_nat_inv demo_packets(1,2) demo_lookup(2,1) demo_next _ demo_packets(3,4)
        demo_lookup(3,4) demo_packets(1,2) demo_lookup(2) refl refl]) (simp add: demo_packets)

text \<open>The first packet of a flow leaves untranslated: when an outgoing packet makes a new
  mapping, the packet that is sent still has the private source address and port, although
  the mapping for it is now in the table.\<close>

theorem nat_first_packet_untranslated:
  assumes inv: "nat_inv nt" and p: "tcp_packet p" "p ! 23 = IPPROTO_TCP" and out: "ip_daddr p \<noteq> nat_ip nt"
    and new: "nat_find_int nt (ip_saddr p) (tcp_sport p) = None"
  shows "\<exists>nt' p'. nat_translate_packet now p len nt [] = Inr (nt', [IpSend p' len])
    \<and> nat_find_int nt' (ip_saddr p) (tcp_sport p) \<noteq> None
    \<and> ip_saddr p' = ip_saddr p \<and> tcp_sport p' = tcp_sport p"
proof -
  have spec: "nat_spec now p nt = (p, nat_add now (ip_saddr p) (tcp_sport p) nt)"
    using out new by (simp add: nat_spec_def)
  have "nat_find_int (nat_add now (ip_saddr p) (tcp_sport p) nt) (ip_saddr p) (tcp_sport p) \<noteq> None"
    using new by (cases rule: nat_find_add [OF inv, of "ip_saddr p" "tcp_sport p" now]) auto
  then show ?thesis
    using nat_translate_ok [OF inv p, of now len "[]"] resummed_fields [OF p(1)] by (auto simp: spec)
qed

theorem nat_first_packet_untranslated_witness:
  "\<exists>nt' p'. nat_translate_packet 5 demo_syn 54 demo_nat [] = Inr (nt', [IpSend p' 54])
    \<and> nat_find_int nt' (ip_saddr demo_syn) (tcp_sport demo_syn) \<noteq> None
    \<and> ip_saddr p' = ip_saddr demo_syn \<and> tcp_sport p' = tcp_sport demo_syn"
  by (rule nat_first_packet_untranslated [OF demo_nat_inv demo_packets(1,2) demo_lookup(2,1)])

text \<open>An unsolicited packet from outside opens a mapping: a packet to the external address
  on a port no mapping has is sent on as it is, and a mapping for the outside host that sent it
  is added, which takes the next free port of the pool.\<close>

theorem nat_unsolicited_opens_mapping:
  assumes inv: "nat_inv nt" and p: "tcp_packet p" "p ! 23 = IPPROTO_TCP" and inw: "ip_daddr p = nat_ip nt"
    and unknown: "nat_find_ext nt (tcp_dport p) = None" and free: "nat_next_port nt = Some q"
  shows "\<exists>nt' p' m. nat_translate_packet now p len nt [] = Inr (nt', [IpSend p' len])
    \<and> ip_daddr p' = nat_ip nt \<and> tcp_dport p' = tcp_dport p
    \<and> nat_find_ext nt' q = Some m \<and> internal_ip m = ip_saddr p \<and> internal_port m = tcp_sport p"
proof -
  have spec: "nat_spec now p nt = (p, nat_add now (ip_saddr p) (tcp_sport p) nt)"
    using inw unknown by (simp add: nat_spec_def)
  show ?thesis
    using nat_translate_ok [OF inv p, of now len "[]"] resummed_fields [OF p(1)]
      store.ext_new [OF inv free, of now "ip_saddr p" "tcp_sport p"] inw by (auto simp: spec)
qed

theorem nat_unsolicited_opens_mapping_witness:
  "\<exists>nt' p' m. nat_translate_packet 5 demo_reply 54 demo_nat [] = Inr (nt', [IpSend p' 54])
    \<and> ip_daddr p' = nat_ip demo_nat \<and> tcp_dport p' = tcp_dport demo_reply
    \<and> nat_find_ext nt' (htons 12345) = Some m \<and> internal_ip m = ip_saddr demo_reply
    \<and> internal_port m = tcp_sport demo_reply"
  by (rule nat_unsolicited_opens_mapping [OF demo_nat_inv demo_packets(3,4) demo_lookup(3,5) demo_next])

text \<open>C35. When all ports of the pool are assigned, a packet \<open>p\<close> opens the first flow, and any TCP
  packets follow. From then on every new flow shares the external port 65535 with the flow of \<open>p\<close>: after its first packet
  \<open>r\<close>, its packets \<open>r2\<close> leave with the external address and port 65535 as their source, but a packet \<open>rep\<close> to
  that port of the external address is rewritten to the host and port of \<open>p\<close>.\<close>

theorem nat_exhausted_pool_shared:
  assumes inv: "nat_inv nt" and full: "nat_next_port nt = None" and none: "nat_find_ext nt 65535 = None"
    and p: "tcp_packet p" "p ! 23 = IPPROTO_TCP" "ip_daddr p \<noteq> nat_ip nt"
      "nat_find_int nt (ip_saddr p) (tcp_sport p) = None"
    and ps: "\<forall>(t, p) \<in> set ps. tcp_packet p \<and> p ! 23 = IPPROTO_TCP"
    and run: "translate_all ((t0, p) # ps) (nt, []) = Inr (nt', out')"
    and r: "tcp_packet r" "r ! 23 = IPPROTO_TCP" "ip_daddr r \<noteq> nat_ip nt"
      "nat_find_int nt' (ip_saddr r) (tcp_sport r) = None"
    and r2: "tcp_packet r2" "r2 ! 23 = IPPROTO_TCP" "ip_daddr r2 \<noteq> nat_ip nt"
      "ip_saddr r2 = ip_saddr r" "tcp_sport r2 = tcp_sport r"
    and rep: "tcp_packet rep" "rep ! 23 = IPPROTO_TCP" "ip_daddr rep = nat_ip nt" "tcp_dport rep = 65535"
  shows "\<exists>nt2 x y z. nat_translate_packet t1 r (length r) nt' out' = Inr (nt2, out' @ [IpSend x (length r)])
    \<and> nat_translate_packet t2 r2 (length r2) nt2 out2 = Inr (nt2, out2 @ [IpSend y (length r2)])
    \<and> ip_saddr y = nat_ip nt \<and> tcp_sport y = 65535
    \<and> nat_translate_packet t3 rep (length rep) nt2 out3 = Inr (nt2, out3 @ [IpSend z (length rep)])
    \<and> ip_daddr z = ip_saddr p \<and> tcp_dport z = tcp_sport p"
proof -
  let ?n1 = "nat_add t0 (ip_saddr p) (tcp_sport p) nt"
  let ?n2 = "nat_add t1 (ip_saddr r) (tcp_sport r) nt'"
  have port: "fst (assign_external_port (assigned_ports n)) = 65535" if "nat_next_port n = None" for n
    using that by (auto simp: nat_next_port_def Let_def split: if_splits)
  have spec1: "nat_spec t0 p nt = (p, ?n1)" using p(3,4) by (simp add: nat_spec_def)
  obtain p' where first: "nat_translate_packet t0 p (length p) nt [] = Inr (?n1, [IpSend p' (length p)])"
    using nat_translate_ok [OF inv p(1,2), of t0 "length p" "[]"] spec1 by auto
  have n1: "nat_inv ?n1" "nat_ip ?n1 = nat_ip nt" "nat_next_port ?n1 = None"
    using nat_inv_add [OF inv] nat_ip_spec [OF inv, of t0 p] spec1 nat_full_add [OF inv full] by simp_all
  obtain a where a: "nat_find_ext ?n1 65535 = Some a" "internal_ip a = ip_saddr p" "internal_port a = tcp_sport p"
    using port [OF full] none by (cases rule: nat_find_add [OF inv, of "ip_saddr p" "tcp_sport p" t0]) auto
  have rest: "translate_all ps (?n1, [IpSend p' (length p)]) = Inr (nt', out')"
    using run first by (simp add: translate_all_def)
  have n': "nat_inv nt'" "nat_ip nt' = nat_ip nt" "nat_find_ext ?n1 \<subseteq>\<^sub>m nat_find_ext nt'"
    using translate_all_ok [OF n1(1) ps, of "[IpSend p' (length p)]"] rest n1(2) by auto
  have a': "nat_find_ext nt' 65535 = Some a" using n'(3) a(1) by (metis domI map_le_def)
  have full': "nat_next_port nt' = None" by (rule translate_all_full [OF n1(1) ps n1(3) rest])
  have spec2: "nat_spec t1 r nt' = (r, ?n2)" using r(3,4) n'(2) by (simp add: nat_spec_def)
  obtain x where x: "nat_translate_packet t1 r (length r) nt' out' = Inr (?n2, out' @ [IpSend x (length r)])"
    using nat_translate_ok [OF n'(1) r(1,2), of t1 "length r" out'] spec2 by auto
  have n2: "nat_inv ?n2" "nat_ip ?n2 = nat_ip nt"
    using nat_inv_add [OF n'(1)] nat_ip_spec [OF n'(1), of t1 r] n'(2) spec2 by simp_all
  obtain b where b: "nat_find_ext ?n2 65535 = Some a" "nat_find_int ?n2 (ip_saddr r) (tcp_sport r) = Some b" "external_port b = 65535"
    using port [OF full'] a' r(4) by (cases rule: nat_find_add [OF n'(1), of "ip_saddr r" "tcp_sport r" t1]) auto
  have "nat_spec t2 r2 ?n2 = (rewrite_src r2 (nat_ip nt) 65535, ?n2)" using r2(3-5) n2(2) b by (simp add: nat_spec_def)
  then obtain y where y: "nat_translate_packet t2 r2 (length r2) ?n2 out2 = Inr (?n2, out2 @ [IpSend y (length r2)])"
    "resummed (rewrite_src r2 (nat_ip nt) 65535) y"
    using nat_translate_ok [OF n2(1) r2(1,2), of t2 "length r2" out2] by auto
  have "nat_spec t3 rep ?n2 = (rewrite_dst rep (ip_saddr p) (tcp_sport p), ?n2)" using rep(3,4) n2(2) b(1) a(2,3) by (simp add: nat_spec_def)
  then obtain z where z: "nat_translate_packet t3 rep (length rep) ?n2 out3 = Inr (?n2, out3 @ [IpSend z (length rep)])"
    "resummed (rewrite_dst rep (ip_saddr p) (tcp_sport p)) z"
    using nat_translate_ok [OF n2(1) rep(1,2), of t3 "length rep" out3] by auto
  show ?thesis
    using x y z resummed_fields [OF _ y(2)] resummed_fields [OF _ z(2)] r2(1) rep(1) by (auto simp: rewrite_fields)
qed

theorem nat_exhausted_pool_shared_witness:
  "\<exists>nt' out' nt2 x y z. translate_all [(5, demo_syn)] (demo_pool_full, []) = Inr (nt', out')
    \<and> nat_translate_packet 6 demo_syn2 54 nt' out' = Inr (nt2, out' @ [IpSend x 54])
    \<and> nat_translate_packet 7 demo_syn2 54 nt2 [] = Inr (nt2, [IpSend y 54])
    \<and> ip_saddr y = nat_ip demo_pool_full \<and> tcp_sport y = 65535
    \<and> nat_translate_packet 8 demo_shared_reply 54 nt2 [] = Inr (nt2, [IpSend z 54])
    \<and> ip_daddr z = ip_saddr demo_syn \<and> tcp_dport z = tcp_sport demo_syn"
proof -
  let ?n1 = "nat_add 5 (ip_saddr demo_syn) (tcp_sport demo_syn) demo_pool_full"
  have "nat_spec 5 demo_syn demo_pool_full = (demo_syn, ?n1)" using demo_full(4,5) by (simp add: nat_spec_def)
  then obtain p' where "nat_translate_packet 5 demo_syn 54 demo_pool_full [] = Inr (?n1, [IpSend p' 54])"
    using nat_translate_ok [OF demo_full(1) demo_packets(1,2), of 5 54 "[]"] by auto
  then have run: "translate_all [(5, demo_syn)] (demo_pool_full, []) = Inr (?n1, [IpSend p' 54])"
    by (simp add: translate_all_def demo_packets)
  have new: "nat_find_int ?n1 (ip_saddr demo_syn2) (tcp_sport demo_syn2) = None"
    using demo_full(9,10) by (cases rule: nat_find_add [OF demo_full(1), of "ip_saddr demo_syn" "tcp_sport demo_syn" 5]) auto
  show ?thesis
    using nat_exhausted_pool_shared [OF demo_full(1-3) demo_packets(1,2) demo_full(4,5) _ run demo_full(6-8) new demo_full(6-8) refl refl
        demo_shared(1-4), of 6 7 "[]" 8 "[]"] run demo_shared(5,6) by auto
qed

text \<open>\<open>nat_timeout\<close> keeps a mapping exactly when its time of last use is less than 60 seconds
  in the future; no mapping is ever too old for it.\<close>

theorem nat_timeout_keeps_idle:
  "nat_mapping_list (nat_timeout now nt)
     = map (filter (\<lambda>m. update_time m < now + 60)) (nat_mapping_list nt)"
  using timeout_lists_filter [of now "nat_mapping_list nt" "assigned_ports nt"]
  by (auto simp: nat_timeout_def case_prod_beta diff_less_eq add.commute)

text \<open>A mapping that \<open>nat_timeout\<close> does remove does not give its port back unless the byte-swapped
  port is the same number: \<open>free_port\<close> gets the port in network order.\<close>

theorem nat_timeout_leaks_port:
  assumes "nat_mapping_list nt = [m] # replicate 255 []" and "now + 60 \<le> update_time m"
    and "external_port m \<noteq> ntohs (external_port m)"
  shows "nat_mapping_list (nat_timeout now nt) = replicate 256 []
    \<and> assigned_ports (nat_timeout now nt) (ntohs (external_port m))
        = assigned_ports nt (ntohs (external_port m))"
proof -
  have "timeout_lists now (replicate n []) ports = (replicate n [], ports)" for n ports
    by (induction n) auto
  then show ?thesis using assms by (auto simp: nat_timeout_def free_port_def numeral_eq_Suc)
qed

theorem nat_timeout_leaks_port_witness:
  "nat_mapping_list (nat_timeout 0 demo_future) = replicate 256 []
    \<and> assigned_ports (nat_timeout 0 demo_future) 12345 = 1"
  using nat_timeout_leaks_port [of demo_future demo_future_mapping 0] demo_future by simp

text \<open>A packet of any other protocol is freed and nothing else happens. The answer for an
  invalid direction is never sent: every packet is inbound or outbound.\<close>

theorem nat_non_tcp_dropped:
  assumes "external_iface nt \<noteq> None" and "34 \<le> length p" and "p ! 23 \<noteq> IPPROTO_TCP"
  shows "nat_translate_packet now p len nt out = Inr (nt, out @ [FreePacket p])"
  using assms by (simp add: nat_translate_packet_def get_packet_direction_ok rd_ok)

theorem nat_non_tcp_dropped_witness:
  "nat_translate_packet 5 (replicate 40 0) 40 demo_nat []
     = Inr (demo_nat, [FreePacket (replicate 40 0)])"
  using nat_non_tcp_dropped [of demo_nat "replicate 40 0" 5 40 "[]"]
  by (simp add: demo_nat_def IPPROTO_TCP_def)

text \<open>The translator does not look at the length it is given: a packet that ends before the
  IP addresses do makes it read past the buffer.\<close>

theorem nat_short_packet_overread:
  assumes "length p < 34"
  shows "nat_translate_packet now p len nt out = Inl OutOfBounds"
  using assms by (simp add: nat_translate_packet_def get_packet_direction_def rd32_def)

theorem nat_short_packet_overread_witness:
  "nat_translate_packet 0 (replicate 20 0) 20 demo_nat [] = Inl OutOfBounds"
  by (rule nat_short_packet_overread) simp

text \<open>Start-up: with both interfaces present the table is empty, satisfies the invariant and has the whole
  pool free; without \<open>n1-eth1\<close> the message that prints its address follows a null pointer; with it but
  without \<open>n1-eth0\<close> the process exits with code 1.\<close>

theorem nat_table_init_cases:
  "(case (if_name_to_iface ifs ''n1-eth0'', if_name_to_iface ifs ''n1-eth1'') of
      (_, None) \<Rightarrow> nat_table_init ifs = Inl NullDeref
    | (None, Some _) \<Rightarrow> nat_table_init ifs = Inl (Exit 1)
    | (Some i, Some e) \<Rightarrow> \<exists>nt. nat_table_init ifs = Inr nt \<and> nat_inv nt \<and> internal_iface nt = Some i
         \<and> external_iface nt = Some e \<and> concat (nat_mapping_list nt) = []
         \<and> nat_next_port nt = Some (htons 12345))"
proof -
  have "fst (assign_external_port (\<lambda>_. 0)) = 12345"
    by (simp add: assign_external_port_def NAT_PORT_MIN_def NAT_PORT_MAX_def assign_loop.simps)
  then show ?thesis
    by (auto simp: nat_table_init_def nat_inv_def nat_next_port_def empty_lists Let_def split: option.split)
qed

end
