(* ===== verification/NatHeap.thy ===== *)
theory NatHeap
  imports Buckets NatC
begin

text \<open>
  \<^verbatim>\<open>nat_stack/nat.c\<close> on memory: the functions of theory \<open>NatC\<close> that touch the table, with the
  operations of \<^verbatim>\<open>list.h\<close>, \<open>malloc\<close>, \<open>free\<close> and pointers to mappings. They compute what the functions of
  \<open>NatC\<close> compute on lists, with one difference that lists do not show: \<open>nat_get_mapping_from_packet\<close> allocates a
  mapping, overwrites the only pointer to it and so loses it, once per translated packet.
\<close>

section \<open>The functions\<close>

record nat_mem =
  nm_heap :: heap
  nm_mappings :: "nat_mapping store"
  nm_internal :: "nat_iface option"
  nm_external :: "nat_iface option"
  nm_ports :: port_pool_t

definition nat_lookup_external_p :: "nat_mem \<Rightarrow> addr \<Rightarrow> u16 \<Rightarrow> addr option result option" where
  "nat_lookup_external_p nm mapping_list port =
     after_loop (\<lambda>s. None) (\<lambda>a s. Some a)
       (list_for_each_entry_safe (find_entry (\<lambda>m. external_port m = port)) mapping_list (nm_heap nm, nm_mappings nm))"

definition nat_lookup_internal_p :: "nat_mem \<Rightarrow> addr \<Rightarrow> u32 \<Rightarrow> u16 \<Rightarrow> addr option result option" where
  "nat_lookup_internal_p nm mapping_list ip port =
     after_loop (\<lambda>s. None) (\<lambda>a s. Some a)
       (list_for_each_entry_safe (find_entry (\<lambda>m. internal_ip m = ip \<and> internal_port m = port)) mapping_list
          (nm_heap nm, nm_mappings nm))"

definition mapping_zero :: nat_mapping where
  "mapping_zero = \<lparr>internal_ip = 0, external_ip = 0, internal_port = 0, external_port = 0, update_time = 0, conn = conn_zero\<rparr>"

text \<open>\<open>malloc\<close> and \<open>bzero\<close> of a mapping.\<close>

definition alloc_mapping :: "(heap \<Rightarrow> addr) \<Rightarrow> nat_mem \<Rightarrow> addr \<times> nat_mem" where
  "alloc_mapping malloc nm =
     (let a = malloc (nm_heap nm)
      in (a, nm\<lparr>nm_heap := malloc_node (nm_heap nm) a, nm_mappings := (nm_mappings nm)(a \<mapsto> mapping_zero)\<rparr>))"

definition nat_insert_mapping_p ::
  "(heap \<Rightarrow> addr) \<Rightarrow> time_t \<Rightarrow> addr \<Rightarrow> u32 \<Rightarrow> u16 \<Rightarrow> nat_mem \<Rightarrow> (addr \<times> nat_mem) result" where
  "nat_insert_mapping_p malloc now mapping_list ip port nm =
     (case alloc_mapping malloc nm of (mapping_entry, nm) \<Rightarrow>
     bind_r (deref (nm_external nm)) (\<lambda>ext.
     let ext_ip = inet_addr (n_ip_str ext) in
     case assign_external_port (nm_ports nm) of (p, ports) \<Rightarrow>
     let m = mapping_zero\<lparr>internal_ip := ip, internal_port := port, external_ip := ext_ip,
               external_port := htons p, update_time := now\<rparr> in
     bind_r (list_add_tail (nm_heap nm) mapping_entry mapping_list) (\<lambda>h.
       Inr (mapping_entry, nm\<lparr>nm_heap := h, nm_mappings := (nm_mappings nm)(mapping_entry \<mapsto> m), nm_ports := ports\<rparr>))))"

text \<open>The loop over the lists: return the first pointer that is not null.\<close>

definition first_pointer :: "(addr \<Rightarrow> addr option result option) \<Rightarrow> addr option result option" where
  "first_pointer look =
     after_loop (\<lambda>s. None) (\<lambda>a s. Some a)
       (for_buckets (\<lambda>i s. bind_p (look (bucket_head i)) (\<lambda>p. Some (Inr (case p of
            Some a \<Rightarrow> Return a s | None \<Rightarrow> Continue s)))) [0..<HASH_8BITS] ())"

definition nat_get_mapping_from_packet_p ::
  "(heap \<Rightarrow> addr) \<Rightarrow> bytes \<Rightarrow> packet_dir \<Rightarrow> nat_mem \<Rightarrow> (addr option \<times> nat_mem) result option" where
  "nat_get_mapping_from_packet_p malloc packet dir nm =
     (case alloc_mapping malloc nm of (lost, nm) \<Rightarrow>
     bind_p (Some (packet_to_tcp_hdr packet)) (\<lambda>tcp_hdr.
     bind_p (Some (rd16 packet (tcp_hdr + 2))) (\<lambda>des_port.
     bind_p (Some (rd16 packet tcp_hdr)) (\<lambda>src_port.
     bind_p (Some (rd32 packet (packet_to_ip_hdr + 12))) (\<lambda>ip.
     bind_p (if dir = DIR_IN
             then first_pointer (\<lambda>l. nat_lookup_external_p nm l des_port)
             else first_pointer (\<lambda>l. nat_lookup_internal_p nm l ip src_port)) (\<lambda>p.
       Some (Inr (p, nm))))))))"

definition do_translation_p ::
  "(heap \<Rightarrow> addr) \<Rightarrow> time_t \<Rightarrow> bytes \<Rightarrow> nat \<Rightarrow> packet_dir \<Rightarrow> nat_mem \<Rightarrow> nat_event list \<Rightarrow> (nat_mem \<times> nat_event list) result option" where
  "do_translation_p malloc now packet len dir nm out =
     bind_p (Some (packet_to_tcp_hdr packet)) (\<lambda>tcp_hdr.
     bind_p (Some (rd32 packet (packet_to_ip_hdr + 12))) (\<lambda>srcip.
     bind_p (Some (deref (nm_external nm))) (\<lambda>ext.
     let NAT_ip = inet_addr (n_ip_str ext) in
     bind_p (Some (rd16 packet tcp_hdr)) (\<lambda>srcport.
     bind_p (nat_get_mapping_from_packet_p malloc packet dir nm) (\<lambda>(mapping_entry, nm).
     Some (bind_r
       (case mapping_entry of
          Some a \<Rightarrow>
            bind_r (ld_entry (nm_mappings nm) a) (\<lambda>m.
            if dir = DIR_IN then
              bind_r (wr32 packet (packet_to_ip_hdr + 16) (internal_ip m)) (\<lambda>packet.
              bind_r (wr16 packet (tcp_hdr + 2) (internal_port m)) (\<lambda>packet.
                Inr (packet, nm)))
            else
              bind_r (wr32 packet (packet_to_ip_hdr + 12) NAT_ip) (\<lambda>packet.
              bind_r (wr16 packet tcp_hdr (external_port m)) (\<lambda>packet.
                Inr (packet, nm))))
        | None \<Rightarrow>
            bind_r (nat_insert_mapping_p malloc now (bucket_head 0) srcip srcport nm) (\<lambda>(a, nm).
            bind_r (ld_entry (nm_mappings nm) a) (\<lambda>m.
              Inr (packet, nm))))
       (\<lambda>(packet, nm).
     bind_r (update_checksums packet packet_to_ip_hdr tcp_hdr) (\<lambda>packet.
       Inr (nm, out @ [IpSend packet len])))))))))"

definition get_packet_direction_p :: "nat_mem \<Rightarrow> bytes \<Rightarrow> packet_dir result" where
  "get_packet_direction_p nm packet =
     bind_r (rd32 packet (packet_to_ip_hdr + 16)) (\<lambda>d.
     let daddr = ntohl d in
     bind_r (deref (nm_external nm)) (\<lambda>ext.
     let ext_ip = ntohl (inet_addr (n_ip_str ext)) in
     Inr (if daddr = ext_ip then DIR_IN else DIR_OUT)))"

definition nat_translate_packet_p ::
  "(heap \<Rightarrow> addr) \<Rightarrow> time_t \<Rightarrow> bytes \<Rightarrow> nat \<Rightarrow> nat_mem \<Rightarrow> nat_event list \<Rightarrow> (nat_mem \<times> nat_event list) result option" where
  "nat_translate_packet_p malloc now packet len nm out =
     bind_p (Some (get_packet_direction_p nm packet)) (\<lambda>dir.
     if dir = DIR_INVALID then
       Some (Inr (nm, out @ [IcmpSend packet len ICMP_DEST_UNREACH ICMP_HOST_UNREACH, FreePacket packet]))
     else bind_p (Some (rd8 packet (packet_to_ip_hdr + 9))) (\<lambda>proto.
       if proto \<noteq> IPPROTO_TCP then Some (Inr (nm, out @ [FreePacket packet]))
       else do_translation_p malloc now packet len dir nm out))"

definition nat_timeout_body ::
  "time_t \<Rightarrow> addr \<Rightarrow> heap \<times> nat_mapping store \<times> port_pool_t \<Rightarrow> (heap \<times> nat_mapping store \<times> port_pool_t, unit) flow result" where
  "nat_timeout_body now mapping_entry s = (case s of (h, d, ports) \<Rightarrow>
     bind_r (ld_entry d mapping_entry) (\<lambda>m.
     if 60 \<le> update_time m - now then
       let ports = free_port (external_port m) ports in
       bind_r (list_delete_entry h mapping_entry) (\<lambda>h.
       bind_r (free_entry h d mapping_entry) (\<lambda>(h, d).
         Inr (Continue (h, d, ports))))
     else Inr (Continue s)))"

definition nat_timeout_p :: "time_t \<Rightarrow> nat_mem \<Rightarrow> nat_mem result option" where
  "nat_timeout_p now nm =
     after_loop (\<lambda>(h, d, ports). nm\<lparr>nm_heap := h, nm_mappings := d, nm_ports := ports\<rparr>)
       (\<lambda>x (h, d, ports). nm\<lparr>nm_heap := h, nm_mappings := d, nm_ports := ports\<rparr>)
       (for_buckets (\<lambda>i. list_for_each_entry_safe (nat_timeout_body now) (bucket_head i)) [0..<HASH_8BITS]
          (nm_heap nm, nm_mappings nm, nm_ports nm))"

definition nat_destroy_body ::
  "addr \<Rightarrow> heap \<times> nat_mapping store \<times> unit \<Rightarrow> (heap \<times> nat_mapping store \<times> unit, unit) flow result" where
  "nat_destroy_body mapping_entry s = (case s of (h, d, u) \<Rightarrow>
     bind_r (list_delete_entry h mapping_entry) (\<lambda>h.
     bind_r (free_entry h d mapping_entry) (\<lambda>(h, d).
       Inr (Continue (h, d, u)))))"

definition nat_table_destroy_p :: "nat_mem \<Rightarrow> nat_mem result option" where
  "nat_table_destroy_p nm =
     after_loop (\<lambda>(h, d, u). nm\<lparr>nm_heap := h, nm_mappings := d\<rparr>) (\<lambda>x (h, d, u). nm\<lparr>nm_heap := h, nm_mappings := d\<rparr>)
       (for_buckets (\<lambda>i. list_for_each_entry_safe nat_destroy_body (bucket_head i)) [0..<HASH_8BITS]
          (nm_heap nm, nm_mappings nm, ()))"

definition nat_table_init_p :: "nat_iface list \<Rightarrow> nat_mem result" where
  "nat_table_init_p ifs =
     bind_r (fold_r (\<lambda>i h. init_list_head h (bucket_head i)) [0..<HASH_8BITS] (zeroed_heads HASH_8BITS)) (\<lambda>h.
     let int = if_name_to_iface ifs ''n1-eth0'';
         ext = if_name_to_iface ifs ''n1-eth1''
     in bind_r (deref ext) (\<lambda>_.
        if int = None \<or> ext = None then Inl (Exit 1)
        else Inr \<lparr>nm_heap = h, nm_mappings = Map.empty, nm_internal = int, nm_external = ext, nm_ports = (\<lambda>_. 0)\<rparr>))"

section \<open>Each function computes its list version\<close>

text \<open>The memory holds the table, the other fields are the same, and \<open>G\<close> is lost.\<close>

definition nat_sim :: "addr set \<Rightarrow> nat_mem \<Rightarrow> nat_table \<Rightarrow> bool" where
  "nat_sim G nm nt \<longleftrightarrow> in_memory (nm_heap nm) (nm_mappings nm) G (nat_mapping_list nt)
     \<and> length (nat_mapping_list nt) = HASH_8BITS \<and> nm_internal nm = internal_iface nt
     \<and> nm_external nm = external_iface nt \<and> nm_ports nm = assigned_ports nt"

lemma nat_lookup_p_ok:
  assumes "dlist (nm_heap nm) l xs" and "entries_at (nm_mappings nm) xs ms"
  shows "\<exists>p. nat_lookup_external_p nm l q = Some (Inr p) \<and> pointer_to (nm_mappings nm) p (nat_lookup_external ms q)"
    "\<exists>p. nat_lookup_internal_p nm l ip q = Some (Inr p) \<and> pointer_to (nm_mappings nm) p (nat_lookup_internal ms ip q)"
  using list_for_each_entry_safe_find [OF assms, of "\<lambda>m. external_port m = q"]
    list_for_each_entry_safe_find [OF assms, of "\<lambda>m. internal_ip m = ip \<and> internal_port m = q"]
  by (auto simp: nat_lookup_external_p_def nat_lookup_internal_p_def nat_lookup_external_find
      nat_lookup_internal_find after_loop_def split: option.splits)

lemma first_pointer_ok:
  assumes mem: "in_memory h d G t" and len: "length t = HASH_8BITS"
    and look: "\<And>l xs es. dlist h l xs \<Longrightarrow> entries_at d xs es \<Longrightarrow> \<exists>p. lk l = Some (Inr p) \<and> pointer_to d p (f es)"
  shows "\<exists>p. first_pointer lk = Some (Inr p) \<and> pointer_to d p (search_lists f t)"
proof -
  obtain ass where tab: "table_at h d G ass t" using mem by (auto simp: in_memory_def)
  let ?body = "\<lambda>i s. bind_p (lk (bucket_head i)) (\<lambda>p. Some (Inr (case p of Some a \<Rightarrow> Return a s | None \<Rightarrow> Continue s)))"
  have "\<exists>p. for_buckets ?body [k..<length t] () = Some (Inr (case p of Some a \<Rightarrow> Return a () | None \<Rightarrow> Continue ()))
      \<and> pointer_to d p (search_lists f (drop k t))" if "k \<le> length t" for k
    using that
  proof (induction "length t - k" arbitrary: k)
    case 0
    then show ?case by (auto simp: pointer_to_def intro!: exI [of _ None])
  next
    case (Suc n)
    then have k: "k < length t" by simp
    obtain p where p: "lk (bucket_head k) = Some (Inr p)" "pointer_to d p (f (t ! k))"
      using look [OF table_at_lists [OF tab k]] by blast
    have dr: "drop k t = t ! k # drop (Suc k) t" "[k..<length t] = k # [Suc k..<length t]"
      using k by (simp_all add: Cons_nth_drop_Suc upt_conv_Cons)
    show ?case
    proof (cases p)
      case None
      then show ?thesis using Suc.hyps(1) [of "Suc k"] Suc.hyps(2) k p dr by (auto simp: pointer_to_def)
    next
      case (Some a)
      then show ?thesis using p dr by (intro exI [of _ p]) (auto simp: pointer_to_def)
    qed
  qed
  from this [of 0] show ?thesis
    by (auto simp: first_pointer_def after_loop_def len split: option.splits)
qed

lemma alloc_mapping_sim:
  assumes "malloc_fresh malloc" and "nat_sim G nm nt"
  obtains a nm' where "alloc_mapping malloc nm = (a, nm')" "nat_sim (insert a G) nm' nt" "a \<notin> G"
proof -
  let ?a = "malloc (nm_heap nm)"
  have mem: "in_memory (nm_heap nm) (nm_mappings nm) G (nat_mapping_list nt)" using assms(2) by (simp add: nat_sim_def)
  note fresh = in_memory_fresh [OF assms(1) mem]
  moreover have "G \<subseteq> dom (nm_heap nm)" by (rule in_memory_lost [OF mem])
  ultimately show thesis
    using that [of ?a] in_memory_leak [OF mem fresh] assms(2)
    by (auto simp: alloc_mapping_def nat_sim_def Let_def)
qed

lemma nat_get_mapping_from_packet_p_sim:
  assumes "malloc_fresh malloc" and "nat_sim G nm nt"
  shows "case nat_get_mapping_from_packet packet dir nt of
      Inl e \<Rightarrow> nat_get_mapping_from_packet_p malloc packet dir nm = Some (Inl e)
    | Inr v \<Rightarrow> \<exists>p nm' a. nat_get_mapping_from_packet_p malloc packet dir nm = Some (Inr (p, nm'))
        \<and> nat_sim (insert a G) nm' nt \<and> a \<notin> G \<and> pointer_to (nm_mappings nm') p v"
proof -
  obtain a nm' where a: "alloc_mapping malloc nm = (a, nm')" "nat_sim (insert a G) nm' nt" "a \<notin> G"
    using alloc_mapping_sim [OF assms] .
  have mem: "in_memory (nm_heap nm') (nm_mappings nm') (insert a G) (nat_mapping_list nt)"
    "length (nat_mapping_list nt) = HASH_8BITS" using a(2) by (simp_all add: nat_sim_def)
  have "\<exists>p. first_pointer (\<lambda>l. nat_lookup_external_p nm' l q) = Some (Inr p)
      \<and> pointer_to (nm_mappings nm') p (search_lists (\<lambda>l. nat_lookup_external l q) (nat_mapping_list nt))" for q
    by (rule first_pointer_ok [OF mem]) (rule nat_lookup_p_ok(1))
  moreover have "\<exists>p. first_pointer (\<lambda>l. nat_lookup_internal_p nm' l ip q) = Some (Inr p)
      \<and> pointer_to (nm_mappings nm') p (search_lists (\<lambda>l. nat_lookup_internal l ip q) (nat_mapping_list nt))" for ip q
    by (rule first_pointer_ok [OF mem]) (rule nat_lookup_p_ok(2))
  ultimately have look: "\<exists>p. (if dir = DIR_IN then first_pointer (\<lambda>l. nat_lookup_external_p nm' l q)
        else first_pointer (\<lambda>l. nat_lookup_internal_p nm' l ip r)) = Some (Inr p)
      \<and> pointer_to (nm_mappings nm') p (if dir = DIR_IN then search_lists (\<lambda>l. nat_lookup_external l q) (nat_mapping_list nt)
        else search_lists (\<lambda>l. nat_lookup_internal l ip r) (nat_mapping_list nt))" for q ip r
    by simp
  show ?thesis
  proof (cases "nat_get_mapping_from_packet packet dir nt")
    case (Inl e)
    then show ?thesis
      by (auto simp: nat_get_mapping_from_packet_def nat_get_mapping_from_packet_p_def a(1) bind_r_def bind_p_def
        split: sum.splits)
  next
    case (Inr v)
    then obtain t q r ip where rd: "packet_to_tcp_hdr packet = Inr t" "rd16 packet (t + 2) = Inr q"
      "rd16 packet t = Inr r" "rd32 packet (packet_to_ip_hdr + 12) = Inr ip"
      "v = (if dir = DIR_IN then search_lists (\<lambda>l. nat_lookup_external l q) (nat_mapping_list nt)
        else search_lists (\<lambda>l. nat_lookup_internal l ip r) (nat_mapping_list nt))"
      by (auto simp: nat_get_mapping_from_packet_def bind_r_eq_Inr)
    then obtain p where "nat_get_mapping_from_packet_p malloc packet dir nm = Some (Inr (p, nm'))"
      "pointer_to (nm_mappings nm') p v"
      using look [of q ip r] by (auto simp: nat_get_mapping_from_packet_p_def a(1) simp del: if_split)
    then show ?thesis using Inr a by auto
  qed
qed

lemma nat_insert_mapping_p_sim:
  assumes "malloc_fresh malloc" and sim: "nat_sim G nm nt"
  shows "case nat_insert_mapping now 0 ip port nt of
      Inl e \<Rightarrow> nat_insert_mapping_p malloc now (bucket_head 0) ip port nm = Inl e
    | Inr (m, nt') \<Rightarrow> \<exists>a nm'. nat_insert_mapping_p malloc now (bucket_head 0) ip port nm = Inr (a, nm')
        \<and> nm_mappings nm' a = Some m \<and> nat_sim G nm' nt'"
proof (cases "external_iface nt")
  case None
  then show ?thesis using sim
    by (simp add: nat_insert_mapping_def nat_insert_mapping_p_def alloc_mapping_def Let_def nat_sim_def)
next
  case (Some ext)
  let ?h = "nm_heap nm" and ?t = "nat_mapping_list nt"
  have mem: "in_memory ?h (nm_mappings nm) G ?t" and len: "0 < length ?t"
    using sim by (simp_all add: nat_sim_def HASH_8BITS_def)
  let ?a = "malloc ?h"
  obtain p ports where p: "assign_external_port (assigned_ports nt) = (p, ports)" by fastforce
  define m where "m = \<lparr>internal_ip = ip, external_ip = inet_addr (n_ip_str ext), internal_port = port,
    external_port = htons p, update_time = now, conn = conn_zero\<rparr>"
  obtain h' where h': "list_add_tail (malloc_node ?h ?a) ?a (bucket_head 0) = Inr h'"
    "in_memory h' ((nm_mappings nm)(?a \<mapsto> m)) G (?t[0 := ?t ! 0 @ [m]])"
    using in_memory_add_tail [OF mem len in_memory_fresh [OF assms(1) mem]] .
  have "nat_insert_mapping_p malloc now (bucket_head 0) ip port nm
      = Inr (?a, nm\<lparr>nm_heap := h', nm_mappings := (nm_mappings nm)(?a \<mapsto> m), nm_ports := ports\<rparr>)"
    using sim Some p h'(1)
    by (simp add: nat_insert_mapping_p_def alloc_mapping_def Let_def nat_sim_def mapping_zero_def m_def)
  then show ?thesis using sim Some p h'(2)
    by (simp add: nat_insert_mapping_def nat_sim_def Let_def m_def)
qed

lemma get_packet_direction_p_sim: "nat_sim G nm nt \<Longrightarrow> get_packet_direction_p nm packet = get_packet_direction nt packet"
  by (simp add: get_packet_direction_p_def get_packet_direction_def nat_sim_def)

text \<open>The translation of one packet: the result of the list version, and one lost mapping.\<close>

definition trans_sim :: "nat \<Rightarrow> (nat_mem \<times> 'o) result option \<Rightarrow> (nat_table \<times> 'o) result \<Rightarrow> bool" where
  "trans_sim k r m \<longleftrightarrow> (case m of
     Inl e \<Rightarrow> r = Some (Inl e)
   | Inr (nt, out) \<Rightarrow> \<exists>G nm. r = Some (Inr (nm, out)) \<and> nat_sim G nm nt \<and> card G = k)"

lemma trans_sim_step:
  assumes "\<And>x. trans_sim k (f x) (g x)"
  shows "trans_sim k (bind_p (Some m) f) (bind_r m g)"
  using assms by (cases m) (auto simp: trans_sim_def)

lemma trans_sim_lookup:
  assumes "malloc_fresh malloc" and "nat_sim G nm nt"
    and "\<And>p nm' a v. nat_sim (insert a G) nm' nt \<Longrightarrow> a \<notin> G \<Longrightarrow> pointer_to (nm_mappings nm') p v \<Longrightarrow>
      trans_sim k (f (p, nm')) (g v)"
  shows "trans_sim k (bind_p (nat_get_mapping_from_packet_p malloc packet dir nm) f)
    (bind_r (nat_get_mapping_from_packet packet dir nt) g)"
  using nat_get_mapping_from_packet_p_sim [OF assms(1,2), of packet dir] assms(3)
  by (cases "nat_get_mapping_from_packet packet dir nt") (auto simp: trans_sim_def [of _ "Some (Inl _)"])

text \<open>The tail of the function, behind the two branches.\<close>

lemma trans_sim_send:
  assumes "(\<exists>e. m = Inl e \<and> m' = Inl e) \<or>
    (\<exists>packet nm nt G. m = Inr (packet, nm) \<and> m' = Inr (packet, nt) \<and> nat_sim G nm nt \<and> card G = k)"
  shows "trans_sim k
    (Some (bind_r m (\<lambda>(packet, nm). bind_r (c packet) (\<lambda>packet. Inr (nm, s packet)))))
    (bind_r m' (\<lambda>(packet, nt). bind_r (c packet) (\<lambda>packet. Inr (nt, s packet))))"
  using assms
proof
  assume "\<exists>packet nm nt G. m = Inr (packet, nm) \<and> m' = Inr (packet, nt) \<and> nat_sim G nm nt \<and> card G = k"
  then obtain packet nm nt G where "m = Inr (packet, nm)" "m' = Inr (packet, nt)" "nat_sim G nm nt" "card G = k" by blast
  then show ?thesis by (cases "c packet") (auto simp: trans_sim_def)
qed (auto simp: trans_sim_def)

lemma do_translation_p_sim:
  assumes mal: "malloc_fresh malloc" and sim: "nat_sim G nm nt"
  shows "trans_sim (Suc (card G)) (do_translation_p malloc now packet len dir nm out) (do_translation now packet len dir nt out)"
proof -
  have ext: "nm_external nm = external_iface nt" and G: "finite G" using sim by (simp_all add: nat_sim_def in_memory_def)
  show ?thesis
    unfolding do_translation_p_def do_translation_def Let_def ext
    apply (intro trans_sim_step trans_sim_lookup [OF mal sim])
    apply (unfold prod.case)
    apply (rule trans_sim_send)
    subgoal for tcp_hdr srcip ext srcport p nm' a v
      using nat_insert_mapping_p_sim [OF mal, of "insert a G" nm' nt now srcip srcport] G
      by (cases v; cases p; cases "nat_insert_mapping now 0 srcip srcport nt")
        (auto simp: pointer_to_def ld_entry_def bind_r_def split: sum.splits intro!: exI [of _ "insert a G"])
    done
qed

lemma nat_translate_packet_p_sim:
  assumes mal: "malloc_fresh malloc" and sim: "nat_sim G nm nt"
  shows "trans_sim (card G + (if packet ! 23 = IPPROTO_TCP then 1 else 0))
    (nat_translate_packet_p malloc now packet len nm out) (nat_translate_packet now packet len nt out)"
proof -
  have drop: "trans_sim (card G) (Some (Inr (nm, x))) (Inr (nt, x))" for x :: "nat_event list"
    using sim by (auto simp: trans_sim_def)
  show ?thesis
  proof (cases "get_packet_direction nt packet")
    case (Inl e)
    then show ?thesis
      by (simp add: nat_translate_packet_p_def nat_translate_packet_def get_packet_direction_p_sim [OF sim] trans_sim_def)
  next
    case (Inr dir)
    then have "dir \<noteq> DIR_INVALID" by (auto simp: get_packet_direction_def bind_r_eq_Inr Let_def split: if_splits)
    moreover have "rd8 packet 23 = Inr (packet ! 23)"
      using Inr by (auto simp: get_packet_direction_def bind_r_eq_Inr rd32_def rd8_def split: if_splits)
    ultimately show ?thesis
      using Inr do_translation_p_sim [OF mal sim, of now packet len dir out] drop
      by (simp add: nat_translate_packet_p_def nat_translate_packet_def get_packet_direction_p_sim [OF sim])
  qed
qed

lemma timeout_body_visit:
  "nat_timeout_body now = visit_entry (\<lambda>m ports. Inr (if 60 \<le> update_time m - now
     then (True, Continue (free_port (external_port m) ports)) else (False, Continue ports)))"
  by (intro ext) (auto simp: nat_timeout_body_def visit_entry_def ld_entry_def free_entry_def Let_def split: prod.splits option.splits)

lemma destroy_body_visit: "nat_destroy_body = visit_entry (\<lambda>m c. Inr (True, Continue c))"
  by (intro ext) (simp add: nat_destroy_body_def visit_entry_def delete_free_visit [where k = "\<lambda>(h, d). Continue (h, d, _)", simplified] split: prod.splits)

lemma visit_timeout:
  "visit_buckets (\<lambda>m ports. Inr (if 60 \<le> update_time m - now
     then (True, Continue (free_port (external_port m) ports)) else (False, Continue ports))) ls ports
   = Inr (fst (timeout_lists now ls ports), Continue (snd (timeout_lists now ls ports)) :: (port_pool_t, 'r) flow)"
proof -
  have "visit_list (\<lambda>m ports. Inr (if 60 \<le> update_time m - now
     then (True, Continue (free_port (external_port m) ports)) else (False, Continue ports))) l ports
   = Inr (fst (timeout_list now l ports), Continue (snd (timeout_list now l ports)) :: (port_pool_t, 'r) flow)" for l ports
    by (induction l arbitrary: ports) (auto split: prod.splits)
  then show ?thesis by (induction ls arbitrary: ports) (auto split: prod.splits)
qed

lemma visit_destroy:
  "visit_buckets (\<lambda>m c. Inr (True, Continue c)) ls c
   = Inr (map (fst \<circ> destroy_list) ls, Continue c :: ('c, 'r) flow)"
proof -
  have "visit_list (\<lambda>m c. Inr (True, Continue c)) l c = Inr (fst (destroy_list l), Continue c :: ('c, 'r) flow)" for l
    by (induction l) (auto split: prod.splits)
  then show ?thesis by (induction ls) auto
qed

lemma timeout_lists_length [simp]: "length (fst (timeout_lists now ls ports)) = length ls"
  by (induction ls arbitrary: ports) (auto split: prod.splits, metis fst_conv)

lemma nat_timeout_p_sim:
  assumes "nat_sim G nm nt"
  shows "\<exists>nm'. nat_timeout_p now nm = Some (Inr nm') \<and> nat_sim G nm' (nat_timeout now nt)"
proof -
  have mem: "in_memory (nm_heap nm) (nm_mappings nm) G (nat_mapping_list nt)"
    and len: "length (nat_mapping_list nt) = HASH_8BITS" using assms by (simp_all add: nat_sim_def)
  let ?r = "timeout_lists now (nat_mapping_list nt) (nm_ports nm)"
  obtain h d where "for_buckets (\<lambda>i. list_for_each_entry_safe (nat_timeout_body now) (bucket_head i)) [0..<HASH_8BITS]
      (nm_heap nm, nm_mappings nm, nm_ports nm) = Some (Inr (Continue (h, d, snd ?r)))" "in_memory h d G (fst ?r)"
    using for_buckets_safe [OF mem, of "\<lambda>m ports. Inr (if 60 \<le> update_time m - now
      then (True, Continue (free_port (external_port m) ports)) else (False, Continue ports :: (_, unit) flow))" "nm_ports nm"]
    unfolding visit_timeout timeout_body_visit len by (auto simp: table_ok_def)
  then show ?thesis using assms len
    by (auto simp: nat_timeout_p_def nat_timeout_def after_loop_def nat_sim_def split: prod.splits)
      (metis fst_conv timeout_lists_length)+
qed

lemma nat_table_destroy_p_sim:
  assumes "nat_sim G nm nt"
  shows "\<exists>nm'. nat_table_destroy_p nm = Some (Inr nm') \<and> nat_sim G nm' (fst (nat_table_destroy nt))"
proof -
  have mem: "in_memory (nm_heap nm) (nm_mappings nm) G (nat_mapping_list nt)"
    and len: "length (nat_mapping_list nt) = HASH_8BITS" using assms by (simp_all add: nat_sim_def)
  obtain h d where "for_buckets (\<lambda>i. list_for_each_entry_safe nat_destroy_body (bucket_head i)) [0..<HASH_8BITS]
      (nm_heap nm, nm_mappings nm, ()) = Some (Inr (Continue (h, d, ())))"
      "in_memory h d G (map (fst \<circ> destroy_list) (nat_mapping_list nt))"
    using for_buckets_safe [OF mem, of "\<lambda>m c. Inr (True, Continue c :: (_, unit) flow)" "()"]
    unfolding visit_destroy destroy_body_visit len by (auto simp: table_ok_def)
  then show ?thesis using assms len
    by (simp add: nat_table_destroy_p_def nat_table_destroy_def after_loop_def nat_sim_def Let_def)
qed

lemma nat_table_init_p_sim:
  "case nat_table_init ifs of
     Inl e \<Rightarrow> nat_table_init_p ifs = Inl e
   | Inr nt \<Rightarrow> \<exists>nm. nat_table_init_p ifs = Inr nm \<and> nat_sim {} nm nt"
proof -
  obtain h where "fold_r (\<lambda>i h. init_list_head h (bucket_head i)) [0..<HASH_8BITS] (zeroed_heads HASH_8BITS) = Inr h"
    "in_memory h (Map.empty :: nat_mapping store) {} (replicate HASH_8BITS [])" using init_heads_ok by blast
  then show ?thesis
    by (cases "if_name_to_iface ifs ''n1-eth1''"; cases "if_name_to_iface ifs ''n1-eth0''")
      (auto simp: nat_table_init_def nat_table_init_p_def nat_sim_def Let_def)
qed

section \<open>Runs\<close>

text \<open>
  The calls the program makes: a packet to translate, a pass of the time-out thread, and the
  destruction of the table. \<open>nat_run\<close> is a sequence of them on lists, \<open>nat_run_p\<close> on memory; \<open>out\<close> collects what is handed to
  the IP stack.
\<close>

datatype nat_call = Translate time_t bytes nat | TimeoutPass time_t | Destroy

fun nat_do :: "nat_call \<Rightarrow> nat_table \<Rightarrow> nat_event list \<Rightarrow> (nat_table \<times> nat_event list) result" where
  "nat_do (Translate now packet len) nt out = nat_translate_packet now packet len nt out"
| "nat_do (TimeoutPass now) nt out = Inr (nat_timeout now nt, out)"
| "nat_do Destroy nt out = Inr (fst (nat_table_destroy nt), out)"

fun nat_do_p :: "(heap \<Rightarrow> addr) \<Rightarrow> nat_call \<Rightarrow> nat_mem \<Rightarrow> nat_event list \<Rightarrow> (nat_mem \<times> nat_event list) result option" where
  "nat_do_p malloc (Translate now packet len) nm out = nat_translate_packet_p malloc now packet len nm out"
| "nat_do_p malloc (TimeoutPass now) nm out = bind_p (nat_timeout_p now nm) (\<lambda>nm. Some (Inr (nm, out)))"
| "nat_do_p malloc Destroy nm out = bind_p (nat_table_destroy_p nm) (\<lambda>nm. Some (Inr (nm, out)))"

fun nat_run :: "nat_call list \<Rightarrow> nat_table \<Rightarrow> nat_event list \<Rightarrow> (nat_table \<times> nat_event list) result" where
  "nat_run [] nt out = Inr (nt, out)"
| "nat_run (c # cs) nt out = bind_r (nat_do c nt out) (\<lambda>(nt, out). nat_run cs nt out)"

fun nat_run_p :: "(heap \<Rightarrow> addr) \<Rightarrow> nat_call list \<Rightarrow> nat_mem \<Rightarrow> nat_event list \<Rightarrow> (nat_mem \<times> nat_event list) result option" where
  "nat_run_p malloc [] nm out = Some (Inr (nm, out))"
| "nat_run_p malloc (c # cs) nm out = bind_p (nat_do_p malloc c nm out) (\<lambda>(nm, out). nat_run_p malloc cs nm out)"

text \<open>The calls that lose a mapping.\<close>

fun tcp_call :: "nat_call \<Rightarrow> bool" where
  "tcp_call (Translate now packet len) = (packet ! 23 = IPPROTO_TCP)"
| "tcp_call c = False"

lemma nat_do_p_sim:
  assumes "malloc_fresh malloc" and "nat_sim G nm nt"
  shows "trans_sim (card G + (if tcp_call c then 1 else 0)) (nat_do_p malloc c nm out) (nat_do c nt out)"
proof (cases c)
  case (Translate now packet len)
  then show ?thesis using nat_translate_packet_p_sim [OF assms, of packet now len out] by simp
next
  case (TimeoutPass now)
  then show ?thesis using nat_timeout_p_sim [OF assms(2), of now] by (auto simp: trans_sim_def)
next
  case Destroy
  then show ?thesis using nat_table_destroy_p_sim [OF assms(2)] by (auto simp: trans_sim_def)
qed

lemma nat_run_p_sim:
  assumes "malloc_fresh malloc" and "nat_sim G nm nt"
  shows "trans_sim (card G + length (filter tcp_call cs)) (nat_run_p malloc cs nm out) (nat_run cs nt out)"
  using assms(2)
proof (induction cs arbitrary: G nm nt out)
  case Nil
  then show ?case by (auto simp: trans_sim_def)
next
  case (Cons c cs)
  note step = nat_do_p_sim [OF assms(1) Cons.prems, of c out]
  show ?case
  proof (cases "nat_do c nt out")
    case (Inl e)
    then show ?thesis using step by (simp add: trans_sim_def)
  next
    case (Inr r)
    obtain nt' out' where r: "r = (nt', out')" by (cases r)
    obtain G' nm' where s: "nat_do_p malloc c nm out = Some (Inr (nm', out'))" "nat_sim G' nm' nt'"
      "card G' = card G + (if tcp_call c then 1 else 0)"
      using step Inr r by (auto simp: trans_sim_def)
    show ?thesis using Cons.IH [OF s(2), of out'] Inr r s(1,3) by (auto split: if_splits)
  qed
qed

section \<open>Properties\<close>

text \<open>C6. The pointer program of \<^verbatim>\<open>nat.c\<close> computes the list model: for every sequence of packets, time-out
  passes and destructions, on a table that \<open>nat_table_init\<close> set up, every loop ends, no freed memory is touched, the same events come
  out or the same fault happens, and the memory holds the mappings of the table. But it leaks: besides
  them, one lost mapping is allocated for every TCP packet that was translated.\<close>

theorem nat_memory_refines:
  assumes "malloc_fresh malloc" and "nat_table_init ifs = Inr nt"
  shows "\<exists>nm. nat_table_init_p ifs = Inr nm \<and>
    (case nat_run calls nt [] of
       Inl e \<Rightarrow> nat_run_p malloc calls nm [] = Some (Inl e)
     | Inr (nt', out) \<Rightarrow> \<exists>nm' lost. nat_run_p malloc calls nm [] = Some (Inr (nm', out))
         \<and> in_memory (nm_heap nm') (nm_mappings nm') lost (nat_mapping_list nt')
         \<and> card (dom (nm_mappings nm')) = length (concat (nat_mapping_list nt')) + length (filter tcp_call calls))"
proof -
  obtain nm where nm: "nat_table_init_p ifs = Inr nm" "nat_sim {} nm nt"
    using nat_table_init_p_sim [of ifs] assms(2) by auto
  have "trans_sim (length (filter tcp_call calls)) (nat_run_p malloc calls nm []) (nat_run calls nt [])"
    using nat_run_p_sim [OF assms(1) nm(2), of calls "[]"] by simp
  then have "case nat_run calls nt [] of
       Inl e \<Rightarrow> nat_run_p malloc calls nm [] = Some (Inl e)
     | Inr (nt', out) \<Rightarrow> \<exists>nm' lost. nat_run_p malloc calls nm [] = Some (Inr (nm', out))
         \<and> in_memory (nm_heap nm') (nm_mappings nm') lost (nat_mapping_list nt')
         \<and> card (dom (nm_mappings nm')) = length (concat (nat_mapping_list nt')) + length (filter tcp_call calls)"
    using in_memory_card(2) by (fastforce simp: trans_sim_def nat_sim_def split: sum.splits)
  then show ?thesis using nm(1) by blast
qed

lemma demo_run:
  "\<exists>nt out. nat_run [Translate 5 demo_syn 54, Translate 6 demo_syn 54] demo_nat [] = Inr (nt, out)
     \<and> length (concat (nat_mapping_list nt)) = 1"
proof -
  let ?nt = "nat_add 5 (ip_saddr demo_syn) (tcp_sport demo_syn) demo_nat"
  have inv: "nat_inv ?nt" by (rule nat_inv_add [OF demo_nat_inv])
  obtain m where m: "nat_find_int ?nt (ip_saddr demo_syn) (tcp_sport demo_syn) = Some m"
    using store.int_new [OF demo_nat_inv demo_next demo_lookup(1)] by blast
  have ip: "nat_ip ?nt = nat_ip demo_nat" using nat_ip_spec [OF demo_nat_inv, of 5 demo_syn] demo_lookup
    by (simp add: nat_spec_def)
  have one: "length (concat (nat_mapping_list ?nt)) = 1"
  proof -
    obtain m' ports where "?nt = demo_nat\<lparr>assigned_ports := ports,
        nat_mapping_list := (hd (nat_mapping_list demo_nat) @ [m']) # replicate 255 []\<rparr>"
      using nat_add_eq [OF demo_nat_inv] by metis
    moreover have "hd (nat_mapping_list demo_nat) = []" by (simp add: demo_nat_def empty_lists)
    ultimately have "nat_mapping_list ?nt = [m'] # replicate 255 []" by simp
    then show ?thesis by (simp only: find_concat_empty) simp
  qed
  have spec: "snd (nat_spec 5 demo_syn demo_nat) = ?nt" "snd (nat_spec 6 demo_syn ?nt) = ?nt"
    using demo_lookup m ip by (simp_all add: nat_spec_def)
  obtain p1 where p1: "nat_translate_packet 5 demo_syn 54 demo_nat [] = Inr (?nt, [IpSend p1 54])"
    using nat_translate_ok [OF demo_nat_inv demo_packets(1,2), of 5 54 "[]"] spec(1) by auto
  obtain p2 where "nat_translate_packet 6 demo_syn 54 ?nt [IpSend p1 54] = Inr (?nt, [IpSend p1 54, IpSend p2 54])"
    using nat_translate_ok [OF inv demo_packets(1,2), of 6 54 "[IpSend p1 54]"] spec(2) by auto
  with p1 one show ?thesis by simp
qed

theorem nat_memory_refines_witness:
  "\<exists>nm nm' out. nat_table_init_p [demo_int, demo_ext] = Inr nm
     \<and> nat_run_p bump_malloc [Translate 5 demo_syn 54, Translate 6 demo_syn 54] nm [] = Some (Inr (nm', out))
     \<and> card (dom (nm_mappings nm')) = 3"
proof -
  have "nat_table_init [demo_int, demo_ext] = Inr demo_nat"
    by (simp add: nat_table_init_def demo_int_def demo_ext_def demo_nat_def)
  then show ?thesis
    using nat_memory_refines [OF bump_malloc_fresh, of "[demo_int, demo_ext]" demo_nat
      "[Translate 5 demo_syn 54, Translate 6 demo_syn 54]"] demo_run demo_packets(2) by fastforce
qed

end
