(* ===== verification/NatMain.thy ===== *)
theory NatMain
  imports NatC Os
begin

text \<open>
  \<^verbatim>\<open>nat_stack/main.c\<close>: start-up, dispatch of the received packets and the receive loop,
  linked with the translator of \<^verbatim>\<open>nat.c\<close> as the Makefile does. \<open>arpcache_init\<close>,
  \<open>init_rtable\<close> and \<open>handle_arp_packet\<close> belong to the library the program is linked with; the first
  two do not touch the state modelled here, the third is recorded as an event. The functions carry the prefix
  \<open>nat_\<close> where \<^verbatim>\<open>switch_stack/main.c\<close> has one of the same name.
\<close>

section \<open>Start-up\<close>

text \<open>
  Besides what the switch asks, \<open>read_iface_info\<close> asks for the address and the mask of the interface.
  Both are in network order in memory.
\<close>

record nat_os_dev = os_dev +
  os_addr_ok :: bool
  os_addr :: u32
  os_mask_ok :: bool
  os_mask :: u32

record nat_ustack =
  nu_iface_list :: "nat_iface list"
  nu_nifs :: nat
  nu_fds :: "int list"

definition nat_open_device :: "(string \<Rightarrow> nat_os_dev) \<Rightarrow> string \<Rightarrow> int" where
  "nat_open_device os dname =
     (let sd = os_socket (os dname) in
      if sd < 0 then -1
      else if \<not> os_ifindex_ok (os dname) then -1
      else if \<not> os_bind_ok (os dname) then -1
      else if \<not> os_hwaddr_ok (os dname) then -1
      else sd)"

text \<open>
  The two address requests go to \<open>fd\<close>, so they fail when it is \<open>-1\<close>. The text of an address has at most
  15 characters and fits \<open>ip_str[16]\<close>.
\<close>

definition nat_read_iface_info :: "(string \<Rightarrow> nat_os_dev) \<Rightarrow> nat_iface \<Rightarrow> (int \<times> nat_iface) result" where
  "nat_read_iface_info os iface =
     (let dev = os (n_name iface);
          fd = nat_open_device os (n_name iface);
          iface = iface\<lparr>n_fd := fd, n_index := os_ifindex dev, n_mac := os_hwaddr dev\<rparr>
      in if fd < 0 \<or> \<not> os_addr_ok dev then Inl (Exit 1)
         else let ip = os_addr dev;
                  iface = iface\<lparr>n_ip := ntohl ip, n_ip_str := inet_ntoa ip\<rparr>
              in if \<not> os_mask_ok dev then Inl (Exit 1)
                 else Inr (fd, iface\<lparr>n_mask := ntohl (os_mask dev)\<rparr>))"

definition nat_new_iface :: "string \<Rightarrow> nat_iface" where
  "nat_new_iface nm = \<lparr>n_fd = 0, n_index = 0, n_mac = replicate 6 0, n_ip = 0, n_mask = 0,
     n_name = nm, n_ip_str = []\<rparr>"

fun nat_scan_addrs :: "ifaddrs list \<Rightarrow> nat_ustack \<Rightarrow> nat_ustack result" where
  "nat_scan_addrs [] inst = Inr inst"
| "nat_scan_addrs (addr # addrs) inst =
     (if ifa_family addr = Some AF_PACKET \<and> strstr (ifa_name addr) ''-eth''
      then if length (ifa_name addr) \<ge> 16 then Inl OutOfBounds
           else nat_scan_addrs addrs
             (inst\<lparr>nu_iface_list := nu_iface_list inst @ [nat_new_iface (ifa_name addr)],
                   nu_nifs := nu_nifs inst + 1\<rparr>)
      else nat_scan_addrs addrs inst)"

definition nat_eth_names :: "ifaddrs list \<Rightarrow> string list" where
  "nat_eth_names addrs = map ifa_name (filter (\<lambda>a. ifa_family a = Some AF_PACKET \<and> strstr (ifa_name a) ''-eth'') addrs)"

definition nat_dev_names :: "nat_iface list \<Rightarrow> string result" where
  "nat_dev_names ifs =
     (let s = concat (map (\<lambda>i. CHR '' '' # n_name i) ifs)
      in if length s < 1024 then Inr s else Inl OutOfBounds)"

definition nat_find_available_ifaces :: "ifaddrs list \<Rightarrow> nat_ustack \<Rightarrow> nat_ustack result" where
  "nat_find_available_ifaces addrs inst =
     bind_r (nat_scan_addrs addrs (inst\<lparr>nu_iface_list := []\<rparr>)) (\<lambda>inst.
       if nu_nifs inst = 0 then Inl (Exit 1)
       else bind_r (nat_dev_names (nu_iface_list inst)) (\<lambda>s. Inr inst))"

text \<open>The loop that reads the interfaces in order, filling \<open>fds\<close>.\<close>

fun nat_read_all :: "(string \<Rightarrow> nat_os_dev) \<Rightarrow> nat_iface list \<Rightarrow> (int \<times> nat_iface) list result" where
  "nat_read_all os [] = Inr []"
| "nat_read_all os (i # ifs) =
     bind_r (nat_read_iface_info os i) (\<lambda>r. bind_r (nat_read_all os ifs) (\<lambda>rs. Inr (r # rs)))"

definition nat_init_all_ifaces :: "(string \<Rightarrow> nat_os_dev) \<Rightarrow> ifaddrs list \<Rightarrow> nat_ustack \<Rightarrow> nat_ustack result" where
  "nat_init_all_ifaces os addrs inst =
     bind_r (nat_find_available_ifaces addrs inst) (\<lambda>inst.
     bind_r (nat_read_all os (nu_iface_list inst)) (\<lambda>rs.
       Inr (inst\<lparr>nu_iface_list := map snd rs, nu_fds := map fst rs\<rparr>)))"

record nat_sys =
  ns_inst :: nat_ustack
  ns_nat :: nat_table
  ns_buf :: bytes
  ns_out :: "nat_event list"

definition nat_init_ustack :: "(string \<Rightarrow> nat_os_dev) \<Rightarrow> ifaddrs list \<Rightarrow> bytes \<Rightarrow> nat_sys result" where
  "nat_init_ustack os addrs stack_garbage =
     bind_r (nat_init_all_ifaces os addrs \<lparr>nu_iface_list = [], nu_nifs = 0, nu_fds = []\<rparr>) (\<lambda>inst.
     bind_r (nat_table_init (nu_iface_list inst)) (\<lambda>nt.
       Inr \<lparr>ns_inst = inst, ns_nat = nt,
            ns_buf = take ETH_FRAME_LEN (stack_garbage @ replicate ETH_FRAME_LEN 0), ns_out = []\<rparr>))"

section \<open>Packets\<close>

fun nat_fd_to_iface :: "nat_iface list \<Rightarrow> int \<Rightarrow> nat_iface option" where
  "nat_fd_to_iface [] fd = None"
| "nat_fd_to_iface (iface # ifs) fd = (if n_fd iface = fd then Some iface else nat_fd_to_iface ifs fd)"

definition handle_ip_packet ::
  "time_t \<Rightarrow> nat_iface option \<Rightarrow> bytes \<Rightarrow> nat \<Rightarrow> nat_table \<Rightarrow> nat_event list \<Rightarrow> (nat_table \<times> nat_event list) result" where
  "handle_ip_packet now iface packet len nt out =
     bind_r (rd32 packet (packet_to_ip_hdr + 16)) (\<lambda>d.
     let daddr = ntohl d in
     bind_r (rd8 packet (packet_to_ip_hdr + 9)) (\<lambda>protocol.
     bind_r (if protocol = IPPROTO_ICMP then bind_r (deref iface) (\<lambda>i. Inr (daddr = n_ip i)) else Inr False) (\<lambda>own_icmp.
     if own_icmp then
       bind_r (IP_HDR_SIZE packet packet_to_ip_hdr) (\<lambda>n.
       bind_r (rd8 packet (packet_to_ip_hdr + n)) (\<lambda>type.
         Inr (nt, out @ (if type = ICMP_ECHOREQUEST then [IcmpSend packet len ICMP_ECHOREPLY 0] else [])
                      @ [FreePacket packet])))
     else nat_translate_packet now packet len nt out)))"

definition nat_handle_packet ::
  "time_t \<Rightarrow> nat_iface option \<Rightarrow> bytes \<Rightarrow> nat \<Rightarrow> nat_table \<Rightarrow> nat_event list \<Rightarrow> (nat_table \<times> nat_event list) result" where
  "nat_handle_packet now iface packet len nt out =
     bind_r (ether_type packet) (\<lambda>t.
     if ntohs t = ETH_P_IP then handle_ip_packet now iface packet len nt out
     else if ntohs t = ETH_P_ARP then Inr (nt, out @ [ArpPacket iface packet len])
     else Inr (nt, out))"

text \<open>The packet that is handled is a fresh copy of the bytes that were received.\<close>

definition nat_rx_step :: "int \<times> recv \<Rightarrow> nat_sys \<Rightarrow> nat_sys result" where
  "nat_rx_step fr s = (case fr of (fd, r) \<Rightarrow> (case r of
       NoInput \<Rightarrow> Inr s
     | RecvFailed \<Rightarrow> Inr s
     | Received data outgoing now \<Rightarrow>
         let len = recv_len data;
             s = s\<lparr>ns_buf := recv_into (ns_buf s) data\<rparr>
         in if len = 0 then Inr s
            else if outgoing then Inr s
            else let iface = nat_fd_to_iface (nu_iface_list (ns_inst s)) fd;
                     packet = take len (ns_buf s)
                 in bind_r (nat_handle_packet now iface packet len (ns_nat s) (ns_out s)) (\<lambda>(nt, out).
                      Inr (s\<lparr>ns_nat := nt, ns_out := out\<rparr>))))"

fun nat_ustack_run :: "poll list \<Rightarrow> nat_sys \<Rightarrow> nat_sys result" where
  "nat_ustack_run [] s = Inr s"
| "nat_ustack_run (PollFailed # ps) s = Inr s"
| "nat_ustack_run (PollNothing # ps) s = nat_ustack_run ps s"
| "nat_ustack_run (PollReady rs # ps) s =
     bind_r (fold_r nat_rx_step (zip (nu_fds (ns_inst s)) rs) s) (nat_ustack_run ps)"

section \<open>The state of a running translator\<close>

definition nat_past :: "time_t \<Rightarrow> nat_table \<Rightarrow> bool" where
  "nat_past t nt \<longleftrightarrow> (\<forall>m \<in> set (concat (nat_mapping_list nt)). update_time m \<le> t)"

definition ns_wf :: "nat_sys \<Rightarrow> bool" where
  "ns_wf s \<longleftrightarrow> nat_inv (ns_nat s) \<and> length (ns_buf s) = ETH_FRAME_LEN
     \<and> nu_fds (ns_inst s) = map n_fd (nu_iface_list (ns_inst s))"

text \<open>Whatever a packet is, all it can do to the table is to add one mapping.\<close>

definition nat_grows :: "time_t \<Rightarrow> nat_table \<Rightarrow> nat_table \<Rightarrow> bool" where
  "nat_grows now nt nt' \<longleftrightarrow> nt' = nt \<or> (\<exists>ip p. nt' = nat_add now ip p nt)"

lemma nat_grows_refl [simp]: "nat_grows now nt nt"
  by (simp add: nat_grows_def)

lemma nat_grows_insert: "nat_insert_mapping now 0 ip p nt = Inr (m, nt') \<Longrightarrow> nat_grows now nt nt'"
  unfolding nat_grows_def nat_add_def by (metis case_prod_conv sum.simps(6))

lemma do_translation_grows:
  "do_translation now p len dir nt out = Inr (nt', out') \<Longrightarrow> nat_grows now nt nt'"
  by (auto simp: do_translation_def bind_r_eq_Inr Let_def
      split: option.splits if_splits dest: nat_grows_insert)

lemma nat_translate_grows:
  "nat_translate_packet now p len nt out = Inr (nt', out') \<Longrightarrow> nat_grows now nt nt'"
  by (auto simp: nat_translate_packet_def bind_r_eq_Inr split: if_splits dest: do_translation_grows)

lemma nat_handle_grows:
  "nat_handle_packet now iface p len nt out = Inr (nt', out') \<Longrightarrow> nat_grows now nt nt'"
  by (auto simp: nat_handle_packet_def handle_ip_packet_def bind_r_eq_Inr Let_def
      split: if_splits dest: nat_translate_grows)

lemma nat_grows_inv: "nat_grows now nt nt' \<Longrightarrow> nat_inv nt \<Longrightarrow> nat_inv nt'"
  by (auto simp: nat_grows_def nat_inv_add)

lemma nat_grows_past:
  assumes "nat_grows now nt nt'" and inv: "nat_inv nt" and "nat_past t nt" and "t \<le> now"
  shows "nat_past now nt'"
proof -
  have "nat_past now (nat_add now ip p nt)" for ip p
  proof (cases rule: nat_add_eq [OF inv, of now ip p])
    case (1 m ports q)
    have "set (hd (nat_mapping_list nt)) \<subseteq> set (concat (nat_mapping_list nt))"
      by (subst (2) nat_inv_list [OF inv]) simp
    then show ?thesis using 1(2,7) assms(3,4) by (fastforce simp: nat_past_def)
  qed
  moreover have "nat_past now nt" using assms(3,4) by (force simp: nat_past_def)
  ultimately show ?thesis using assms(1) by (auto simp: nat_grows_def)
qed

lemma nat_grows_keeps:
  assumes "nat_grows now nt nt'" and "nat_inv nt"
  shows "nat_find_ext nt \<subseteq>\<^sub>m nat_find_ext nt'" "nat_find_int nt ip \<subseteq>\<^sub>m nat_find_int nt' ip"
  using assms store.ext_old store.int_old by (auto simp: nat_grows_def map_le_def dom_def)

text \<open>
  The program as a transition system on the clock and the state: a packet is received on one of
  the descriptors, or the time-out thread makes its pass. Time does not go backwards.
\<close>

inductive nat_step :: "time_t \<times> nat_sys \<Rightarrow> time_t \<times> nat_sys \<Rightarrow> bool" where
  receive: "t \<le> now \<Longrightarrow> nat_rx_step (fd, Received data outgoing now) s = Inr s' \<Longrightarrow> nat_step (t, s) (now, s')"
| timeout: "t \<le> now \<Longrightarrow> nat_step (t, s) (now, s\<lparr>ns_nat := nat_timeout now (ns_nat s)\<rparr>)"

inductive nat_reach :: "time_t \<times> nat_sys \<Rightarrow> time_t \<times> nat_sys \<Rightarrow> bool" where
  start: "nat_reach c c"
| step: "nat_reach c d \<Longrightarrow> nat_step d e \<Longrightarrow> nat_reach c e"

inductive_cases nat_stepE: "nat_step (t, s) (now, s')"

lemma nat_rx_grows:
  assumes "nat_rx_step (fd, Received data outgoing now) s = Inr s'"
  shows "nat_grows now (ns_nat s) (ns_nat s')"
  using assms nat_handle_grows
  by (fastforce simp: nat_rx_step_def Let_def bind_r_eq_Inr split: if_splits)

lemma nat_step_inv:
  assumes "nat_step (t, s) (now, s')" and "nat_inv (ns_nat s)" and "nat_past t (ns_nat s)"
  shows "t \<le> now \<and> nat_grows now (ns_nat s) (ns_nat s') \<and> nat_inv (ns_nat s') \<and> nat_past now (ns_nat s')"
proof (cases rule: nat_stepE [OF assms(1)])
  case (1 fd data outgoing)
  then show ?thesis using nat_rx_grows assms nat_grows_inv nat_grows_past by metis
next
  case 2
  have "nat_timeout now (ns_nat s) = ns_nat s"
    using assms(3) 2 by (intro nat_timeout_id) (force simp: nat_past_def)
  with 2 assms show ?thesis by (force simp: nat_grows_def nat_past_def)
qed

lemma nat_reach_inv:
  assumes "nat_reach c d" and "nat_inv (ns_nat (snd c))" and "nat_past (fst c) (ns_nat (snd c))"
  shows "fst c \<le> fst d \<and> nat_inv (ns_nat (snd d)) \<and> nat_past (fst d) (ns_nat (snd d))
    \<and> nat_find_ext (ns_nat (snd c)) \<subseteq>\<^sub>m nat_find_ext (ns_nat (snd d))"
  using assms
proof (induction rule: nat_reach.induct)
  case (step c d e)
  then have d: "fst c \<le> fst d" "nat_inv (ns_nat (snd d))" "nat_past (fst d) (ns_nat (snd d))"
    "nat_find_ext (ns_nat (snd c)) \<subseteq>\<^sub>m nat_find_ext (ns_nat (snd d))" by auto
  have e: "fst d \<le> fst e \<and> nat_grows (fst e) (ns_nat (snd d)) (ns_nat (snd e))
      \<and> nat_inv (ns_nat (snd e)) \<and> nat_past (fst e) (ns_nat (snd e))"
    using nat_step_inv [of "fst d" "snd d" "fst e" "snd e"] step.hyps(2) d(2,3) by simp
  then show ?case using d nat_grows_keeps(1) [of "fst e" "ns_nat (snd d)" "ns_nat (snd e)"]
    by (auto intro: map_le_trans)
qed simp

section \<open>Start-up establishes the invariant\<close>

lemma nat_table_init_ok:
  assumes "nat_table_init ifs = Inr nt"
  shows "nat_inv nt" "concat (nat_mapping_list nt) = []" "external_iface nt = if_name_to_iface ifs ''n1-eth1''"
    "internal_iface nt = if_name_to_iface ifs ''n1-eth0''"
  using assms by (auto simp: nat_table_init_def Let_def nat_inv_def empty_lists bind_r_eq_Inr split: if_splits)

lemma if_name_to_iface_SomeD: "if_name_to_iface ifs nm = Some i \<Longrightarrow> i \<in> set ifs \<and> n_name i = nm"
  by (induction ifs) (auto split: if_splits)

lemma nat_read_iface_info_ok:
  assumes "nat_read_iface_info os i = Inr (fd, j)"
  shows "n_fd j = fd" "0 \<le> fd" "n_name j = n_name i" "inet_addr (n_ip_str j) = htonl (n_ip j)"
  using assms by (auto simp: nat_read_iface_info_def Let_def inet_addr_ntoa split: if_splits)

lemma nat_read_all_ok:
  "nat_read_all os ifs = Inr rs \<Longrightarrow> map fst rs = map n_fd (map snd rs)
     \<and> (\<forall>j \<in> set (map snd rs). 0 \<le> n_fd j \<and> inet_addr (n_ip_str j) = htonl (n_ip j))"
proof (induction ifs arbitrary: rs)
  case (Cons i ifs)
  then obtain fd j rs' where "nat_read_iface_info os i = Inr (fd, j)" "nat_read_all os ifs = Inr rs'"
    "rs = (fd, j) # rs'" by (auto simp: bind_r_eq_Inr)
  with Cons.IH nat_read_iface_info_ok show ?case by simp
qed simp

lemma nat_init_ustack_ok:
  assumes "nat_init_ustack os addrs g = Inr s"
  shows "ns_wf s" "concat (nat_mapping_list (ns_nat s)) = []"
    "\<forall>j \<in> set (nu_iface_list (ns_inst s)). 0 \<le> n_fd j \<and> inet_addr (n_ip_str j) = htonl (n_ip j)"
    "\<exists>e \<in> set (nu_iface_list (ns_inst s)). external_iface (ns_nat s) = Some e \<and> n_name e = ''n1-eth1''"
proof -
  obtain inst nt where i: "nat_init_all_ifaces os addrs \<lparr>nu_iface_list = [], nu_nifs = 0, nu_fds = []\<rparr> = Inr inst"
    and nt: "nat_table_init (nu_iface_list inst) = Inr nt"
    and s: "s = \<lparr>ns_inst = inst, ns_nat = nt,
            ns_buf = take ETH_FRAME_LEN (g @ replicate ETH_FRAME_LEN 0), ns_out = []\<rparr>"
    using assms by (auto simp: nat_init_ustack_def bind_r_eq_Inr)
  obtain inst0 rs where rs: "nat_read_all os (nu_iface_list inst0) = Inr rs"
    "inst = inst0\<lparr>nu_iface_list := map snd rs, nu_fds := map fst rs\<rparr>"
    using i by (auto simp: nat_init_all_ifaces_def bind_r_eq_Inr)
  note ok = nat_read_all_ok [OF rs(1)]
  show "\<forall>j \<in> set (nu_iface_list (ns_inst s)). 0 \<le> n_fd j \<and> inet_addr (n_ip_str j) = htonl (n_ip j)"
    using ok by (simp add: s rs(2))
  show "ns_wf s" using ok nat_table_init_ok(1) [OF nt] by (simp add: ns_wf_def s rs(2) ETH_FRAME_LEN_def)
  show "concat (nat_mapping_list (ns_nat s)) = []" using nat_table_init_ok(2) [OF nt] by (simp add: s)
  have "external_iface nt \<noteq> None" using nat_table_init_ok(1) [OF nt] by (simp add: nat_inv_def)
  then show "\<exists>e \<in> set (nu_iface_list (ns_inst s)). external_iface (ns_nat s) = Some e \<and> n_name e = ''n1-eth1''"
    using nat_table_init_ok(3) [OF nt] if_name_to_iface_SomeD [of "nu_iface_list inst" "''n1-eth1''"] by (auto simp: s)
qed

section \<open>Well-formed frames are handled without a fault\<close>

text \<open>
  A frame whose headers are complete. Neither \<open>main.c\<close> nor \<open>nat.c\<close> checks any of this.
\<close>

definition frame_ok :: "bytes \<Rightarrow> bool" where
  "frame_ok p \<longleftrightarrow> 14 \<le> length p
     \<and> (ntohs (get16 p 12) = ETH_P_IP \<longrightarrow> 34 \<le> length p
          \<and> (p ! 23 = IPPROTO_TCP \<longrightarrow> tcp_packet p)
          \<and> (p ! 23 = IPPROTO_ICMP \<longrightarrow> 14 + ip_hdr_len p < length p))"

text \<open>The events that pass a packet on or free it.\<close>

fun disposes :: "nat_event \<Rightarrow> bool" where
  "disposes (IpSend p n) = True"
| "disposes (ArpPacket i p n) = True"
| "disposes (FreePacket p) = True"
| "disposes (IcmpSend p n t c) = False"

lemma handle_ip_packet_ok:
  assumes inv: "nat_inv nt" and ok: "frame_ok p" "ntohs (get16 p 12) = ETH_P_IP"
  shows "\<exists>nt' evs. handle_ip_packet now (Some i) p len nt out = Inr (nt', out @ evs)
    \<and> length (filter disposes evs) = 1"
proof -
  have p: "34 \<le> length p" using ok by (simp add: frame_ok_def)
  show ?thesis
  proof (cases "p ! 23 = IPPROTO_TCP")
    case True
    then have "tcp_packet p" using ok by (simp add: frame_ok_def)
    then show ?thesis using nat_translate_ok [OF inv _ True, of now len out] p True
      by (auto simp: handle_ip_packet_def rd_ok IPPROTO_TCP_def IPPROTO_ICMP_def)
  next
    case False
    have drop: "nat_translate_packet now p len nt out = Inr (nt, out @ [FreePacket p])"
      using inv p False by (simp add: nat_translate_packet_def get_packet_direction_ok nat_inv_def rd_ok)
    show ?thesis using drop p ok
      by (cases "p ! 23 = IPPROTO_ICMP"; cases "ntohl (get32 p 30) = n_ip i")
        (auto simp: handle_ip_packet_def rd_ok frame_ok_def IP_HDR_SIZE_ok)
  qed
qed

lemma nat_handle_packet_ok:
  assumes inv: "nat_inv nt" and ok: "frame_ok p"
  shows "\<exists>nt' evs. nat_handle_packet now (Some i) p len nt out = Inr (nt', out @ evs)
    \<and> length (filter disposes evs)
      = (if ntohs (get16 p 12) = ETH_P_IP \<or> ntohs (get16 p 12) = ETH_P_ARP then 1 else 0)"
proof (cases "ntohs (get16 p 12) = ETH_P_IP")
  case True
  then show ?thesis using handle_ip_packet_ok [OF inv ok True, of now i len out] ok
    by (auto simp: nat_handle_packet_def ether_type_def rd_ok frame_ok_def)
next
  case False
  then show ?thesis using ok by (auto simp: nat_handle_packet_def ether_type_def rd_ok frame_ok_def)
qed

definition recv_ok :: "recv \<Rightarrow> bool" where
  "recv_ok r = (case r of Received data outgoing now \<Rightarrow> data = [] \<or> outgoing \<or> frame_ok (take ETH_FRAME_LEN data) | _ \<Rightarrow> True)"

definition poll_ok :: "poll \<Rightarrow> bool" where
  "poll_ok po = (case po of PollReady rs \<Rightarrow> list_all recv_ok rs | _ \<Rightarrow> True)"

lemma nat_fd_to_iface_known: "fd \<in> set (map n_fd ifs) \<Longrightarrow> \<exists>i \<in> set ifs. nat_fd_to_iface ifs fd = Some i"
  by (induction ifs) auto

lemma received_packet: "take (recv_len data) (recv_into buf data) = take ETH_FRAME_LEN data"
  by (simp add: recv_into_def recv_len_def min_def)

lemma nat_rx_step_ok:
  assumes wf: "ns_wf s" and fd: "fst fr \<in> set (nu_fds (ns_inst s))" and ok: "recv_ok (snd fr)"
  shows "\<exists>s'. nat_rx_step fr s = Inr s' \<and> ns_wf s' \<and> ns_inst s' = ns_inst s"
proof (cases "snd fr")
  case (Received data outgoing now)
  obtain f where fr: "fr = (f, Received data outgoing now)" using Received by (cases fr) auto
  let ?s = "s\<lparr>ns_buf := recv_into (ns_buf s) data\<rparr>" and ?p = "take ETH_FRAME_LEN data"
  have wf': "ns_wf ?s" using wf by (simp add: ns_wf_def length_recv_into)
  show ?thesis
  proof (cases "recv_len data = 0 \<or> outgoing")
    case True
    then show ?thesis using wf' by (auto simp: fr nat_rx_step_def Let_def)
  next
    case False
    then have "frame_ok ?p" using ok by (auto simp: Received recv_ok_def recv_len_def)
    moreover obtain i where "nat_fd_to_iface (nu_iface_list (ns_inst s)) f = Some i"
      using nat_fd_to_iface_known [of f "nu_iface_list (ns_inst s)"] fd wf by (auto simp: fr ns_wf_def)
    ultimately obtain nt' evs where run: "nat_handle_packet now (nat_fd_to_iface (nu_iface_list (ns_inst s)) f) ?p
        (recv_len data) (ns_nat s) (ns_out s) = Inr (nt', ns_out s @ evs)"
      using nat_handle_packet_ok [of "ns_nat s" ?p now i "recv_len data" "ns_out s"] wf by (auto simp: ns_wf_def)
    have "nat_inv nt'" using nat_handle_grows [OF run] nat_grows_inv wf by (auto simp: ns_wf_def)
    with run False wf' show ?thesis by (simp add: fr nat_rx_step_def Let_def received_packet ns_wf_def)
  qed
qed (use wf in \<open>cases fr; simp add: nat_rx_step_def\<close>)+

lemma nat_rx_steps_ok:
  "ns_wf s \<Longrightarrow> set (map fst frs) \<subseteq> set (nu_fds (ns_inst s)) \<Longrightarrow> list_all recv_ok (map snd frs) \<Longrightarrow>
     \<exists>s'. fold_r nat_rx_step frs s = Inr s' \<and> ns_wf s' \<and> ns_inst s' = ns_inst s"
proof (induction frs arbitrary: s)
  case (Cons fr frs)
  then obtain s1 where "nat_rx_step fr s = Inr s1" "ns_wf s1" "ns_inst s1 = ns_inst s"
    using nat_rx_step_ok [of s fr] by auto
  moreover have "\<exists>s'. fold_r nat_rx_step frs s1 = Inr s' \<and> ns_wf s' \<and> ns_inst s' = ns_inst s1"
    by (rule Cons.IH) (use Cons.prems calculation in auto)
  ultimately show ?case by simp
qed simp

lemma list_all_zip_snd: "list_all P rs \<Longrightarrow> list_all P (map snd (zip fds rs))"
  by (auto simp: list_all_iff dest: set_zip_rightD)

lemma nat_ustack_run_ok:
  "ns_wf s \<Longrightarrow> list_all poll_ok ps \<Longrightarrow> \<exists>s'. nat_ustack_run ps s = Inr s' \<and> ns_wf s'"
proof (induction ps s rule: nat_ustack_run.induct)
  case (4 rs ps s)
  have "set (map fst (zip (nu_fds (ns_inst s)) rs)) \<subseteq> set (nu_fds (ns_inst s))"
    by (auto dest: set_zip_leftD)
  moreover have "list_all recv_ok (map snd (zip (nu_fds (ns_inst s)) rs))"
    using "4.prems"(2) by (intro list_all_zip_snd) (simp add: poll_ok_def)
  ultimately obtain s' where "fold_r nat_rx_step (zip (nu_fds (ns_inst s)) rs) s = Inr s'" "ns_wf s'"
    using nat_rx_steps_ok [OF "4.prems"(1)] by blast
  with 4 show ?case by simp
qed auto

section \<open>A concrete system\<close>

definition demo_nat_os :: "string \<Rightarrow> nat_os_dev" where
  "demo_nat_os nm =
     (if nm = ''n1-eth1''
      then \<lparr>os_socket = 4, os_ifindex_ok = True, os_bind_ok = True, os_hwaddr_ok = True, os_ifindex = 3,
            os_hwaddr = replicate 6 2, os_addr_ok = True, os_addr = demo_ip 159 226 39 43,
            os_mask_ok = True, os_mask = demo_ip 255 255 255 0\<rparr>
      else \<lparr>os_socket = 3, os_ifindex_ok = True, os_bind_ok = True, os_hwaddr_ok = True, os_ifindex = 2,
            os_hwaddr = replicate 6 1, os_addr_ok = True, os_addr = demo_ip 10 21 0 254,
            os_mask_ok = True, os_mask = demo_ip 255 255 255 0\<rparr>)"

definition demo_nat_addrs :: "ifaddrs list" where
  "demo_nat_addrs = [\<lparr>ifa_name = ''lo'', ifa_family = Some 17\<rparr>,
     \<lparr>ifa_name = ''n1-eth0'', ifa_family = Some 17\<rparr>, \<lparr>ifa_name = ''n1-eth1'', ifa_family = Some 17\<rparr>]"

definition demo_sys :: nat_sys where
  "demo_sys = \<lparr>ns_inst = \<lparr>nu_iface_list = [demo_int, demo_ext], nu_nifs = 2, nu_fds = [3, 4]\<rparr>, ns_nat = demo_nat,
     ns_buf = replicate 1514 0, ns_out = []\<rparr>"

lemma demo_ntoa: "inet_ntoa (demo_ip 159 226 39 43) = ''159.226.39.43''" "inet_ntoa (demo_ip 10 21 0 254) = ''10.21.0.254''"
  "ntohl (demo_ip 255 255 255 0) = 0xffffff00"
  by code_simp+

lemma demo_nat_init: "nat_init_ustack demo_nat_os demo_nat_addrs [] = Inr demo_sys"
  by (simp add: nat_init_ustack_def nat_init_all_ifaces_def nat_find_available_ifaces_def demo_nat_addrs_def
      AF_PACKET_def nat_new_iface_def nat_dev_names_def nat_read_iface_info_def nat_open_device_def demo_nat_os_def
      demo_ntoa nat_table_init_def demo_sys_def demo_int_def demo_ext_def demo_nat_def ETH_FRAME_LEN_def)

lemma demo_sys_wf: "ns_wf demo_sys"
  by (rule nat_init_ustack_ok(1) [OF demo_nat_init])

lemma demo_frames_ok: "frame_ok demo_syn" "take ETH_FRAME_LEN demo_syn = demo_syn"
  using demo_packets by (simp_all add: frame_ok_def IPPROTO_TCP_def IPPROTO_ICMP_def ETH_FRAME_LEN_def)

definition demo_ping :: bytes where
  "demo_ping = replicate 12 7 @ [8, 0] @ [0x45, 0, 0, 28, 0, 0, 0, 0, 64, 1, 0, 0]
     @ [10, 21, 0, 1] @ [10, 21, 0, 254] @ [8, 0, 0, 0, 0, 0, 0, 0]"

lemma demo_ping: "34 \<le> length demo_ping" "14 + ip_hdr_len demo_ping < length demo_ping"
  "demo_ping ! 23 = IPPROTO_ICMP" "ntohl (get32 demo_ping 30) = n_ip demo_int"
  "demo_ping ! (14 + ip_hdr_len demo_ping) = ICMP_ECHOREQUEST"
  by code_simp+

section \<open>The program\<close>

definition nat_main ::
  "int \<Rightarrow> int \<Rightarrow> (string \<Rightarrow> nat_os_dev) \<Rightarrow> ifaddrs list \<Rightarrow> bytes \<Rightarrow> poll list \<Rightarrow> nat_sys result" where
  "nat_main uid euid os addrs stack_garbage ps =
     (if uid \<noteq> 0 \<and> euid \<noteq> 0 then Inl (Exit 1)
      else bind_r (nat_init_ustack os addrs stack_garbage) (nat_ustack_run ps))"

text \<open>A device whose address and mask can be read.\<close>

definition dev_ok :: "(string \<Rightarrow> nat_os_dev) \<Rightarrow> string \<Rightarrow> bool" where
  "dev_ok os nm \<longleftrightarrow> 0 \<le> nat_open_device os nm \<and> os_addr_ok (os nm) \<and> os_mask_ok (os nm)"

lemma nat_scan_addrs_cases:
  "nat_scan_addrs addrs inst =
     (if list_all (\<lambda>n. length n < 16) (nat_eth_names addrs)
      then Inr (inst\<lparr>nu_iface_list := nu_iface_list inst @ map nat_new_iface (nat_eth_names addrs),
                     nu_nifs := nu_nifs inst + length (nat_eth_names addrs)\<rparr>)
      else Inl OutOfBounds)"
  by (induction addrs arbitrary: inst) (simp_all add: nat_eth_names_def)

lemma nat_read_all_cases:
  "if list_all (dev_ok os) (map n_name ifs)
   then \<exists>rs. nat_read_all os ifs = Inr rs \<and> map (\<lambda>r. n_name (snd r)) rs = map n_name ifs
   else nat_read_all os ifs = Inl (Exit 1)"
proof (induction ifs)
  case (Cons i ifs)
  have "if dev_ok os (n_name i) then \<exists>r. nat_read_iface_info os i = Inr r \<and> n_name (snd r) = n_name i
    else nat_read_iface_info os i = Inl (Exit 1)"
    by (simp add: nat_read_iface_info_def dev_ok_def Let_def)
  then show ?case using Cons.IH by (auto split: if_splits)
qed simp

lemma if_name_to_iface_names: "if_name_to_iface ifs nm = None \<longleftrightarrow> nm \<notin> set (map n_name ifs)"
  by (induction ifs) auto

lemma nat_init_ustack_cases:
  "if \<not> list_all (\<lambda>n. length n < 16) (nat_eth_names addrs) then nat_init_ustack os addrs g = Inl OutOfBounds
   else if nat_eth_names addrs = [] then nat_init_ustack os addrs g = Inl (Exit 1)
   else if 1024 \<le> length (concat (map ((#) (CHR '' '')) (nat_eth_names addrs))) then nat_init_ustack os addrs g = Inl OutOfBounds
   else if \<not> list_all (dev_ok os) (nat_eth_names addrs) then nat_init_ustack os addrs g = Inl (Exit 1)
   else if ''n1-eth1'' \<notin> set (nat_eth_names addrs) then nat_init_ustack os addrs g = Inl NullDeref
   else if ''n1-eth0'' \<notin> set (nat_eth_names addrs) then nat_init_ustack os addrs g = Inl (Exit 1)
   else \<exists>s. nat_init_ustack os addrs g = Inr s"
proof -
  let ?ns = "nat_eth_names addrs" and ?ifs = "map nat_new_iface (nat_eth_names addrs)"
  let ?inst = "\<lparr>nu_iface_list = ?ifs, nu_nifs = length ?ns, nu_fds = []\<rparr>"
  have names: "n_name (nat_new_iface n) = n" for n by (simp add: nat_new_iface_def)
  have find: "nat_find_available_ifaces addrs \<lparr>nu_iface_list = [], nu_nifs = 0, nu_fds = []\<rparr> =
     (if \<not> list_all (\<lambda>n. length n < 16) ?ns then Inl OutOfBounds else if ?ns = [] then Inl (Exit 1)
      else if 1024 \<le> length (concat (map ((#) (CHR '' '')) ?ns)) then Inl OutOfBounds else Inr ?inst)"
    by (auto simp: nat_find_available_ifaces_def nat_scan_addrs_cases nat_dev_names_def Let_def o_def names)
  have table: "nat_table_init ifs = (if ''n1-eth1'' \<notin> set (map n_name ifs) then Inl NullDeref
     else if ''n1-eth0'' \<notin> set (map n_name ifs) then Inl (Exit 1)
     else Inr \<lparr>nat_mapping_list = replicate HASH_8BITS [], internal_iface = if_name_to_iface ifs ''n1-eth0'',
                   external_iface = if_name_to_iface ifs ''n1-eth1'', assigned_ports = (\<lambda>_. 0)\<rparr>)" for ifs
    using if_name_to_iface_names [of ifs "''n1-eth1''"] if_name_to_iface_names [of ifs "''n1-eth0''"]
    by (cases "if_name_to_iface ifs ''n1-eth1''") (auto simp: nat_table_init_def Let_def)
  have ns: "map n_name ?ifs = ?ns" by (simp add: o_def names)
  note reads = nat_read_all_cases [of os ?ifs, unfolded ns]
  show ?thesis
  proof (cases "list_all (dev_ok os) ?ns")
    case True
    then obtain rs where rs: "nat_read_all os ?ifs = Inr rs" "map n_name (map snd rs) = ?ns" using reads by (auto simp: o_def)
    then show ?thesis using True find table [of "map snd rs"]
      by (simp add: nat_init_ustack_def nat_init_all_ifaces_def del: map_map)
  next
    case False
    then show ?thesis using reads find by (simp add: nat_init_ustack_def nat_init_all_ifaces_def)
  qed
qed

lemma nat_ustack_run_safe:
  assumes "nat_init_ustack os addrs g = Inr s0" and "list_all poll_ok ps"
  shows "\<exists>s. nat_ustack_run ps s0 = Inr s \<and> ns_wf s"
  using nat_ustack_run_ok [OF nat_init_ustack_ok(1) [OF assms(1)] assms(2)] .

section \<open>Properties\<close>

text \<open>C10. From start-up on, with packets and passes of the time-out thread in any order and a clock
  that does not go back: the table always satisfies its invariant, a pass of the time-out thread
  at any later time changes nothing at all, and what an external port is mapped to never
  changes again.\<close>

theorem nat_mappings_never_expire:
  assumes init: "nat_init_ustack os addrs g = Inr s0"
    and reach: "nat_reach (t0, s0) (t, s)" and later: "nat_reach (t, s) (t', s')"
  shows "nat_inv (ns_nat s') \<and> (\<forall>now \<ge> t'. nat_timeout now (ns_nat s') = ns_nat s')
    \<and> nat_find_ext (ns_nat s) \<subseteq>\<^sub>m nat_find_ext (ns_nat s')"
proof -
  have "nat_inv (ns_nat s0)" "nat_past t0 (ns_nat s0)"
    using nat_init_ustack_ok(1,2) [OF init] by (auto simp: ns_wf_def nat_past_def)
  then have "nat_inv (ns_nat s)" "nat_past t (ns_nat s)" using nat_reach_inv [OF reach] by auto
  then have s': "nat_inv (ns_nat s')" "nat_past t' (ns_nat s')" "nat_find_ext (ns_nat s) \<subseteq>\<^sub>m nat_find_ext (ns_nat s')"
    using nat_reach_inv [OF later] by auto
  have "nat_timeout now (ns_nat s') = ns_nat s'" if "t' \<le> now" for now
    using s'(2) that by (intro nat_timeout_id) (force simp: nat_past_def)
  with s' show ?thesis by blast
qed

theorem nat_mappings_never_expire_witness:
  "nat_init_ustack demo_nat_os demo_nat_addrs [] = Inr demo_sys
   \<and> nat_timeout 1000 (nat_timeout 100 demo_nat) = nat_timeout 100 demo_nat"
proof -
  let ?s = "demo_sys\<lparr>ns_nat := nat_timeout 100 (ns_nat demo_sys)\<rparr>"
  have "nat_reach (0, demo_sys) (100, ?s)" by (rule nat_reach.step [OF nat_reach.start]) (rule nat_step.timeout; simp)
  then have "\<forall>now \<ge> 100. nat_timeout now (ns_nat ?s) = ns_nat ?s"
    using nat_mappings_never_expire [OF demo_nat_init _ nat_reach.start, of 0 100 ?s] by simp
  then show ?thesis using demo_nat_init by (simp add: demo_sys_def)
qed

text \<open>C20. The whole program: its start ends with \<open>exit (1)\<close> for a user who is not root, without Ethernet devices, when a device does
  not answer, or without \<open>n1-eth0\<close>; it overruns a buffer on long names and follows a null pointer without \<open>n1-eth1\<close>.
  Otherwise the receive loop handles every sequence of poll results in which the headers of the frames are
  complete, without a fault, and keeps the state well formed.\<close>

theorem nat_main_runs:
  assumes "list_all poll_ok ps"
  shows "if uid \<noteq> 0 \<and> euid \<noteq> 0 then nat_main uid euid os addrs g ps = Inl (Exit 1)
   else if \<not> list_all (\<lambda>n. length n < 16) (nat_eth_names addrs) then nat_main uid euid os addrs g ps = Inl OutOfBounds
   else if nat_eth_names addrs = [] then nat_main uid euid os addrs g ps = Inl (Exit 1)
   else if 1024 \<le> length (concat (map ((#) (CHR '' '')) (nat_eth_names addrs))) then nat_main uid euid os addrs g ps = Inl OutOfBounds
   else if \<not> list_all (dev_ok os) (nat_eth_names addrs) then nat_main uid euid os addrs g ps = Inl (Exit 1)
   else if ''n1-eth1'' \<notin> set (nat_eth_names addrs) then nat_main uid euid os addrs g ps = Inl NullDeref
   else if ''n1-eth0'' \<notin> set (nat_eth_names addrs) then nat_main uid euid os addrs g ps = Inl (Exit 1)
   else \<exists>s. nat_main uid euid os addrs g ps = Inr s \<and> ns_wf s"
proof (cases "nat_init_ustack os addrs g")
  case (Inl e)
  then show ?thesis using nat_init_ustack_cases [of addrs os g] by (auto simp: nat_main_def split: if_splits)
next
  case (Inr s)
  then obtain s' where "nat_ustack_run ps s = Inr s'" "ns_wf s'" using nat_ustack_run_safe [OF Inr assms] by blast
  then show ?thesis using Inr nat_init_ustack_cases [of addrs os g] by (auto simp: nat_main_def split: if_splits)
qed

theorem nat_main_runs_witness:
  "\<exists>s. nat_main 0 0 demo_nat_os demo_nat_addrs [] [PollNothing, PollReady [Received demo_syn False 5, NoInput], PollFailed] = Inr s
     \<and> ns_wf s"
proof -
  have names: "nat_eth_names demo_nat_addrs = [''n1-eth0'', ''n1-eth1'']" by code_simp
  have devs: "list_all (dev_ok demo_nat_os) [''n1-eth0'', ''n1-eth1'']" by code_simp
  have polls: "list_all poll_ok [PollNothing, PollReady [Received demo_syn False 5, NoInput], PollFailed]"
    by (simp add: poll_ok_def recv_ok_def demo_frames_ok)
  from nat_main_runs [OF polls, of 0 0 demo_nat_os demo_nat_addrs "[]"] show ?thesis
    using devs by (simp add: names)
qed

text \<open>C38. Ownership of the received packet: an IP or ARP packet is passed on or freed exactly
  once; a packet of another type is neither, so its memory is lost.\<close>

theorem packet_disposed_once:
  assumes "nat_inv nt" and "frame_ok p"
  shows "\<exists>nt' evs. nat_handle_packet now (Some i) p len nt out = Inr (nt', out @ evs)
    \<and> length (filter disposes evs)
      = (if ntohs (get16 p 12) = ETH_P_IP \<or> ntohs (get16 p 12) = ETH_P_ARP then 1 else 0)"
  using nat_handle_packet_ok [OF assms] .

theorem packet_disposed_once_witness:
  "\<exists>nt' evs. nat_handle_packet 0 (Some demo_int) (replicate 60 0) 60 demo_nat [] = Inr (nt', [] @ evs)
    \<and> length (filter disposes evs) = 0"
proof -
  have t: "ntohs (get16 (replicate 60 0) 12) = 0" by (simp add: get16_def le16_def ntohs_def)
  have "frame_ok (replicate 60 0)" by (simp add: frame_ok_def t ETH_P_IP_def)
  from packet_disposed_once [OF demo_nat_inv this, of 0 demo_int 60 "[]"]
  show ?thesis by (simp add: t ETH_P_IP_def ETH_P_ARP_def)
qed

text \<open>An ICMP packet to the address of the interface it arrives on: an echo request is
  answered with an echo reply, any other is only freed; the table is not touched.\<close>

theorem own_icmp_handled:
  assumes "34 \<le> length p" and "14 + ip_hdr_len p < length p" and "p ! 23 = IPPROTO_ICMP"
    and "ntohl (get32 p 30) = n_ip i"
  shows "handle_ip_packet now (Some i) p len nt out
    = Inr (nt, out @ (if p ! (14 + ip_hdr_len p) = ICMP_ECHOREQUEST then [IcmpSend p len ICMP_ECHOREPLY 0] else [])
                   @ [FreePacket p])"
  using assms by (simp add: handle_ip_packet_def rd_ok IP_HDR_SIZE_ok)

theorem own_icmp_handled_witness:
  "handle_ip_packet 0 (Some demo_int) demo_ping 42 demo_nat []
     = Inr (demo_nat, [IcmpSend demo_ping 42 ICMP_ECHOREPLY 0, FreePacket demo_ping])"
  using own_icmp_handled [of demo_ping demo_int 0 42 demo_nat "[]"] demo_ping by simp

text \<open>C39. Start-up reads the address of each interface in two forms, the number \<open>ip\<close> and the text
  \<open>ip_str\<close>. They agree: reading the text back with \<open>inet_addr\<close> gives the number in network order, for
  the external interface of the table as well. Every descriptor is valid.\<close>

theorem init_addresses_agree:
  assumes "nat_init_ustack os addrs g = Inr s"
  shows "(\<forall>j \<in> set (nu_iface_list (ns_inst s)). 0 \<le> n_fd j \<and> inet_addr (n_ip_str j) = htonl (n_ip j))
    \<and> (\<exists>e \<in> set (nu_iface_list (ns_inst s)). external_iface (ns_nat s) = Some e
         \<and> n_name e = ''n1-eth1'' \<and> nat_ip (ns_nat s) = htonl (n_ip e))"
  using nat_init_ustack_ok(3,4) [OF assms] by (auto simp: nat_ip_def)

theorem init_addresses_agree_witness:
  "inet_addr (n_ip_str demo_int) = htonl (n_ip demo_int) \<and> nat_ip (ns_nat demo_sys) = htonl (n_ip demo_ext)"
  using init_addresses_agree [OF demo_nat_init] by (simp add: demo_sys_def demo_nat_def)

end
