(* ===== verification/NatEquiv.thy ===== *)
theory NatEquiv
  imports NatC NatHash
begin

text \<open>
  The two versions of the translator, \<^verbatim>\<open>nat.c\<close> and \<^verbatim>\<open>nat_new_2.c\<close>, on the same packets. Their
  tables are organised differently, so they are compared through the lookups: \<open>same_flows S nt nh\<close> says that both know
  the flows of the sources \<open>S\<close> under the same ports and have the same pool. Each packet keeps this relation and
  is sent alike, until the pool of \<^verbatim>\<open>nat.c\<close> is empty or a packet is unsolicited.
\<close>

section \<open>Tables with the same flows\<close>

text \<open>What the two tables store alike for a flow.\<close>

definition flow_of :: "nat_mapping \<Rightarrow> u32 \<times> u16 \<times> u16" where
  "flow_of m = (internal_ip m, internal_port m, external_port m)"

definition pool_used :: "nat \<Rightarrow> port_pool_t \<Rightarrow> bool" where
  "pool_used n ports \<longleftrightarrow> (\<forall>j. NAT_PORT_MIN \<le> j \<and> j < NAT_PORT_MAX \<longrightarrow> ports (of_nat j) = 0 \<longleftrightarrow> NAT_PORT_MIN + n \<le> j)"

text \<open>The two tables know the flows of the sources \<open>S\<close>, under the same ports.\<close>

definition same_flows :: "(u32 \<times> u16) set \<Rightarrow> nat_table \<Rightarrow> nat_table \<Rightarrow> bool" where
  "same_flows S nt nh \<longleftrightarrow> nat_inv nt \<and> nat_inv_h nh \<and> external_iface nh = external_iface nt
     \<and> assigned_ports nh = assigned_ports nt \<and> finite S \<and> pool_used (card S) (assigned_ports nt)
     \<and> (\<forall>ip p. nat_find_int nt ip p \<noteq> None \<longleftrightarrow> (ip, p) \<in> S)
     \<and> (\<forall>ip p. map_option flow_of (nat_find_int_h nh ip p) = map_option flow_of (nat_find_int nt ip p))
     \<and> (\<forall>q. map_option flow_of (nat_find_ext_h nh q) = map_option flow_of (nat_find_ext nt q))"

lemma pool_used_assign:
  assumes "pool_used n ports" and "n < 11111"
  shows "assign_external_port ports = (of_nat (NAT_PORT_MIN + n), ports(of_nat (NAT_PORT_MIN + n) := 1))"
    "assign_external_port_h ports = assign_external_port ports"
    "pool_used (Suc n) (ports(of_nat (NAT_PORT_MIN + n) := 1))"
    "(of_nat (NAT_PORT_MIN + n) :: u16) \<noteq> 65535"
proof -
  let ?i = "NAT_PORT_MIN + n"
  have i: "?i < NAT_PORT_MAX" using assms(2) by (simp add: NAT_PORT_MIN_def NAT_PORT_MAX_def)
  have u: "unat (of_nat j :: u16) = j" if "j \<le> NAT_PORT_MAX" for j
    using that by (simp add: NAT_PORT_MAX_def unat_of_nat)
  have free: "ports (of_nat j) = 0 \<longleftrightarrow> ?i \<le> j" if "NAT_PORT_MIN \<le> j" "j < NAT_PORT_MAX" for j
    using assms(1) that by (simp add: pool_used_def)
  show a: "assign_external_port ports = (of_nat ?i, ports(of_nat ?i := 1))"
  proof (cases rule: pool.assign_cases [of ports])
    case (1 k)
    then have "k = ?i" using free [of k] free [of ?i] i by (metis le_add1 linorder_not_less order_le_less)
    with 1 show ?thesis by simp
  next
    case 2
    then show ?thesis using 2(1) [of ?i, OF _ i] free [of ?i, OF _ i] by simp
  qed
  show "assign_external_port_h ports = assign_external_port ports"
  proof (cases rule: pool_h.assign_cases [of ports])
    case (1 k)
    have "k \<le> ?i" using 1(4) [of ?i] free [of ?i] i by (metis le_add1 linorder_not_less order_refl)
    then have "k = ?i" using 1(1,3) free [of k] i by auto
    with 1 a show ?thesis by simp
  next
    case 2
    then show ?thesis using 2(1) [of ?i] free [of ?i] i by simp
  qed
  show "pool_used (Suc n) (ports(of_nat ?i := 1))"
    unfolding pool_used_def
  proof (intro allI impI)
    fix j assume j: "NAT_PORT_MIN \<le> j \<and> j < NAT_PORT_MAX"
    have "(of_nat j :: u16) = of_nat ?i \<longleftrightarrow> j = ?i" using u [of j] u [of ?i] j i by (metis order_less_imp_le)
    then show "((ports(of_nat ?i := 1)) (of_nat j) = 0) = (NAT_PORT_MIN + Suc n \<le> j)"
      using free [of j] j by auto
  qed
  show "(of_nat ?i :: u16) \<noteq> 65535"
  proof
    assume "(of_nat ?i :: u16) = 65535"
    then have "?i = unat (65535 :: u16)" using u [of ?i] i by simp
    then show False using i by (simp add: NAT_PORT_MAX_def)
  qed
qed

text \<open>An insertion into either table, seen through the lookups.\<close>

lemma flow_add:
  assumes "nat_inv nt" and "nat_find_int nt ip p = None" and "assign_external_port (assigned_ports nt) = (q, ports)"
  shows "map_option flow_of (nat_find_int (nat_add now ip p nt) a b)
      = (if (a, b) = (ip, p) then Some (ip, p, htons q) else map_option flow_of (nat_find_int nt a b))"
    "map_option flow_of (nat_find_ext (nat_add now ip p nt) x)
      = (case nat_find_ext nt x of Some m \<Rightarrow> Some (flow_of m) | None \<Rightarrow> if x = htons q then Some (ip, p, htons q) else None)"
    "assigned_ports (nat_add now ip p nt) = ports" "external_iface (nat_add now ip p nt) = external_iface nt"
proof -
  show "map_option flow_of (nat_find_int (nat_add now ip p nt) a b)
      = (if (a, b) = (ip, p) then Some (ip, p, htons q) else map_option flow_of (nat_find_int nt a b))"
    "map_option flow_of (nat_find_ext (nat_add now ip p nt) x)
      = (case nat_find_ext nt x of Some m \<Rightarrow> Some (flow_of m) | None \<Rightarrow> if x = htons q then Some (ip, p, htons q) else None)"
    using assms(2,3) by (cases rule: nat_find_add [OF assms(1), of ip p now]; auto simp: flow_of_def split: option.split)+
  show "assigned_ports (nat_add now ip p nt) = ports" "external_iface (nat_add now ip p nt) = external_iface nt"
    using assms(3) by (cases rule: nat_add_eq [OF assms(1), of now ip p]; simp)+
qed

lemma flow_add_h:
  assumes "nat_inv_h nt" and "nat_find_int_h nt ip p = None" and "assign_external_port_h (assigned_ports nt) = (q, ports)"
  shows "map_option flow_of (nat_find_int_h (nat_add_h now ip p nt) a b)
      = (if (a, b) = (ip, p) then Some (ip, p, htons q) else map_option flow_of (nat_find_int_h nt a b))"
    "map_option flow_of (nat_find_ext_h (nat_add_h now ip p nt) x)
      = (case nat_find_ext_h nt x of Some m \<Rightarrow> Some (flow_of m) | None \<Rightarrow> if x = htons q then Some (ip, p, htons q) else None)"
    "assigned_ports (nat_add_h now ip p nt) = ports" "external_iface (nat_add_h now ip p nt) = external_iface nt"
proof -
  obtain m copy where c: "\<And>c. nat_mapping_list (nat_add_h now ip p nt) ! c = nat_mapping_list nt ! c
       @ (if c = hash_idx ip p then [m] else [])
       @ (if c = hash_idx (n_ip (the (external_iface nt))) (htons q) then [copy] else [])"
    and e: "external_iface (nat_add_h now ip p nt) = external_iface nt" "assigned_ports (nat_add_h now ip p nt) = ports"
    and f: "flow_of m = (ip, p, htons q)" "flow_of copy = (ip, p, htons q)"
    using assms(3) by (cases rule: nat_insert_h_eq [OF assms(1), of now ip p]) (auto simp: flow_of_def)
  show "map_option flow_of (nat_find_int_h (nat_add_h now ip p nt) a b)
      = (if (a, b) = (ip, p) then Some (ip, p, htons q) else map_option flow_of (nat_find_int_h nt a b))"
    using assms(2) f by (auto simp: nat_find_int_h_def c find_append flow_of_def split: option.split)
  show "map_option flow_of (nat_find_ext_h (nat_add_h now ip p nt) x)
      = (case nat_find_ext_h nt x of Some m \<Rightarrow> Some (flow_of m) | None \<Rightarrow> if x = htons q then Some (ip, p, htons q) else None)"
    using f by (auto simp: nat_find_ext_h_def c e find_append flow_of_def split: option.split)
  show "assigned_ports (nat_add_h now ip p nt) = ports" "external_iface (nat_add_h now ip p nt) = external_iface nt"
    using e by simp_all
qed

section \<open>One packet through both translators\<close>

definition flow_src :: "bytes \<Rightarrow> u32 \<times> u16" where
  "flow_src p = (ip_saddr p, tcp_sport p)"

definition outgoing :: "u32 \<Rightarrow> bytes \<Rightarrow> bool" where
  "outgoing ip p \<longleftrightarrow> ip_daddr p \<noteq> ip"

text \<open>The two packets that are sent for the first packet of a flow, by \<^verbatim>\<open>nat.c\<close> and by
  \<^verbatim>\<open>nat_new_2.c\<close>.\<close>

definition first_sent :: "u32 \<Rightarrow> bytes \<Rightarrow> nat_event \<Rightarrow> nat_event \<Rightarrow> bool" where
  "first_sent ip p e f \<longleftrightarrow> (\<exists>a b q. e = IpSend a (length p) \<and> f = IpSend b (length p)
     \<and> resummed p a \<and> resummed (rewrite_src p ip q) b)"

lemma same_flows_ip: "same_flows S nt nh \<Longrightarrow> nat_ip_h nh = nat_ip nt"
  unfolding same_flows_def nat_inv_h_def nat_ip_def nat_ip_h_def by metis

lemma same_flows_touch:
  assumes "same_flows S nt nh"
  shows "same_flows S nt (touch now r nh)"
proof -
  have "map_option flow_of x = map_option flow_of y" if "rel_option same_flow x y" for x y
    using that by (cases x; cases y) (auto simp: flow_of_def dest: same_flowD)
  then show ?thesis
    using assms nat_inv_h_touch [of nh now r] find_touch(1) [of nh _ now r] find_touch(2) [of nh _ _ now r]
    unfolding same_flows_def touch_simps by (metis (lifting))
qed

lemma same_flows_add:
  assumes sim: "same_flows S nt nh" and new: "(ip, p) \<notin> S" and room: "card S < 11111"
  shows "same_flows (insert (ip, p) S) (nat_add now ip p nt) (nat_add_h now ip p nh)"
proof -
  have inv: "nat_inv nt" "nat_inv_h nh" and none: "nat_find_int nt ip p = None"
    and int: "\<And>a b. map_option flow_of (nat_find_int_h nh a b) = map_option flow_of (nat_find_int nt a b)"
    and ext: "\<And>q. map_option flow_of (nat_find_ext_h nh q) = map_option flow_of (nat_find_ext nt q)"
    and pool: "pool_used (card S) (assigned_ports nt)" "assigned_ports nh = assigned_ports nt"
    using sim new unfolding same_flows_def by blast+
  note assign = pool_used_assign [OF pool(1) room]
  have none_h: "nat_find_int_h nh ip p = None" using int [of ip p] none by simp
  have assign_h: "assign_external_port_h (assigned_ports nh) = (of_nat (NAT_PORT_MIN + card S),
      (assigned_ports nt)(of_nat (NAT_PORT_MIN + card S) := 1))"
    using assign(1,2) pool(2) by simp
  note add = flow_add [OF inv(1) none assign(1), of now] and add_h = flow_add_h [OF inv(2) none_h assign_h, of now]
  have "nat_find_int (nat_add now ip p nt) a b \<noteq> None \<longleftrightarrow> (a, b) \<in> insert (ip, p) S" for a b
  proof -
    have "nat_find_int nt a b \<noteq> None \<longleftrightarrow> (a, b) \<in> S" using sim unfolding same_flows_def by blast
    then show ?thesis using add(1) [of a b] by (metis insert_iff map_option_is_None option.distinct(1))
  qed
  moreover have "map_option flow_of (nat_find_ext_h (nat_add_h now ip p nh) x)
      = map_option flow_of (nat_find_ext (nat_add now ip p nt) x)" for x
    using ext [of x] unfolding add(2) add_h(2) by (auto split: option.split)
  moreover have "pool_used (card (insert (ip, p) S)) (assigned_ports (nat_add now ip p nt))"
    using assign(3) new sim by (simp add: add(3) same_flows_def)
  moreover have "external_iface nh = external_iface nt" "finite S" using sim by (simp_all add: same_flows_def)
  ultimately show ?thesis
    using nat_inv_add [OF inv(1)] nat_inv_h_add [OF inv(2)] int
    unfolding same_flows_def add(1,3,4) add_h(1,3,4) by simp
qed

lemma translate_both_out:
  assumes sim: "same_flows S nt nh" and p: "tcp_packet p" "p ! 23 = IPPROTO_TCP" and out: "outgoing (nat_ip nt) p"
    and room: "card (insert (flow_src p) S) \<le> 11111"
  obtains e f nt' nh' where
    "nat_translate_packet now p (length p) nt evs = Inr (nt', evs @ [e])"
    "nat_translate_packet_h now p (length p) nh evsh = Inr (nh', evsh @ [f])"
    "same_flows (insert (flow_src p) S) nt' nh'" "nat_ip nt' = nat_ip nt"
    "if flow_src p \<in> S then e = f else first_sent (nat_ip nt) p e f"
proof -
  have inv: "nat_inv nt" "nat_inv_h nh" and ip: "nat_ip_h nh = nat_ip nt"
    using sim same_flows_ip [OF sim] by (simp_all add: same_flows_def)
  have int: "map_option flow_of (nat_find_int_h nh a b) = map_option flow_of (nat_find_int nt a b)"
    "nat_find_int nt a b \<noteq> None \<longleftrightarrow> (a, b) \<in> S" for a b
    using sim unfolding same_flows_def by blast+
  let ?s = "ip_saddr p" and ?t = "tcp_sport p"
  have dir: "ip_daddr p \<noteq> nat_ip nt" "ip_daddr p \<noteq> nat_ip_h nh" using out ip by (simp_all add: outgoing_def)
  obtain a where a: "nat_translate_packet now p (length p) nt evs = Inr (snd (nat_spec now p nt), evs @ [IpSend a (length p)])"
    "resummed (fst (nat_spec now p nt)) a" "update_checksums (fst (nat_spec now p nt)) 14 (tcp_off p) = Inr a"
    using nat_translate_ok [OF inv(1) p, of now "length p" evs] by blast
  obtain r nh1 m b where b: "nh1 = open_flow nat_find_int_h nat_add_h (now, ?s, ?t) nh" "nat_find_int_h nh1 ?s ?t = Some m"
    "nat_translate_packet_h now p (length p) nh evsh = Inr (touch now r nh1, evsh @ [IpSend b (length p)])"
    "resummed (rewrite_src p (nat_ip nt) (external_port m)) b"
    "update_checksums (rewrite_src p (nat_ip nt) (external_port m)) 14 (tcp_off p) = Inr b"
    using nat_translate_h_dir [OF inv(2) p, of now "length p" evsh] dir(2) ip
    by (cases rule: do_translation_h_out [OF inv(2) p(1), of now "length p" evsh]) auto
  show thesis
  proof (cases "flow_src p \<in> S")
    case True
    then obtain n where n: "nat_find_int nt ?s ?t = Some n" using int(2) by (auto simp: flow_src_def)
    then have "nh1 = nh" using int(1) [of ?s ?t] b(1) by (auto simp: open_flow_def)
    then have "external_port m = external_port n" using int(1) [of ?s ?t] n b(2) by (auto simp: flow_of_def)
    then have "a = b" "snd (nat_spec now p nt) = nt"
      using a(3) b(5) n dir(1) by (auto simp: nat_spec_def)
    then show thesis using that [OF a(1) b(3)] True \<open>nh1 = nh\<close> same_flows_touch [OF sim] by (simp add: insert_absorb)
  next
    case False
    then have n: "nat_find_int nt ?s ?t = None" using int(2) [of ?s ?t] by (auto simp: flow_src_def)
    then have nh1: "nh1 = nat_add_h now ?s ?t nh" using int(1) [of ?s ?t] b(1) by (auto simp: open_flow_def)
    have spec: "nat_spec now p nt = (p, nat_add now ?s ?t nt)" using n dir(1) by (simp add: nat_spec_def)
    have "card S < 11111" using room False sim by (simp add: same_flows_def)
    then have "same_flows (insert (flow_src p) S) (nat_add now ?s ?t nt) (touch now r nh1)"
      using same_flows_touch [OF same_flows_add [OF sim]] False nh1 by (simp add: flow_src_def)
    moreover have "first_sent (nat_ip nt) p (IpSend a (length p)) (IpSend b (length p))"
      using a(2) b(4) spec by (auto simp: first_sent_def)
    ultimately show thesis using that [OF a(1) b(3)] False spec nat_ip_spec [OF inv(1), of now p] by simp
  qed
qed

lemma translate_both_in:
  assumes sim: "same_flows S nt nh" and p: "tcp_packet p" "p ! 23 = IPPROTO_TCP" and inw: "\<not> outgoing (nat_ip nt) p"
    and known: "nat_find_ext nt (tcp_dport p) \<noteq> None"
  obtains e nh' where
    "nat_translate_packet now p (length p) nt evs = Inr (nt, evs @ [e])"
    "nat_translate_packet_h now p (length p) nh evsh = Inr (nh', evsh @ [e])" "same_flows S nt nh'"
proof -
  have inv: "nat_inv nt" "nat_inv_h nh" and ip: "nat_ip_h nh = nat_ip nt"
    using sim same_flows_ip [OF sim] by (simp_all add: same_flows_def)
  have dir: "ip_daddr p = nat_ip nt" "ip_daddr p = nat_ip_h nh" using inw ip by (simp_all add: outgoing_def)
  obtain m where m: "nat_find_ext nt (tcp_dport p) = Some m" using known by blast
  have "map_option flow_of (nat_find_ext_h nh (tcp_dport p)) = map_option flow_of (nat_find_ext nt (tcp_dport p))"
    using sim unfolding same_flows_def by blast
  then obtain m' where m': "nat_find_ext_h nh (tcp_dport p) = Some m'" "internal_ip m' = internal_ip m"
    "internal_port m' = internal_port m" using m by (auto simp: flow_of_def)
  have spec: "nat_spec now p nt = (rewrite_dst p (internal_ip m) (internal_port m), nt)"
    using dir(1) m by (simp add: nat_spec_def)
  obtain a where a: "nat_translate_packet now p (length p) nt evs = Inr (nt, evs @ [IpSend a (length p)])"
    "update_checksums (rewrite_dst p (internal_ip m) (internal_port m)) 14 (tcp_off p) = Inr a"
    using nat_translate_ok [OF inv(1) p, of now "length p" evs] spec by auto
  obtain r b where b: "nat_translate_packet_h now p (length p) nh evsh = Inr (touch now r nh, evsh @ [IpSend b (length p)])"
    "update_checksums (rewrite_dst p (internal_ip m) (internal_port m)) 14 (tcp_off p) = Inr b"
    using nat_translate_h_dir [OF inv(2) p, of now "length p" evsh] dir(2) m'(2,3)
    by (cases rule: do_translation_h_in [OF inv(2) p(1) m'(1), of now "length p" evsh]) auto
  show thesis using that [OF a(1)] a(2) b same_flows_touch [OF sim] by auto
qed

lemma translate_both_unknown:
  assumes sim: "same_flows S nt nh" and p: "tcp_packet p" "p ! 23 = IPPROTO_TCP" and inw: "\<not> outgoing (nat_ip nt) p"
    and unknown: "nat_find_ext nt (tcp_dport p) = None"
  shows "nat_translate_packet_h now p (length p) nh evsh = Inl NullDeref"
proof -
  have inv: "nat_inv_h nh" and ip: "ip_daddr p = nat_ip_h nh"
    using sim same_flows_ip [OF sim] inw by (simp_all add: same_flows_def outgoing_def)
  have "map_option flow_of (nat_find_ext_h nh (tcp_dport p)) = map_option flow_of (nat_find_ext nt (tcp_dport p))"
    using sim unfolding same_flows_def by blast
  then have "nat_find_ext_h nh (tcp_dport p) = None" using unknown by simp
  then show ?thesis
    using nat_translate_h_dir [OF inv p, of now "length p" evsh] do_translation_h_unknown [OF inv p(1)] ip by simp
qed

section \<open>Sequences of packets\<close>

text \<open>
  The packet at position \<open>i\<close> is the first of its flow: it goes out, and no packet that went out
  before it had its source, nor is the source in \<open>S\<close>.
\<close>

definition flow_srcs :: "u32 \<Rightarrow> (time_t \<times> bytes) list \<Rightarrow> (u32 \<times> u16) set" where
  "flow_srcs ip ps = flow_src ` set (filter (outgoing ip) (map snd ps))"

definition first_of_flow :: "u32 \<Rightarrow> (u32 \<times> u16) set \<Rightarrow> (time_t \<times> bytes) list \<Rightarrow> nat \<Rightarrow> bool" where
  "first_of_flow ip S ps i \<longleftrightarrow> outgoing ip (snd (ps ! i)) \<and> flow_src (snd (ps ! i)) \<notin> S \<union> flow_srcs ip (take i ps)"

definition sent_alike :: "u32 \<Rightarrow> (u32 \<times> u16) set \<Rightarrow> (time_t \<times> bytes) list \<Rightarrow> nat_event list \<Rightarrow> nat_event list \<Rightarrow> bool" where
  "sent_alike ip S ps es fs \<longleftrightarrow> length es = length ps \<and> length fs = length ps
     \<and> (\<forall>i < length ps. if first_of_flow ip S ps i then first_sent ip (snd (ps ! i)) (es ! i) (fs ! i) else es ! i = fs ! i)"

lemma flow_srcs_simps [simp]:
  "flow_srcs ip [] = {}"
  "flow_srcs ip (tp # ps) = (if outgoing ip (snd tp) then insert (flow_src (snd tp)) (flow_srcs ip ps) else flow_srcs ip ps)"
  by (simp_all add: flow_srcs_def)

lemma first_of_flow_Cons:
  "first_of_flow ip S (tp # ps) 0 \<longleftrightarrow> outgoing ip (snd tp) \<and> flow_src (snd tp) \<notin> S"
  "first_of_flow ip S (tp # ps) (Suc i)
     = first_of_flow ip (if outgoing ip (snd tp) then insert (flow_src (snd tp)) S else S) ps i"
  by (auto simp: first_of_flow_def)

lemma sent_alike_Nil: "sent_alike ip S [] [] []"
  by (simp add: sent_alike_def)

lemma sent_alike_Cons:
  assumes "if outgoing ip (snd tp) \<and> flow_src (snd tp) \<notin> S then first_sent ip (snd tp) e f else e = f"
    and "sent_alike ip (if outgoing ip (snd tp) then insert (flow_src (snd tp)) S else S) ps es fs"
  shows "sent_alike ip S (tp # ps) (e # es) (f # fs)"
  using assms unfolding sent_alike_def
  by (auto simp: less_Suc_eq_0_disj first_of_flow_Cons split: if_splits)

text \<open>The packet at position \<open>i\<close> is unsolicited: it comes in for a port that no flow has by then.\<close>

definition unsolicited_at :: "nat_table \<times> nat_event list \<Rightarrow> (time_t \<times> bytes) list \<Rightarrow> nat \<Rightarrow> bool" where
  "unsolicited_at s ps i \<longleftrightarrow> \<not> outgoing (nat_ip (fst s)) (snd (ps ! i)) \<and>
     (case translate_all (take i ps) s of
        Inl _ \<Rightarrow> False | Inr (nt', _) \<Rightarrow> nat_find_ext nt' (tcp_dport (snd (ps ! i))) = None)"

lemma translate_Cons:
  "nat_translate_packet t p (length p) nt out = Inr s \<Longrightarrow> translate_all ((t, p) # ps) (nt, out) = translate_all ps s"
  "nat_translate_packet_h t p (length p) nt out = r \<Longrightarrow>
     translate_all_h ((t, p) # ps) (nt, out) = bind_r r (translate_all_h ps)"
  by (auto simp: translate_all_def translate_all_h_def)

lemma unsolicited_at_Suc:
  assumes "nat_translate_packet t p (length p) nt out = Inr s" and "nat_ip (fst s) = nat_ip nt"
  shows "unsolicited_at (nt, out) ((t, p) # ps) (Suc i) = unsolicited_at s ps i"
  using assms by (simp add: unsolicited_at_def translate_Cons(1) split: sum.split)

definition agree_result :: "(u32 \<times> u16) set \<Rightarrow> (time_t \<times> bytes) list \<Rightarrow> nat_table \<times> nat_event list \<Rightarrow> nat_event list
    \<Rightarrow> (nat_table \<times> nat_event list) result \<Rightarrow> bool" where
  "agree_result S ps s outh r \<longleftrightarrow> (case r of
     Inl e \<Rightarrow> e = NullDeref \<and> (\<exists>i < length ps. unsolicited_at s ps i)
   | Inr (nh', outh') \<Rightarrow> (\<forall>i < length ps. \<not> unsolicited_at s ps i) \<and> (\<exists>nt' es fs. translate_all ps s = Inr (nt', snd s @ es) \<and> outh' = outh @ fs
       \<and> sent_alike (nat_ip (fst s)) S ps es fs))"

lemma agree_result_step:
  assumes run: "nat_translate_packet t p (length p) nt out = Inr (nt1, out @ [e])" "nat_ip nt1 = nat_ip nt"
    and sol: "\<not> unsolicited_at (nt, out) ((t, p) # ps) 0"
    and sent: "if outgoing (nat_ip nt) p \<and> flow_src p \<notin> S then first_sent (nat_ip nt) p e f else e = f"
    and rest: "agree_result (if outgoing (nat_ip nt) p then insert (flow_src p) S else S) ps (nt1, out @ [e]) (outh @ [f]) r"
  shows "agree_result S ((t, p) # ps) (nt, out) outh r"
proof (cases r)
  case (Inl er)
  then obtain i where "er = NullDeref" "i < length ps" "unsolicited_at (nt1, out @ [e]) ps i"
    using rest by (auto simp: agree_result_def)
  then show ?thesis using Inl unsolicited_at_Suc [OF run(1), of ps i] run(2) by (auto simp: agree_result_def)
next
  case (Inr s)
  obtain nh' outh' where s: "s = (nh', outh')" by (cases s)
  obtain nt' es fs where r: "translate_all ps (nt1, out @ [e]) = Inr (nt', (out @ [e]) @ es)" "outh' = (outh @ [f]) @ fs"
    "sent_alike (nat_ip nt) (if outgoing (nat_ip nt) p then insert (flow_src p) S else S) ps es fs"
    and none: "\<forall>i < length ps. \<not> unsolicited_at (nt1, out @ [e]) ps i"
    using rest run(2) Inr s by (auto simp: agree_result_def)
  have "sent_alike (nat_ip nt) S ((t, p) # ps) (e # es) (f # fs)"
    by (rule sent_alike_Cons) (use sent r(3) in \<open>auto split: if_splits\<close>)
  then have "\<exists>nt' es fs. translate_all ((t, p) # ps) (nt, out) = Inr (nt', out @ es) \<and> outh' = outh @ fs
      \<and> sent_alike (nat_ip nt) S ((t, p) # ps) es fs"
    using r(1,2) by (intro exI [of _ nt'] exI [of _ "e # es"] exI [of _ "f # fs"]) (simp add: translate_Cons(1) [OF run(1)])
  moreover have "\<forall>i < length ((t, p) # ps). \<not> unsolicited_at (nt, out) ((t, p) # ps) i"
    using none sol unsolicited_at_Suc [OF run(1), of ps] run(2) by (auto simp: less_Suc_eq_0_disj)
  ultimately show ?thesis using Inr s by (simp add: agree_result_def)
qed

lemma translators_sim:
  assumes "same_flows S nt nh" and "\<forall>(t, p) \<in> set ps. tcp_packet p \<and> p ! 23 = IPPROTO_TCP"
    and "card (S \<union> flow_srcs (nat_ip nt) ps) \<le> 11111"
  shows "agree_result S ps (nt, out) outh (translate_all_h ps (nh, outh))"
  using assms
proof (induction ps arbitrary: S nt nh out outh)
  case Nil
  then show ?case by (simp add: agree_result_def translate_all_def translate_all_h_def sent_alike_Nil)
next
  case (Cons tp ps)
  obtain t p where tp: "tp = (t, p)" by fastforce
  have p: "tcp_packet p" "p ! 23 = IPPROTO_TCP" using Cons.prems(2) tp by auto
  have fin: "finite (S \<union> flow_srcs (nat_ip nt) ps)" using Cons.prems(1) by (simp add: same_flows_def flow_srcs_def)
  show ?case
  proof (cases "outgoing (nat_ip nt) p")
    case True
    then have card: "card (insert (flow_src p) S \<union> flow_srcs (nat_ip nt) ps) \<le> 11111" using Cons.prems(3) tp by simp
    have "card (insert (flow_src p) S) \<le> 11111"
      by (rule order_trans [OF card_mono card]) (use fin in auto)
    then show ?thesis
      using Cons.IH [of "insert (flow_src p) S"] Cons.prems(2) card True
      by (cases rule: translate_both_out [OF Cons.prems(1) p True, of t out outh])
        (auto simp: tp translate_Cons(2) unsolicited_at_def intro!: agree_result_step)
  next
    case False
    show ?thesis
    proof (cases "nat_find_ext nt (tcp_dport p) = None")
      case True
      have "unsolicited_at (nt, out) (tp # ps) 0" using False True by (simp add: unsolicited_at_def tp translate_all_def)
      then show ?thesis
        using translate_both_unknown [OF Cons.prems(1) p False True, of t outh]
        by (auto simp: tp translate_Cons(2) agree_result_def)
    next
      case known: False
      show ?thesis
        using Cons.IH [of S nt] Cons.prems(2,3) False known
        by (cases rule: translate_both_in [OF Cons.prems(1) p False known, of t out outh])
          (auto simp: tp translate_Cons(2) unsolicited_at_def translate_all_def intro!: agree_result_step)
    qed
  qed
qed

section \<open>From the start of the program\<close>

lemma init_same:
  assumes "nat_table_init ifs = Inr nt"
  shows "nat_table_init_h ifs = Inr nt" "nat_mapping_list nt = replicate HASH_8BITS []" "assigned_ports nt = (\<lambda>_. 0)"
    "external_iface nt \<noteq> None"
  using assms by (auto simp: nat_table_init_def nat_table_init_h_def Let_def bind_r_eq_Inr deref_def
      split: if_splits option.splits)

lemma init_same_flows:
  assumes "nat_table_init ifs = Inr nt" and ext: "external_iface nt = Some ext" "inet_addr (n_ip_str ext) = htonl (n_ip ext)"
  shows "same_flows {} nt nt"
proof -
  note i = init_same [OF assms(1)]
  have "nat_find_int_h nt a b = None" "nat_find_ext_h nt q = None" for a b q
    using nat_hash_idx(2) by (simp_all add: nat_find_int_h_def nat_find_ext_h_def i(2))
  moreover have "nat_find_int nt a b = None" "nat_find_ext nt q = None" for a b q
    using nat_find_eq [of nt "[]" 255] by (simp_all add: i(2) empty_lists)
  moreover have "nat_inv nt" using i by (simp add: nat_inv_def empty_lists)
  moreover have "nat_inv_h nt" using i ext by (simp add: nat_inv_h_def mappings_def)
  moreover have "pool_used 0 (\<lambda>_. 0)" by (simp add: pool_used_def)
  ultimately show ?thesis using i(3) by (simp add: same_flows_def)
qed

section \<open>Property\<close>

text \<open>C9. The two translators of the repository agree. Started on the same interfaces, on every sequence of complete TCP packets
  that go out from at most 11111 different sources: if no packet is unsolicited (comes in for a port without a
  flow), both send one packet for each packet, and these are byte for byte the same, except for the first packet of a flow, which
  \<^verbatim>\<open>nat.c\<close> sends as it came and \<^verbatim>\<open>nat_new_2.c\<close> with the external address as its
  source. If some packet is unsolicited, \<^verbatim>\<open>nat_new_2.c\<close> follows a null pointer, and only then.\<close>

theorem translators_agree:
  assumes "nat_table_init ifs = Inr nt" and "external_iface nt = Some ext" "inet_addr (n_ip_str ext) = htonl (n_ip ext)"
    and "\<forall>(t, p) \<in> set ps. tcp_packet p \<and> p ! 23 = IPPROTO_TCP"
    and "card (flow_srcs (nat_ip nt) ps) \<le> 11111"
  shows "nat_table_init_h ifs = Inr nt \<and>
    (case translate_all_h ps (nt, []) of
       Inl e \<Rightarrow> e = NullDeref \<and> (\<exists>i < length ps. unsolicited_at (nt, []) ps i)
     | Inr (nh', fs) \<Rightarrow> (\<forall>i < length ps. \<not> unsolicited_at (nt, []) ps i) \<and>
         (\<exists>nt' es. translate_all ps (nt, []) = Inr (nt', es) \<and> length es = length ps \<and> length fs = length ps
           \<and> (\<forall>i < length ps. if first_of_flow (nat_ip nt) {} ps i
               then first_sent (nat_ip nt) (snd (ps ! i)) (es ! i) (fs ! i)
               else es ! i = fs ! i)))"
proof -
  have "agree_result {} ps (nt, []) [] (translate_all_h ps (nt, []))"
    using translators_sim [OF init_same_flows [OF assms(1-3)] assms(4)] assms(5) by simp
  then show ?thesis
    using init_same(1) [OF assms(1)] by (cases "translate_all_h ps (nt, [])") (auto simp: agree_result_def sent_alike_def)
qed

definition demo_run_packets :: "(time_t \<times> bytes) list" where
  "demo_run_packets = [(5, demo_syn), (6, demo_reply), (7, demo_syn)]"

lemma demo_run_packets:
  "outgoing (nat_ip demo_nat) demo_syn" "\<not> outgoing (nat_ip demo_nat) demo_reply"
  "i < 3 \<Longrightarrow> first_of_flow (nat_ip demo_nat) {} demo_run_packets i \<longleftrightarrow> i = 0"
  "i < 3 \<Longrightarrow> \<not> unsolicited_at (demo_nat, []) demo_run_packets i"
proof -
  show out: "outgoing (nat_ip demo_nat) demo_syn" "\<not> outgoing (nat_ip demo_nat) demo_reply"
    using demo_lookup by (simp_all add: outgoing_def)
  have i: "i = 0 \<or> i = 1 \<or> i = 2" if "i < 3" for i :: nat using that by linarith
  show "first_of_flow (nat_ip demo_nat) {} demo_run_packets i \<longleftrightarrow> i = 0" if "i < 3"
    using i [OF that] out by (auto simp: first_of_flow_def demo_run_packets_def)
  let ?nt = "nat_add 5 (ip_saddr demo_syn) (tcp_sport demo_syn) demo_nat"
  obtain e where "nat_translate_packet 5 demo_syn (length demo_syn) demo_nat [] = Inr (?nt, [e])"
    using nat_translate_ok [OF demo_nat_inv demo_packets(1,2), of 5 "length demo_syn" "[]"] demo_lookup(1,2)
    by (auto simp: nat_spec_def)
  then have run: "translate_all [(5, demo_syn)] (demo_nat, []) = Inr (?nt, [e])" by (simp add: translate_all_def)
  have "nat_find_ext ?nt (tcp_dport demo_reply) \<noteq> None"
    using store.ext_new [OF demo_nat_inv demo_next] demo_lookup(4) by fastforce
  then show "\<not> unsolicited_at (demo_nat, []) demo_run_packets i" if "i < 3"
    using i [OF that] out run by (auto simp: unsolicited_at_def demo_run_packets_def)
qed

theorem translators_agree_witness:
  "\<exists>nt' nh' es fs. translate_all [(5, demo_syn), (6, demo_reply), (7, demo_syn)] (demo_nat, []) = Inr (nt', es)
    \<and> translate_all_h [(5, demo_syn), (6, demo_reply), (7, demo_syn)] (demo_nat, []) = Inr (nh', fs)
    \<and> first_sent (nat_ip demo_nat) demo_syn (es ! 0) (fs ! 0) \<and> es ! 1 = fs ! 1 \<and> es ! 2 = fs ! 2"
proof -
  have init: "nat_table_init [demo_int, demo_ext] = Inr demo_nat" "external_iface demo_nat = Some demo_ext"
    by (simp_all add: nat_table_init_def demo_int_def demo_ext_def demo_nat_def)
  have addr: "inet_addr (n_ip_str demo_ext) = htonl (n_ip demo_ext)"
    using demo_nat_inv_h init(2) by (simp add: nat_inv_h_def)
  have tcp: "\<forall>(t, p) \<in> set demo_run_packets. tcp_packet p \<and> p ! 23 = IPPROTO_TCP"
    using demo_packets(1-4) by (simp add: demo_run_packets_def)
  have card: "card (flow_srcs (nat_ip demo_nat) demo_run_packets) \<le> 11111"
    using demo_run_packets(1,2) by (simp add: demo_run_packets_def)
  have len: "length demo_run_packets = 3" by (simp add: demo_run_packets_def)
  note agree = translators_agree [OF init addr tcp card]
  obtain nh' fs nt' es where "translate_all_h demo_run_packets (demo_nat, []) = Inr (nh', fs)"
    "translate_all demo_run_packets (demo_nat, []) = Inr (nt', es)"
    "\<And>i. i < 3 \<Longrightarrow> if i = 0 then first_sent (nat_ip demo_nat) (snd (demo_run_packets ! i)) (es ! i) (fs ! i) else es ! i = fs ! i"
    using agree demo_run_packets(3,4) unfolding len by (fastforce split: sum.splits)
  from this(1,2) this(3) [of 0] this(3) [of 1] this(3) [of 2] show ?thesis
    by (auto simp: demo_run_packets_def)
qed

end
