(* ===== verification/RouterHeap.thy ===== *)
theory RouterHeap
  imports NatHeap NatMain NatEquiv
begin

text \<open>
  The router with its table in memory: start-up, dispatch and receive loop of
  \<^verbatim>\<open>nat_stack/main.c\<close> over the linked lists of \<^verbatim>\<open>NatHeap\<close>, with passes of the time-out thread
  in between. The theory joins three levels: memory, the lists of \<^verbatim>\<open>NatMain\<close>, and a specification whose whole state is
  the list of flows in the order they were opened: the number of a flow determines its port.
\<close>

section \<open>The program on memory\<close>

record nat_sys_mem =
  nsm_inst :: nat_ustack
  nsm_nat :: nat_mem
  nsm_buf :: bytes
  nsm_out :: "nat_event list"

definition nat_init_ustack_p :: "(string \<Rightarrow> nat_os_dev) \<Rightarrow> ifaddrs list \<Rightarrow> bytes \<Rightarrow> nat_sys_mem result" where
  "nat_init_ustack_p os addrs stack_garbage =
     bind_r (nat_init_all_ifaces os addrs \<lparr>nu_iface_list = [], nu_nifs = 0, nu_fds = []\<rparr>) (\<lambda>inst.
     bind_r (nat_table_init_p (nu_iface_list inst)) (\<lambda>nm.
       Inr \<lparr>nsm_inst = inst, nsm_nat = nm,
            nsm_buf = take ETH_FRAME_LEN (stack_garbage @ replicate ETH_FRAME_LEN 0), nsm_out = []\<rparr>))"

definition handle_ip_packet_p ::
  "(heap \<Rightarrow> addr) \<Rightarrow> time_t \<Rightarrow> nat_iface option \<Rightarrow> bytes \<Rightarrow> nat \<Rightarrow> nat_mem \<Rightarrow> nat_event list \<Rightarrow> (nat_mem \<times> nat_event list) result option" where
  "handle_ip_packet_p malloc now iface packet len nm out =
     bind_p (Some (rd32 packet (packet_to_ip_hdr + 16))) (\<lambda>d.
     let daddr = ntohl d in
     bind_p (Some (rd8 packet (packet_to_ip_hdr + 9))) (\<lambda>protocol.
     bind_p (Some (if protocol = IPPROTO_ICMP then bind_r (deref iface) (\<lambda>i. Inr (daddr = n_ip i)) else Inr False)) (\<lambda>own_icmp.
     if own_icmp then
       bind_p (Some (IP_HDR_SIZE packet packet_to_ip_hdr)) (\<lambda>n.
       bind_p (Some (rd8 packet (packet_to_ip_hdr + n))) (\<lambda>type.
         Some (Inr (nm, out @ (if type = ICMP_ECHOREQUEST then [IcmpSend packet len ICMP_ECHOREPLY 0] else [])
                      @ [FreePacket packet]))))
     else nat_translate_packet_p malloc now packet len nm out)))"

definition nat_handle_packet_p ::
  "(heap \<Rightarrow> addr) \<Rightarrow> time_t \<Rightarrow> nat_iface option \<Rightarrow> bytes \<Rightarrow> nat \<Rightarrow> nat_mem \<Rightarrow> nat_event list \<Rightarrow> (nat_mem \<times> nat_event list) result option" where
  "nat_handle_packet_p malloc now iface packet len nm out =
     bind_p (Some (ether_type packet)) (\<lambda>t.
     if ntohs t = ETH_P_IP then handle_ip_packet_p malloc now iface packet len nm out
     else if ntohs t = ETH_P_ARP then Some (Inr (nm, out @ [ArpPacket iface packet len]))
     else Some (Inr (nm, out)))"

definition nat_rx_step_p :: "(heap \<Rightarrow> addr) \<Rightarrow> int \<times> recv \<Rightarrow> nat_sys_mem \<Rightarrow> nat_sys_mem result option" where
  "nat_rx_step_p malloc fr s = (case fr of (fd, r) \<Rightarrow> (case r of
       NoInput \<Rightarrow> Some (Inr s)
     | RecvFailed \<Rightarrow> Some (Inr s)
     | Received data own now \<Rightarrow>
         let len = recv_len data;
             s = s\<lparr>nsm_buf := recv_into (nsm_buf s) data\<rparr>
         in if len = 0 then Some (Inr s)
            else if own then Some (Inr s)
            else let iface = nat_fd_to_iface (nu_iface_list (nsm_inst s)) fd;
                     packet = take len (nsm_buf s)
                 in bind_p (nat_handle_packet_p malloc now iface packet len (nsm_nat s) (nsm_out s)) (\<lambda>(nm, out).
                      Some (Inr (s\<lparr>nsm_nat := nm, nsm_out := out\<rparr>)))))"

text \<open>The main thread serves a descriptor, or the time-out thread makes a pass.\<close>

datatype nat_round = NatRx int recv | TimeOut time_t

fun nat_round_p :: "(heap \<Rightarrow> addr) \<Rightarrow> nat_round \<Rightarrow> nat_sys_mem \<Rightarrow> nat_sys_mem result option" where
  "nat_round_p malloc (NatRx fd r) s = nat_rx_step_p malloc (fd, r) s"
| "nat_round_p malloc (TimeOut now) s =
     bind_p (nat_timeout_p now (nsm_nat s)) (\<lambda>nm. Some (Inr (s\<lparr>nsm_nat := nm\<rparr>)))"

fun nat_rounds_p :: "(heap \<Rightarrow> addr) \<Rightarrow> nat_round list \<Rightarrow> nat_sys_mem \<Rightarrow> nat_sys_mem result option" where
  "nat_rounds_p malloc [] s = Some (Inr s)"
| "nat_rounds_p malloc (r # rs) s = bind_p (nat_round_p malloc r s) (nat_rounds_p malloc rs)"

section \<open>The specification\<close>

type_synonym flows = "(u32 \<times> u16) list"

text \<open>The external port of the flow with number \<open>k\<close>, in network order; flows beyond the pool share one.\<close>

definition flow_port :: "nat \<Rightarrow> u16" where
  "flow_port k = (if k < 11111 then htons (of_nat (NAT_PORT_MIN + k)) else 65535)"

definition by_port :: "flows \<Rightarrow> u16 \<Rightarrow> (u32 \<times> u16) option" where
  "by_port fl q = map_option ((!) fl) (find (\<lambda>k. flow_port k = q) [0..<length fl])"

definition by_flow :: "flows \<Rightarrow> u32 \<times> u16 \<Rightarrow> u16 option" where
  "by_flow fl f = map_option flow_port (find (\<lambda>k. fl ! k = f) [0..<length fl])"

text \<open>What becomes of a TCP packet, before its checksums are recomputed, and of the flows.\<close>

definition rt_packet :: "u32 \<Rightarrow> bytes \<Rightarrow> flows \<Rightarrow> bytes \<times> flows" where
  "rt_packet ext p fl =
     (if ip_daddr p = ext
      then (case by_port fl (tcp_dport p) of
              Some (ip, port) \<Rightarrow> (rewrite_dst p ip port, fl) | None \<Rightarrow> (p, fl @ [flow_src p]))
      else (case by_flow fl (flow_src p) of
              Some q \<Rightarrow> (rewrite_src p ext q, fl) | None \<Rightarrow> (p, fl @ [flow_src p])))"

definition is_ip :: "bytes \<Rightarrow> bool" where "is_ip p \<longleftrightarrow> ntohs (get16 p 12) = ETH_P_IP"
definition is_arp :: "bytes \<Rightarrow> bool" where "is_arp p \<longleftrightarrow> ntohs (get16 p 12) = ETH_P_ARP"

definition own_ping :: "nat_iface \<Rightarrow> bytes \<Rightarrow> bool" where
  "own_ping i p \<longleftrightarrow> p ! 23 = IPPROTO_ICMP \<and> ntohl (ip_daddr p) = n_ip i"

inductive rt_frame :: "u32 \<Rightarrow> nat_iface \<Rightarrow> bytes \<Rightarrow> nat \<Rightarrow> flows \<Rightarrow> flows \<Rightarrow> nat_event list \<Rightarrow> bool" for ext i p len fl where
  rt_tcp: "is_ip p \<Longrightarrow> p ! 23 = IPPROTO_TCP \<Longrightarrow> rt_packet ext p fl = (p1, fl') \<Longrightarrow> resummed p1 p' \<Longrightarrow>
    rt_frame ext i p len fl fl' [IpSend p' len]"
| rt_echo: "is_ip p \<Longrightarrow> own_ping i p \<Longrightarrow> p ! (14 + ip_hdr_len p) = ICMP_ECHOREQUEST \<Longrightarrow>
    rt_frame ext i p len fl fl [IcmpSend p len ICMP_ECHOREPLY 0, FreePacket p]"
| rt_icmp: "is_ip p \<Longrightarrow> own_ping i p \<Longrightarrow> p ! (14 + ip_hdr_len p) \<noteq> ICMP_ECHOREQUEST \<Longrightarrow>
    rt_frame ext i p len fl fl [FreePacket p]"
| rt_drop: "is_ip p \<Longrightarrow> \<not> own_ping i p \<Longrightarrow> p ! 23 \<noteq> IPPROTO_TCP \<Longrightarrow> rt_frame ext i p len fl fl [FreePacket p]"
| rt_arp: "\<not> is_ip p \<Longrightarrow> is_arp p \<Longrightarrow> rt_frame ext i p len fl fl [ArpPacket (Some i) p len]"
| rt_other: "\<not> is_ip p \<Longrightarrow> \<not> is_arp p \<Longrightarrow> rt_frame ext i p len fl fl []"

fun quiet :: "recv \<Rightarrow> bool" where
  "quiet (Received data own now) \<longleftrightarrow> data = [] \<or> own"
| "quiet r \<longleftrightarrow> True"

inductive rt_run :: "nat_iface list \<Rightarrow> u32 \<Rightarrow> flows \<Rightarrow> nat_round list \<Rightarrow> flows \<Rightarrow> nat_event list \<Rightarrow> bool" for ifs ext where
  rt_done: "rt_run ifs ext fl [] fl []"
| rt_quiet: "quiet r \<Longrightarrow> rt_run ifs ext fl rs fl' out \<Longrightarrow> rt_run ifs ext fl (NatRx fd r # rs) fl' out"
| rt_received: "nat_fd_to_iface ifs fd = Some i \<Longrightarrow> p = take ETH_FRAME_LEN data \<Longrightarrow> rt_frame ext i p (length p) fl fl1 evs \<Longrightarrow>
    rt_run ifs ext fl1 rs fl' out \<Longrightarrow> rt_run ifs ext fl (NatRx fd (Received data False now) # rs) fl' (evs @ out)"
| rt_timeout: "rt_run ifs ext fl rs fl' out \<Longrightarrow> rt_run ifs ext fl (TimeOut now # rs) fl' out"

section \<open>Memory and lists\<close>

definition router_sim :: "addr set \<Rightarrow> nat_sys_mem \<Rightarrow> nat_sys \<Rightarrow> bool" where
  "router_sim G sm s \<longleftrightarrow> nat_sim G (nsm_nat sm) (ns_nat s) \<and> nsm_inst sm = ns_inst s \<and> nsm_buf sm = ns_buf s \<and> nsm_out sm = ns_out s"

lemma trans_sim_same: "nat_sim G nm nt \<Longrightarrow> trans_sim (card G) (Some (Inr (nm, x))) (Inr (nt, x))"
  by (auto simp: trans_sim_def)

lemma handle_ip_packet_p_sim:
  assumes mal: "malloc_fresh malloc" and sim: "nat_sim G nm nt" and p: "34 \<le> length packet"
  shows "trans_sim (card G + (if packet ! 23 = IPPROTO_TCP then 1 else 0))
    (handle_ip_packet_p malloc now iface packet len nm out) (handle_ip_packet now iface packet len nt out)"
proof (cases "packet ! 23 = IPPROTO_ICMP")
  case True
  have "trans_sim (card G) (handle_ip_packet_p malloc now iface packet len nm out) (handle_ip_packet now iface packet len nt out)"
    unfolding handle_ip_packet_p_def handle_ip_packet_def Let_def
    by (intro trans_sim_step)
      (use nat_translate_packet_p_sim [OF mal sim, of packet now len out] True in
        \<open>auto intro!: trans_sim_step trans_sim_same [OF sim] simp: IPPROTO_TCP_def IPPROTO_ICMP_def\<close>)
  then show ?thesis using True by (simp add: IPPROTO_TCP_def IPPROTO_ICMP_def)
next
  case False
  then show ?thesis using nat_translate_packet_p_sim [OF mal sim, of packet now len out] p
    by (simp add: handle_ip_packet_p_def handle_ip_packet_def rd_ok)
qed

lemma nat_handle_packet_p_sim:
  assumes mal: "malloc_fresh malloc" and sim: "nat_sim G nm nt" and ok: "frame_ok packet"
  shows "trans_sim (card G + (if is_ip packet \<and> packet ! 23 = IPPROTO_TCP then 1 else 0))
    (nat_handle_packet_p malloc now iface packet len nm out) (nat_handle_packet now iface packet len nt out)"
  using handle_ip_packet_p_sim [OF mal sim, of packet now iface len out] ok trans_sim_same [OF sim]
  by (auto simp: nat_handle_packet_p_def nat_handle_packet_def ether_type_def rd_ok frame_ok_def is_ip_def)

text \<open>The TCP packets that are translated: each of them costs the memory of a mapping.\<close>

fun tcp_round :: "nat_round \<Rightarrow> bool" where
  "tcp_round (NatRx fd (Received data own now)) \<longleftrightarrow> data \<noteq> [] \<and> \<not> own
     \<and> is_ip (take ETH_FRAME_LEN data) \<and> take ETH_FRAME_LEN data ! 23 = IPPROTO_TCP"
| "tcp_round r \<longleftrightarrow> False"

definition lost_by :: "nat_round \<Rightarrow> nat" where
  "lost_by r = (if tcp_round r then 1 else 0)"

fun nat_round_list :: "nat_round \<Rightarrow> nat_sys \<Rightarrow> nat_sys result" where
  "nat_round_list (NatRx fd r) s = nat_rx_step (fd, r) s"
| "nat_round_list (TimeOut now) s = Inr (s\<lparr>ns_nat := nat_timeout now (ns_nat s)\<rparr>)"

fun nat_round_ok :: "int list \<Rightarrow> nat_round \<Rightarrow> bool" where
  "nat_round_ok fs (NatRx fd r) \<longleftrightarrow> fd \<in> set fs \<and> recv_ok r"
| "nat_round_ok fs (TimeOut now) \<longleftrightarrow> True"

lemma nat_round_p_sim:
  assumes mal: "malloc_fresh malloc" and sim: "router_sim G sm s" and ok: "nat_round_ok fs r"
    and run: "nat_round_list r s = Inr s'"
  obtains G' sm' where "nat_round_p malloc r sm = Some (Inr sm')" "router_sim G' sm' s'" "card G' = card G + lost_by r"
proof (cases r)
  case (TimeOut now)
  then obtain nm where "nat_timeout_p now (nsm_nat sm) = Some (Inr nm)" "nat_sim G nm (nat_timeout now (ns_nat s))"
    using nat_timeout_p_sim [of G "nsm_nat sm" "ns_nat s" now] sim by (auto simp: router_sim_def)
  with TimeOut run sim show thesis by (intro that [of "sm\<lparr>nsm_nat := nm\<rparr>" G]) (auto simp: router_sim_def lost_by_def)
next
  case (NatRx fd rv)
  have same: "nsm_inst sm = ns_inst s" "nsm_buf sm = ns_buf s" "nsm_out sm = ns_out s" "nat_sim G (nsm_nat sm) (ns_nat s)"
    using sim by (simp_all add: router_sim_def)
  show thesis
  proof (cases rv)
    case (Received data own now)
    let ?p = "take ETH_FRAME_LEN data"
    show thesis
    proof (cases "recv_len data = 0 \<or> own")
      case True
      moreover have "recv_len data = 0 \<longleftrightarrow> data = []" by (auto simp: recv_len_def ETH_FRAME_LEN_def min_def)
      ultimately have "lost_by r = 0" by (auto simp: lost_by_def NatRx Received)
      moreover have "s' = s\<lparr>ns_buf := recv_into (ns_buf s) data\<rparr>"
        using run True by (auto simp: NatRx Received nat_rx_step_def Let_def split: if_splits)
      moreover have "nat_round_p malloc r sm = Some (Inr (sm\<lparr>nsm_buf := recv_into (ns_buf s) data\<rparr>))"
        using True same(2) by (auto simp: NatRx Received nat_rx_step_p_def Let_def)
      ultimately show thesis using that same by (auto simp: router_sim_def)
    next
      case False
      then have ok': "frame_ok ?p" using ok by (auto simp: NatRx Received recv_ok_def recv_len_def)
      let ?i = "nat_fd_to_iface (nu_iface_list (ns_inst s)) fd"
      obtain nt out where h: "nat_handle_packet now ?i ?p (recv_len data) (ns_nat s) (ns_out s) = Inr (nt, out)"
        "s' = s\<lparr>ns_buf := recv_into (ns_buf s) data, ns_nat := nt, ns_out := out\<rparr>"
        using run False by (auto simp: NatRx Received nat_rx_step_def Let_def received_packet bind_r_eq_Inr)
      obtain G' nm where m: "nat_handle_packet_p malloc now ?i ?p (recv_len data) (nsm_nat sm) (ns_out s) = Some (Inr (nm, out))"
        "nat_sim G' nm nt" "card G' = card G + (if is_ip ?p \<and> ?p ! 23 = IPPROTO_TCP then 1 else 0)"
        using nat_handle_packet_p_sim [OF mal same(4) ok', of now ?i "recv_len data" "ns_out s"] h(1)
        by (auto simp: trans_sim_def)
      have "card G' = card G + lost_by r" using m(3) False by (auto simp: lost_by_def NatRx Received recv_len_def)
      with m(1,2) h(2) same False show thesis
        by (intro that [of "sm\<lparr>nsm_buf := recv_into (ns_buf s) data, nsm_nat := nm, nsm_out := out\<rparr>" G'])
          (auto simp: NatRx Received nat_rx_step_p_def Let_def received_packet router_sim_def)
    qed
  qed (use that [of sm G] sim run NatRx in \<open>auto simp: nat_rx_step_p_def nat_rx_step_def lost_by_def\<close>)
qed

section \<open>Lists and flows\<close>

lemma find_map: "find P (map f xs) = map_option f (find (P \<circ> f) xs)"
  by (induction xs) auto

definition flow_entry :: "flows \<Rightarrow> nat \<Rightarrow> u32 \<times> u16 \<times> u16" where
  "flow_entry fl k = (fst (fl ! k), snd (fl ! k), flow_port k)"

definition rt_rel :: "flows \<Rightarrow> nat_table \<Rightarrow> bool" where
  "rt_rel fl nt \<longleftrightarrow> nat_inv nt \<and> pool_used (min (length fl) 11111) (assigned_ports nt)
     \<and> map flow_of (hd (nat_mapping_list nt)) = map (flow_entry fl) [0..<length fl]"

lemma rt_rel_find:
  assumes "rt_rel fl nt"
  shows "map_option (\<lambda>m. (internal_ip m, internal_port m)) (nat_find_ext nt q) = by_port fl q"
    "map_option external_port (nat_find_int nt ip p) = by_flow fl (ip, p)"
proof -
  let ?l = "hd (nat_mapping_list nt)"
  have l: "nat_mapping_list nt = ?l # replicate 255 []" using assms by (simp add: rt_rel_def nat_inv_def)
  have m: "map flow_of ?l = map (flow_entry fl) [0..<length fl]" using assms by (simp add: rt_rel_def)
  have "map_option flow_of (nat_find_ext nt q) = find (\<lambda>f. snd (snd f) = q) (map flow_of ?l)"
    unfolding nat_find_eq(1) [OF l] by (simp add: find_map o_def flow_of_def)
  also have "\<dots> = map_option (flow_entry fl) (find (\<lambda>k. flow_port k = q) [0..<length fl])"
    unfolding m by (simp add: find_map o_def flow_entry_def)
  finally have "map_option (\<lambda>m. (internal_ip m, internal_port m)) (nat_find_ext nt q)
      = map_option (\<lambda>k. (fst (fl ! k), snd (fl ! k))) (find (\<lambda>k. flow_port k = q) [0..<length fl])"
    by (cases "nat_find_ext nt q"; cases "find (\<lambda>k. flow_port k = q) [0..<length fl]") (auto simp: flow_of_def flow_entry_def)
  then show "map_option (\<lambda>m. (internal_ip m, internal_port m)) (nat_find_ext nt q) = by_port fl q"
    by (simp add: by_port_def)
  have "map_option flow_of (nat_find_int nt ip p) = find (\<lambda>f. fst f = ip \<and> fst (snd f) = p) (map flow_of ?l)"
    unfolding nat_find_eq(2) [OF l] by (simp add: find_map o_def flow_of_def)
  also have "\<dots> = map_option (flow_entry fl) (find (\<lambda>k. fl ! k = (ip, p)) [0..<length fl])"
    unfolding m by (simp add: find_map o_def flow_entry_def prod_eq_iff)
  finally show "map_option external_port (nat_find_int nt ip p) = by_flow fl (ip, p)"
    by (cases "nat_find_int nt ip p"; cases "find (\<lambda>k. fl ! k = (ip, p)) [0..<length fl]")
      (auto simp: flow_of_def flow_entry_def by_flow_def)
qed

lemma pool_used_full:
  assumes "pool_used 11111 ports"
  shows "assign_external_port ports = (65535, ports)"
proof (cases rule: pool.assign_cases [of ports])
  case (1 i)
  then have "NAT_PORT_MIN + 11111 \<le> i" using assms by (auto simp: pool_used_def)
  then show ?thesis using 1(2) by (simp add: NAT_PORT_MIN_def NAT_PORT_MAX_def)
qed

lemma rt_rel_add:
  assumes rel: "rt_rel fl nt"
  shows "rt_rel (fl @ [(ip, p)]) (nat_add now ip p nt)"
proof -
  have inv: "nat_inv nt" using rel by (simp add: rt_rel_def)
  obtain m ports q where a: "nat_add now ip p nt = nt\<lparr>assigned_ports := ports,
       nat_mapping_list := (hd (nat_mapping_list nt) @ [m]) # replicate 255 []\<rparr>"
    "assign_external_port (assigned_ports nt) = (q, ports)" "flow_of m = (ip, p, htons q)"
    by (rule nat_add_eq [OF inv, of now ip p]) (auto simp: flow_of_def)
  have old: "map (flow_entry (fl @ [(ip, p)])) [0..<length fl] = map (flow_entry fl) [0..<length fl]"
    by (simp add: flow_entry_def nth_append)
  have "htons q = flow_port (length fl) \<and> pool_used (min (length (fl @ [(ip, p)])) 11111) ports"
  proof (cases "length fl < 11111")
    case True
    then have "pool_used (length fl) (assigned_ports nt)" using rel by (simp add: rt_rel_def min_def)
    with True show ?thesis using pool_used_assign(1,3) [of "length fl" "assigned_ports nt"] a(2)
      by (simp add: flow_port_def min_def)
  next
    case False
    then have "pool_used 11111 (assigned_ports nt)" using rel by (auto simp: rt_rel_def min_def split: if_splits)
    with False show ?thesis using pool_used_full [of "assigned_ports nt"] a(2) by (simp add: flow_port_def min_def)
  qed
  then show ?thesis using rel nat_inv_add [OF inv, of now ip p] old a(3)
    unfolding rt_rel_def by (auto simp: a(1) flow_entry_def)
qed

lemma rt_rel_packet:
  assumes rel: "rt_rel fl nt"
  shows "fst (nat_spec now p nt) = fst (rt_packet (nat_ip nt) p fl)"
    "rt_rel (snd (rt_packet (nat_ip nt) p fl)) (snd (nat_spec now p nt))"
  using rt_rel_find(1) [OF rel, of "tcp_dport p"] rt_rel_find(2) [OF rel, of "ip_saddr p" "tcp_sport p"] rel
    rt_rel_add [OF rel, of "ip_saddr p" "tcp_sport p" now]
  by (auto simp: nat_spec_def rt_packet_def flow_src_def split: option.splits)

section \<open>Rounds\<close>

text \<open>The clock does not go back.\<close>

fun clock_after :: "time_t \<Rightarrow> nat_round \<Rightarrow> time_t" where
  "clock_after t (NatRx fd (Received data own now)) = now"
| "clock_after t (TimeOut now) = now"
| "clock_after t r = t"

fun clock_ok :: "time_t \<Rightarrow> nat_round list \<Rightarrow> bool" where
  "clock_ok t [] \<longleftrightarrow> True"
| "clock_ok t (r # rs) \<longleftrightarrow> t \<le> clock_after t r \<and> clock_ok (clock_after t r) rs"

definition router_ok :: "u32 \<Rightarrow> time_t \<Rightarrow> flows \<Rightarrow> nat_sys \<Rightarrow> bool" where
  "router_ok ext t fl s \<longleftrightarrow> ns_wf s \<and> rt_rel fl (ns_nat s) \<and> nat_past t (ns_nat s) \<and> nat_ip (ns_nat s) = ext"

lemma handle_flows:
  assumes rel: "rt_rel fl nt" and ok: "frame_ok p"
  obtains nt' evs fl' where "nat_handle_packet now (Some i) p len nt out = Inr (nt', out @ evs)"
    "rt_frame (nat_ip nt) i p len fl fl' evs" "rt_rel fl' nt'" "nat_ip nt' = nat_ip nt"
proof -
  have inv: "nat_inv nt" using rel by (simp add: rt_rel_def)
  have e: "nat_handle_packet now (Some i) p len nt out =
      (if is_ip p then handle_ip_packet now (Some i) p len nt out
       else if is_arp p then Inr (nt, out @ [ArpPacket (Some i) p len]) else Inr (nt, out))"
    using ok by (simp add: nat_handle_packet_def ether_type_def rd_ok frame_ok_def is_ip_def is_arp_def)
  show thesis
  proof (cases "is_ip p")
    case False
    show thesis
    proof (cases "is_arp p")
      case True
      show thesis by (rule that [of nt "[ArpPacket (Some i) p len]" fl]) (use False True e rel in \<open>auto intro: rt_arp\<close>)
    next
      case no_arp: False
      show thesis by (rule that [of nt "[]" fl]) (use False no_arp e rel in \<open>auto intro: rt_other\<close>)
    qed
  next
    case True
    then have p: "34 \<le> length p" "p ! 23 = IPPROTO_TCP \<longrightarrow> tcp_packet p" "p ! 23 = IPPROTO_ICMP \<longrightarrow> 14 + ip_hdr_len p < length p"
      using ok by (simp_all add: frame_ok_def is_ip_def)
    show thesis
    proof (cases "p ! 23 = IPPROTO_TCP")
      case tcp: True
      obtain p' where t: "nat_translate_packet now p len nt out = Inr (snd (nat_spec now p nt), out @ [IpSend p' len])"
        "resummed (fst (nat_spec now p nt)) p'"
        using nat_translate_ok [OF inv _ tcp, of now len out] p(2) tcp by auto
      have "handle_ip_packet now (Some i) p len nt out = nat_translate_packet now p len nt out"
        using p(1) tcp by (simp add: handle_ip_packet_def rd_ok IPPROTO_TCP_def IPPROTO_ICMP_def)
      moreover have "rt_frame (nat_ip nt) i p len fl (snd (rt_packet (nat_ip nt) p fl)) [IpSend p' len]"
        using rt_tcp [OF True tcp] t(2) rt_rel_packet(1) [OF rel] by (metis prod.collapse)
      ultimately show thesis using that rt_rel_packet(2) [OF rel] t(1) e True nat_ip_spec [OF inv] by auto
    next
      case ntcp: False
      let ?evs = "if own_ping i p then (if p ! (14 + ip_hdr_len p) = ICMP_ECHOREQUEST then [IcmpSend p len ICMP_ECHOREPLY 0] else []) @ [FreePacket p]
        else [FreePacket p]"
      have drop: "nat_translate_packet now p len nt out = Inr (nt, out @ [FreePacket p])"
        using inv p(1) ntcp by (simp add: nat_translate_packet_def get_packet_direction_ok nat_inv_def rd_ok)
      have h: "handle_ip_packet now (Some i) p len nt out = Inr (nt, out @ ?evs)"
        using p drop by (auto simp: handle_ip_packet_def rd_ok own_ping_def ip_daddr_def IP_HDR_SIZE_ok)
      have "rt_frame (nat_ip nt) i p len fl fl ?evs"
        using True ntcp by (auto intro: rt_echo rt_icmp rt_drop)
      then show thesis by (rule that [of nt ?evs fl, OF _ _ rel refl, rotated]) (simp only: e True h if_True)
    qed
  qed
qed

lemma nat_past_mono: "nat_past t nt \<Longrightarrow> t \<le> u \<Longrightarrow> nat_past u nt"
  by (force simp: nat_past_def)

lemma router_frame:
  assumes ok: "router_ok ext t fl s" and fd: "fd \<in> set (nu_fds (ns_inst s))" and frame: "frame_ok (take ETH_FRAME_LEN data)"
    and d: "data \<noteq> []" and now: "t \<le> now"
  obtains s' fl' evs i where "nat_rx_step (fd, Received data False now) s = Inr s'" "router_ok ext now fl' s'" "ns_inst s' = ns_inst s"
    "ns_out s' = ns_out s @ evs" "nat_fd_to_iface (nu_iface_list (ns_inst s)) fd = Some i"
    "rt_frame ext i (take ETH_FRAME_LEN data) (length (take ETH_FRAME_LEN data)) fl fl' evs"
proof -
  let ?p = "take ETH_FRAME_LEN data"
  have s: "ns_wf s" "rt_rel fl (ns_nat s)" "nat_past t (ns_nat s)" "nat_ip (ns_nat s) = ext" using ok by (simp_all add: router_ok_def)
  have inv: "nat_inv (ns_nat s)" using s(2) by (simp add: rt_rel_def)
  have len: "recv_len data = length ?p" "recv_len data \<noteq> 0" using d by (auto simp: recv_len_def ETH_FRAME_LEN_def min_def)
  obtain i where i: "nat_fd_to_iface (nu_iface_list (ns_inst s)) fd = Some i"
    using nat_fd_to_iface_known [of fd "nu_iface_list (ns_inst s)"] fd s(1) by (auto simp: ns_wf_def)
  obtain nt evs fl' where h: "nat_handle_packet now (Some i) ?p (length ?p) (ns_nat s) (ns_out s) = Inr (nt, ns_out s @ evs)"
    "rt_frame (nat_ip (ns_nat s)) i ?p (length ?p) fl fl' evs" "rt_rel fl' nt" "nat_ip nt = nat_ip (ns_nat s)"
    using handle_flows [OF s(2) frame] by metis
  let ?s = "s\<lparr>ns_buf := recv_into (ns_buf s) data, ns_nat := nt, ns_out := ns_out s @ evs\<rparr>"
  have "nat_rx_step (fd, Received data False now) s = Inr ?s"
    using h(1) [folded len(1)] len(2) i by (simp add: nat_rx_step_def Let_def received_packet)
  moreover have "nat_past now nt" by (rule nat_grows_past [OF nat_handle_grows [OF h(1)] inv s(3) now])
  then have "router_ok ext now fl' ?s"
    using s(1,4) h(3,4) by (simp add: router_ok_def ns_wf_def length_recv_into rt_rel_def)
  ultimately show thesis using that [of ?s fl' evs i] h(2) i s(4) by simp
qed

lemma quiet_rx:
  assumes "quiet r" and "ns_wf s"
  shows "\<exists>b. nat_rx_step (fd, r) s = Inr (s\<lparr>ns_buf := b\<rparr>) \<and> ns_wf (s\<lparr>ns_buf := b\<rparr>)"
proof (cases r)
  case (Received data own now)
  then have "recv_len data = 0 \<or> own" using assms(1) by (auto simp: recv_len_def)
  then show ?thesis using assms(2) Received
    by (intro exI [of _ "recv_into (ns_buf s) data"]) (auto simp: nat_rx_step_def Let_def ns_wf_def length_recv_into)
qed (use assms in \<open>auto simp: nat_rx_step_def intro!: exI [of _ "ns_buf s"]\<close>)

lemma router_round:
  assumes ok: "router_ok ext t fl s" and r: "nat_round_ok (nu_fds (ns_inst s)) r" and now: "t \<le> clock_after t r"
  obtains s' fl' evs where "nat_round_list r s = Inr s'" "router_ok ext (clock_after t r) fl' s'" "ns_inst s' = ns_inst s"
    "ns_out s' = ns_out s @ evs"
    "\<And>rs fl2 out. rt_run (nu_iface_list (ns_inst s)) ext fl' rs fl2 out \<Longrightarrow> rt_run (nu_iface_list (ns_inst s)) ext fl (r # rs) fl2 (evs @ out)"
proof (cases r)
  case (TimeOut now)
  have "nat_timeout now (ns_nat s) = ns_nat s"
    using ok assms(3) TimeOut by (intro nat_timeout_id) (force simp: router_ok_def nat_past_def)
  then have "nat_round_list r s = Inr s" using TimeOut by simp
  moreover have "router_ok ext now fl s" using ok assms(3) TimeOut nat_past_mono by (auto simp: router_ok_def)
  ultimately show thesis using that [of s fl "[]"] TimeOut by (simp add: rt_run.rt_timeout)
next
  case (NatRx fd rv)
  show thesis
  proof (cases "quiet rv")
    case True
    obtain b where b: "nat_rx_step (fd, rv) s = Inr (s\<lparr>ns_buf := b\<rparr>)" "ns_wf (s\<lparr>ns_buf := b\<rparr>)"
      using quiet_rx [OF True, of s fd] ok by (auto simp: router_ok_def)
    have "router_ok ext (clock_after t r) fl (s\<lparr>ns_buf := b\<rparr>)" using ok b(2) now nat_past_mono by (auto simp: router_ok_def)
    then show thesis using that [of "s\<lparr>ns_buf := b\<rparr>" fl "[]"] b(1) True NatRx by (simp add: rt_run.rt_quiet)
  next
    case False
    then obtain data now' where rv: "rv = Received data False now'" "data \<noteq> []" by (cases rv) auto
    have "fd \<in> set (nu_fds (ns_inst s))" "frame_ok (take ETH_FRAME_LEN data)" "t \<le> now'"
      using r now NatRx rv by (simp_all add: recv_ok_def)
    from router_frame [OF ok this(1,2) rv(2) this(3)] obtain s' fl' evs i where
      f: "nat_rx_step (fd, Received data False now') s = Inr s'" "router_ok ext now' fl' s'" "ns_inst s' = ns_inst s"
        "ns_out s' = ns_out s @ evs" "nat_fd_to_iface (nu_iface_list (ns_inst s)) fd = Some i"
        "rt_frame ext i (take ETH_FRAME_LEN data) (length (take ETH_FRAME_LEN data)) fl fl' evs" by metis
    have "rt_run (nu_iface_list (ns_inst s)) ext fl (r # rs) fl2 (evs @ out)"
      if "rt_run (nu_iface_list (ns_inst s)) ext fl' rs fl2 out" for rs fl2 out
      using rt_run.rt_received [OF f(5) refl f(6) that] NatRx rv(1) by simp
    then show thesis using that [of s' fl' evs] f(1-4) NatRx rv(1) by simp
  qed
qed

lemma router_rounds:
  assumes mal: "malloc_fresh malloc"
  shows "router_sim G sm s \<Longrightarrow> router_ok ext t fl s \<Longrightarrow> list_all (nat_round_ok (nu_fds (ns_inst s))) rounds \<Longrightarrow> clock_ok t rounds \<Longrightarrow>
    \<exists>G' sm' s' fl' evs u. nat_rounds_p malloc rounds sm = Some (Inr sm') \<and> router_sim G' sm' s' \<and> router_ok ext u fl' s'
      \<and> ns_out s' = ns_out s @ evs \<and> card G' = card G + length (filter tcp_round rounds)
      \<and> rt_run (nu_iface_list (ns_inst s)) ext fl rounds fl' evs"
proof (induction rounds arbitrary: G sm s t fl)
  case Nil
  then show ?case
    by (intro exI [of _ G] exI [of _ sm] exI [of _ s] exI [of _ fl] exI [of _ "[]"] exI [of _ t]) (simp add: rt_done)
next
  case (Cons r rs)
  have r: "nat_round_ok (nu_fds (ns_inst s)) r" "t \<le> clock_after t r" using Cons.prems(3,4) by simp_all
  obtain s1 fl1 evs1 where one: "nat_round_list r s = Inr s1" "router_ok ext (clock_after t r) fl1 s1" "ns_inst s1 = ns_inst s"
    "ns_out s1 = ns_out s @ evs1"
    "\<And>rs fl2 out. rt_run (nu_iface_list (ns_inst s)) ext fl1 rs fl2 out \<Longrightarrow> rt_run (nu_iface_list (ns_inst s)) ext fl (r # rs) fl2 (evs1 @ out)"
    by (rule router_round [OF Cons.prems(2) r]) blast
  obtain G1 sm1 where mem: "nat_round_p malloc r sm = Some (Inr sm1)" "router_sim G1 sm1 s1" "card G1 = card G + lost_by r"
    using nat_round_p_sim [OF mal Cons.prems(1) r(1) one(1)] by blast
  obtain G' sm' s' fl' evs u where rest: "nat_rounds_p malloc rs sm1 = Some (Inr sm')" "router_sim G' sm' s'" "router_ok ext u fl' s'"
    "ns_out s' = ns_out s1 @ evs" "card G' = card G1 + length (filter tcp_round rs)"
    "rt_run (nu_iface_list (ns_inst s)) ext fl1 rs fl' evs"
    using Cons.IH [OF mem(2) one(2)] Cons.prems(3,4) one(3) by auto
  show ?case
    using mem(1,3) rest(1-5) one(4) one(5) [OF rest(6)]
    by (intro exI [of _ G'] exI [of _ sm'] exI [of _ s'] exI [of _ fl'] exI [of _ "evs1 @ evs"] exI [of _ u]) (simp add: lost_by_def)
qed

lemma nat_init_ustack_p_ok:
  assumes "nat_init_ustack_p os addrs g = Inr sm"
  obtains s e where "nat_init_ustack os addrs g = Inr s" "router_sim {} sm s" "router_ok (htonl (n_ip e)) t [] s" "ns_out s = []"
    "if_name_to_iface (nu_iface_list (ns_inst s)) ''n1-eth1'' = Some e"
proof -
  obtain inst nm where i: "nat_init_all_ifaces os addrs \<lparr>nu_iface_list = [], nu_nifs = 0, nu_fds = []\<rparr> = Inr inst"
    "nat_table_init_p (nu_iface_list inst) = Inr nm"
    "sm = \<lparr>nsm_inst = inst, nsm_nat = nm, nsm_buf = take ETH_FRAME_LEN (g @ replicate ETH_FRAME_LEN 0), nsm_out = []\<rparr>"
    using assms by (auto simp: nat_init_ustack_p_def bind_r_eq_Inr)
  obtain nt where nt: "nat_table_init (nu_iface_list inst) = Inr nt" "nat_sim {} nm nt"
    using nat_table_init_p_sim [of "nu_iface_list inst"] i(2) by (cases "nat_table_init (nu_iface_list inst)") auto
  let ?s = "\<lparr>ns_inst = inst, ns_nat = nt, ns_buf = take ETH_FRAME_LEN (g @ replicate ETH_FRAME_LEN 0), ns_out = []\<rparr>"
  have s: "nat_init_ustack os addrs g = Inr ?s" using i(1) nt(1) by (simp add: nat_init_ustack_def)
  note init = nat_init_ustack_ok [OF s]
  obtain e where e: "external_iface nt = Some e" "e \<in> set (nu_iface_list inst)" using init(4) by auto
  have "assigned_ports nt = (\<lambda>_. 0)" "hd (nat_mapping_list nt) = []"
    using nt(1) by (auto simp: nat_table_init_def Let_def bind_r_eq_Inr empty_lists split: if_splits)
  then have rel: "rt_rel [] nt" using nat_table_init_ok(1) [OF nt(1)]
    by (simp add: rt_rel_def pool_used_def)
  have "nat_ip nt = htonl (n_ip e)" using e init(3) by (simp add: nat_ip_def)
  moreover have "nat_past t (ns_nat ?s)" unfolding nat_past_def init(2) by simp
  ultimately have "router_ok (htonl (n_ip e)) t [] ?s" using init(1) rel by (simp add: router_ok_def)
  moreover have "router_sim {} sm ?s" using nt(2) i(3) by (simp add: router_sim_def)
  ultimately show thesis using that [OF s, of e] nat_table_init_ok(3) [OF nt(1)] e(1) by simp
qed

section \<open>Properties\<close>

text \<open>C2. The whole router, on memory, is the flow list: from the state \<open>init_ustack\<close> builds, whatever frames with
  complete headers arrive at its descriptors and whenever the time-out thread makes its passes, as long as the clock does not go back,
  the run ends without touching freed memory, and what is sent, answered, handed to ARP and freed is what the specification
  says. In it, the flow opened as number \<open>k\<close> has port \<open>12345 + k\<close>, or \<open>65535\<close> from number \<open>11111\<close> on, for ever. The memory
  grows with the traffic: besides one mapping for each flow, one more stays allocated for every TCP packet.\<close>

theorem router_program_flows:
  assumes "malloc_fresh malloc" and "nat_init_ustack_p os addrs stack_garbage = Inr sm"
    and "list_all (nat_round_ok (nu_fds (nsm_inst sm))) rounds" and "clock_ok t rounds"
  shows "\<exists>sm' fl e. nat_rounds_p malloc rounds sm = Some (Inr sm')
    \<and> if_name_to_iface (nu_iface_list (nsm_inst sm)) ''n1-eth1'' = Some e
    \<and> rt_run (nu_iface_list (nsm_inst sm)) (htonl (n_ip e)) [] rounds fl (nsm_out sm')
    \<and> card (dom (nm_mappings (nsm_nat sm'))) = length fl + length (filter tcp_round rounds)"
proof -
  obtain s e where s: "nat_init_ustack os addrs stack_garbage = Inr s" "router_sim {} sm s" "router_ok (htonl (n_ip e)) t [] s" "ns_out s = []"
    "if_name_to_iface (nu_iface_list (ns_inst s)) ''n1-eth1'' = Some e"
    using nat_init_ustack_p_ok [OF assms(2)] by blast
  have inst: "nsm_inst sm = ns_inst s" using s(2) by (simp add: router_sim_def)
  obtain G sm' s' fl evs u where run: "nat_rounds_p malloc rounds sm = Some (Inr sm')" "router_sim G sm' s'" "router_ok (htonl (n_ip e)) u fl s'"
    "ns_out s' = ns_out s @ evs" "card G = card ({} :: addr set) + length (filter tcp_round rounds)"
    "rt_run (nu_iface_list (ns_inst s)) (htonl (n_ip e)) [] rounds fl evs"
    using router_rounds [OF assms(1) s(2,3) assms(3) [unfolded inst] assms(4)] by blast
  let ?nm = "nsm_nat sm'" and ?nt = "ns_nat s'"
  have mem: "in_memory (nm_heap ?nm) (nm_mappings ?nm) G (nat_mapping_list ?nt)" "nsm_out sm' = ns_out s'"
    using run(2) by (simp_all add: router_sim_def nat_sim_def)
  have inv: "nat_inv ?nt" and m: "map flow_of (hd (nat_mapping_list ?nt)) = map (flow_entry fl) [0..<length fl]"
    using run(3) by (simp_all add: router_ok_def rt_rel_def)
  have "concat (nat_mapping_list ?nt) = hd (nat_mapping_list ?nt)" using inv unfolding nat_inv_def by (metis find_concat_empty)
  then have "length (concat (nat_mapping_list ?nt)) = length fl" using arg_cong [OF m, of length] by simp
  then show ?thesis using in_memory_card(2) [OF mem(1)] run(1,4-6) s(4,5) inst mem(2) by auto
qed

inductive_cases rt_run_nilE: "rt_run ifs ext fl [] fl' out"
inductive_cases rt_run_rxE: "rt_run ifs ext fl (NatRx fd (Received data False now) # rs) fl' out"
inductive_cases rt_run_timeE: "rt_run ifs ext fl (TimeOut now # rs) fl' out"
inductive_cases rt_frameE: "rt_frame ext i p len fl fl' evs"

definition demo_nat_rounds :: "nat_round list" where
  "demo_nat_rounds = [NatRx 3 (Received demo_syn False 5), TimeOut 10, NatRx 3 (Received demo_syn False 11)]"

lemma demo_syn_frame: "is_ip demo_syn" "demo_syn ! 23 = IPPROTO_TCP" "demo_syn \<noteq> []" "length demo_syn = 54"
  "ip_daddr demo_syn \<noteq> htonl (n_ip demo_ext)"
  unfolding demo_syn_bytes demo_ext_def by code_simp+

lemma demo_syn_sent:
  assumes "rt_run ifs ext fl (NatRx fd (Received demo_syn False now) # rs) fl2 out" and "ext = htonl (n_ip demo_ext)"
  obtains p out' where "out = IpSend p 54 # out'" "resummed (fst (rt_packet ext demo_syn fl)) p"
    "rt_run ifs ext (snd (rt_packet ext demo_syn fl)) rs fl2 out'"
proof -
  have "\<not> quiet (Received demo_syn False now)" using demo_syn_frame(3) by simp
  then obtain i fl1 evs out' where run: "out = evs @ out'" "rt_frame ext i demo_syn 54 fl fl1 evs" "rt_run ifs ext fl1 rs fl2 out'"
    using assms(1) demo_frames_ok(2) demo_syn_frame(4) by (elim rt_run_rxE) (auto simp: ETH_FRAME_LEN_def)
  from run(2) obtain p' where "evs = [IpSend p' 54]" "fl1 = snd (rt_packet ext demo_syn fl)" "resummed (fst (rt_packet ext demo_syn fl)) p'"
    using demo_syn_frame(1,2) by (elim rt_frameE) (auto simp: own_ping_def IPPROTO_TCP_def IPPROTO_ICMP_def)
  then show thesis using that [of p' out'] run by simp
qed

text \<open>The first packet goes out as it came, the second with the first port of the pool.\<close>

lemma demo_nat_rounds_run:
  assumes "rt_run ifs (htonl (n_ip demo_ext)) [] demo_nat_rounds fl out"
  shows "length fl = 1 \<and> (\<exists>p1 p2. out = [IpSend p1 54, IpSend p2 54] \<and> resummed demo_syn p1
    \<and> resummed (rewrite_src demo_syn (htonl (n_ip demo_ext)) (htons 12345)) p2)"
proof -
  let ?ext = "htonl (n_ip demo_ext)"
  have first: "rt_packet ?ext demo_syn [] = (demo_syn, [flow_src demo_syn])"
    using demo_syn_frame(5) by (simp add: rt_packet_def by_flow_def)
  have second: "rt_packet ?ext demo_syn [flow_src demo_syn] = (rewrite_src demo_syn ?ext (htons 12345), [flow_src demo_syn])"
    using demo_syn_frame(5) by (simp add: rt_packet_def by_flow_def flow_port_def NAT_PORT_MIN_def)
  obtain p1 out1 where 1: "out = IpSend p1 54 # out1" "resummed demo_syn p1"
    "rt_run ifs ?ext [flow_src demo_syn] [TimeOut 10, NatRx 3 (Received demo_syn False 11)] fl out1"
    using demo_syn_sent [OF assms [unfolded demo_nat_rounds_def] refl] first by auto
  have "rt_run ifs ?ext [flow_src demo_syn] [NatRx 3 (Received demo_syn False 11)] fl out1"
    using 1(3) by (rule rt_run_timeE)
  then obtain p2 out2 where 2: "out1 = IpSend p2 54 # out2" "resummed (rewrite_src demo_syn ?ext (htons 12345)) p2"
    "rt_run ifs ?ext [flow_src demo_syn] [] fl out2"
    using demo_syn_sent [OF _ refl] second by (metis fst_conv snd_conv)
  from 2(3) have "fl = [flow_src demo_syn] \<and> out2 = []" by (rule rt_run_nilE) simp
  with 1 2 show ?thesis by auto
qed

lemma demo_nat_init_p: "\<exists>sm. nat_init_ustack_p demo_nat_os demo_nat_addrs [] = Inr sm \<and> nsm_inst sm = ns_inst demo_sys"
proof -
  obtain inst where i: "nat_init_all_ifaces demo_nat_os demo_nat_addrs \<lparr>nu_iface_list = [], nu_nifs = 0, nu_fds = []\<rparr> = Inr inst"
    "\<exists>nt. nat_table_init (nu_iface_list inst) = Inr nt"
    "inst = ns_inst demo_sys"
    using demo_nat_init by (fastforce simp: nat_init_ustack_def bind_r_eq_Inr dest: arg_cong [where f = ns_inst])
  obtain nm where "nat_table_init_p (nu_iface_list inst) = Inr nm"
    using nat_table_init_p_sim [of "nu_iface_list inst"] i(2) by auto
  then show ?thesis using i(1,3) by (simp add: nat_init_ustack_p_def)
qed

theorem router_program_flows_witness:
  "\<exists>sm sm' p1 p2. nat_init_ustack_p demo_nat_os demo_nat_addrs [] = Inr sm
    \<and> nat_rounds_p bump_malloc demo_nat_rounds sm = Some (Inr sm') \<and> nsm_out sm' = [IpSend p1 54, IpSend p2 54]
    \<and> resummed (rewrite_src demo_syn (htonl (n_ip demo_ext)) (htons 12345)) p2 \<and> card (dom (nm_mappings (nsm_nat sm'))) = 3"
proof -
  obtain sm where sm: "nat_init_ustack_p demo_nat_os demo_nat_addrs [] = Inr sm" "nsm_inst sm = ns_inst demo_sys"
    using demo_nat_init_p by blast
  have "list_all (nat_round_ok (nu_fds (nsm_inst sm))) demo_nat_rounds" "clock_ok 0 demo_nat_rounds"
    using demo_frames_ok by (simp_all add: sm(2) demo_sys_def demo_nat_rounds_def recv_ok_def)
  from router_program_flows [OF bump_malloc_fresh sm(1) this] obtain sm' fl e where
    run: "nat_rounds_p bump_malloc demo_nat_rounds sm = Some (Inr sm')"
      "if_name_to_iface (nu_iface_list (nsm_inst sm)) ''n1-eth1'' = Some e"
      "rt_run (nu_iface_list (nsm_inst sm)) (htonl (n_ip e)) [] demo_nat_rounds fl (nsm_out sm')"
      "card (dom (nm_mappings (nsm_nat sm'))) = length fl + length (filter tcp_round demo_nat_rounds)" by blast
  have e: "e = demo_ext" using run(2) by (simp add: sm(2) demo_sys_def demo_int_def demo_ext_def)
  have "length (filter tcp_round demo_nat_rounds) = 2"
    using demo_syn_frame demo_frames_ok(2) by (simp add: demo_nat_rounds_def)
  then show ?thesis using run(1,4) sm(1) demo_nat_rounds_run [OF run(3) [unfolded e]] by auto
qed

end
