(* ===== verification/OutOfMemory.thy ===== *)
theory OutOfMemory
  imports NatMain
begin

text \<open>
  The one call of \<open>malloc\<close> whose result the programs test: \<open>ustack_run\<close> of the router copies each received frame into fresh
  memory, and when there is none logs an error and goes on with the next interface. Here the receive loop of theory \<open>NatMain\<close>
  gets the answer of \<open>malloc\<close> for each frame as a further input. A frame for which it fails changes nothing but the receive
  buffer, and the buffer does not matter to later frames.
\<close>

section \<open>The receive loop\<close>

text \<open>An answer of \<open>recvfrom\<close>, and whether \<open>malloc (len)\<close> succeeds if it is called for it.\<close>

definition nat_rx_step_m :: "int \<times> recv \<times> bool \<Rightarrow> nat_sys \<Rightarrow> nat_sys result" where
  "nat_rx_step_m fr s = (case fr of (fd, r, mem) \<Rightarrow> (case r of
       NoInput \<Rightarrow> Inr s
     | RecvFailed \<Rightarrow> Inr s
     | Received data outgoing now \<Rightarrow>
         let len = recv_len data;
             s = s\<lparr>ns_buf := recv_into (ns_buf s) data\<rparr>
         in if len = 0 then Inr s
            else if outgoing then Inr s
            else let iface = nat_fd_to_iface (nu_iface_list (ns_inst s)) fd
                 in if \<not> mem then Inr s
                    else let packet = take len (ns_buf s)
                         in bind_r (nat_handle_packet now iface packet len (ns_nat s) (ns_out s)) (\<lambda>(nt, out).
                              Inr (s\<lparr>ns_nat := nt, ns_out := out\<rparr>))))"

datatype poll_m = PollFailed_m | PollNothing_m | PollReady_m "(recv \<times> bool) list"

fun nat_ustack_run_m :: "poll_m list \<Rightarrow> nat_sys \<Rightarrow> nat_sys result" where
  "nat_ustack_run_m [] s = Inr s"
| "nat_ustack_run_m (PollFailed_m # ps) s = Inr s"
| "nat_ustack_run_m (PollNothing_m # ps) s = nat_ustack_run_m ps s"
| "nat_ustack_run_m (PollReady_m rs # ps) s =
     bind_r (fold_r nat_rx_step_m (zip (nu_fds (ns_inst s)) rs) s) (nat_ustack_run_m ps)"

section \<open>The frames that find memory\<close>

fun served :: "recv \<times> bool \<Rightarrow> recv" where
  "served (r, mem) = (if mem then r else NoInput)"

fun served_poll :: "poll_m \<Rightarrow> poll" where
  "served_poll PollFailed_m = PollFailed"
| "served_poll PollNothing_m = PollNothing"
| "served_poll (PollReady_m rs) = PollReady (map served rs)"

definition forget_buf :: "nat_sys result \<Rightarrow> nat_sys result" where
  "forget_buf x = bind_r x (\<lambda>s. Inr (s\<lparr>ns_buf := []\<rparr>))"

lemma forget_buf_simps: "forget_buf (Inl e) = Inl e" "forget_buf (Inr s) = Inr (s\<lparr>ns_buf := []\<rparr>)"
  by (simp_all add: forget_buf_def)

text \<open>What is handled does not depend on what the buffer held before.\<close>

lemma take_recv_into: "take (recv_len data) (recv_into buf data) = take (recv_len data) data"
  by (simp add: recv_into_def recv_len_def)

lemma forget_step:
  assumes "forget_buf (Inr s) = forget_buf (Inr t)"
  shows "forget_buf (nat_rx_step_m (fd, r, mem) s) = forget_buf (nat_rx_step (fd, served (r, mem)) t)"
proof -
  obtain b where s: "s = t\<lparr>ns_buf := b\<rparr>"
    using assms by (cases s; cases t) (auto simp: forget_buf_simps)
  show ?thesis
  proof (cases r)
    case (Received data outgoing now)
    then show ?thesis
      by (auto simp: s nat_rx_step_m_def nat_rx_step_def Let_def take_recv_into forget_buf_def bind_r_def split: sum.splits)
  qed (simp_all add: s nat_rx_step_m_def nat_rx_step_def forget_buf_simps)
qed

lemma forget_bind:
  assumes "forget_buf x = forget_buf y" and "\<And>s t. x = Inr s \<Longrightarrow> forget_buf (Inr s) = forget_buf (Inr t) \<Longrightarrow> forget_buf (f s) = forget_buf (g t)"
  shows "forget_buf (bind_r x f) = forget_buf (bind_r y g)"
  using assms by (cases x; cases y) (auto simp: forget_buf_simps)

lemma forget_steps:
  "forget_buf (Inr s) = forget_buf (Inr t) \<Longrightarrow>
   forget_buf (fold_r nat_rx_step_m (zip fds rs) s) = forget_buf (fold_r nat_rx_step (zip fds (map served rs)) t)"
proof (induction fds arbitrary: rs s t)
  case (Cons fd fds)
  show ?case
  proof (cases rs)
    case (Cons r rs')
    obtain v mem where r: "r = (v, mem)" by (cases r)
    show ?thesis
      unfolding Cons r list.map zip_Cons_Cons fold_r.simps
      by (rule forget_bind [OF forget_step [OF Cons.prems]]) (rule Cons.IH)
  qed (use Cons.prems in simp)
qed simp

text \<open>C37. When memory runs out the router drops frames and nothing else: for every sequence of poll results and of answers of
  \<open>malloc\<close>, the table and the packets sent are those of a run in which the frames that found no memory never arrived.\<close>

theorem out_of_memory_drops_frames:
  "forget_buf (nat_ustack_run_m ps s) = forget_buf (nat_ustack_run (map served_poll ps) s)"
proof -
  have "forget_buf (Inr s) = forget_buf (Inr t) \<Longrightarrow> forget_buf (nat_ustack_run_m ps s) = forget_buf (nat_ustack_run (map served_poll ps) t)" for t
  proof (induction ps s arbitrary: t rule: nat_ustack_run_m.induct)
    case (4 rs ps s)
    have "nu_fds (ns_inst s) = nu_fds (ns_inst t)" using "4.prems" by (cases s; cases t) (simp add: forget_buf_simps)
    then show ?case
      using "4.IH" by (auto intro!: forget_bind forget_steps "4.prems")
  qed simp_all
  then show ?thesis by simp
qed

end
