(* ===== verification/NatHashHeap.thy ===== *)
theory NatHashHeap
  imports NatHeap NatHash
begin

text \<open>
  \<^verbatim>\<open>nat_stack/nat_new_2.c\<close> on memory: the functions of theory \<open>NatHash\<close> with the lists of
  \<^verbatim>\<open>list.h\<close>, \<open>malloc\<close>, \<open>free\<close> and pointers to mappings (suffix \<open>_hp\<close>), on the memory \<open>nat_mem\<close> of theory
  \<open>NatHeap\<close>. In \<open>NatHash\<close> a pointer to a mapping is its place in the table; here it is an address, through which the code reads and writes. The
  lemmas show that the two agree as long as a pointer is held, and that no mapping is lost.
\<close>

section \<open>The functions\<close>

definition nat_lookup_external_hp :: "nat_mem \<Rightarrow> u16 \<Rightarrow> addr option result option" where
  "nat_lookup_external_hp nm port =
     bind_p (Some (deref (nm_external nm))) (\<lambda>ext.
     bind_p (Some (nat_hash (n_ip ext) port)) (\<lambda>v.
     let val = v mod HASH_8BITS in
     after_loop (\<lambda>s. None) (\<lambda>a s. Some a)
       (list_for_each_entry_safe (find_entry (\<lambda>m. external_port m = port)) (bucket_head val) (nm_heap nm, nm_mappings nm))))"

definition nat_lookup_internal_hp :: "nat_mem \<Rightarrow> u32 \<Rightarrow> u16 \<Rightarrow> addr option result option" where
  "nat_lookup_internal_hp nm ip port =
     bind_p (Some (nat_hash ip port)) (\<lambda>v.
     let val = v mod HASH_8BITS in
     after_loop (\<lambda>s. None) (\<lambda>a s. Some a)
       (list_for_each_entry_safe (find_entry (\<lambda>m. internal_ip m = ip \<and> internal_port m = port)) (bucket_head val)
          (nm_heap nm, nm_mappings nm)))"

definition nat_insert_mapping_hp ::
  "(heap \<Rightarrow> addr) \<Rightarrow> time_t \<Rightarrow> u32 \<Rightarrow> u16 \<Rightarrow> nat_mem \<Rightarrow> (addr \<times> nat_mem) result" where
  "nat_insert_mapping_hp malloc now ip port nm =
     (case alloc_mapping malloc nm of (mapping_entry, nm) \<Rightarrow>
     bind_r (init_list_head (nm_heap nm) mapping_entry) (\<lambda>h.
     bind_r (deref (nm_external nm)) (\<lambda>ext.
     case assign_external_port_h (nm_ports nm) of (p, ports) \<Rightarrow>
     let m = mapping_zero\<lparr>internal_ip := ip, internal_port := port, external_ip := n_ip ext, external_port := htons p\<rparr>;
         d = (nm_mappings nm)(mapping_entry \<mapsto> m) in
     bind_r (nat_hash ip port) (\<lambda>new_val.
     bind_r (list_add_tail h mapping_entry (bucket_head (new_val mod HASH_8BITS))) (\<lambda>h.
     case alloc_mapping malloc (nm\<lparr>nm_heap := h, nm_mappings := d, nm_ports := ports\<rparr>) of (new_nat_mapping, nm) \<Rightarrow>
     bind_r (init_list_head (nm_heap nm) new_nat_mapping) (\<lambda>h.
     bind_r (ld_entry (nm_mappings nm) mapping_entry) (\<lambda>m.
     let copy = mapping_zero\<lparr>internal_ip := internal_ip m, external_ip := external_ip m,
                  internal_port := internal_port m, external_port := external_port m\<rparr>;
         d = (nm_mappings nm)(new_nat_mapping \<mapsto> copy) in
     bind_r (nat_hash (external_ip copy) (external_port copy)) (\<lambda>val.
     bind_r (list_add_tail h new_nat_mapping (bucket_head (val mod HASH_8BITS))) (\<lambda>h.
     bind_r (ld_entry d mapping_entry) (\<lambda>m.
       Inr (mapping_entry, nm\<lparr>nm_heap := h, nm_mappings := d(mapping_entry \<mapsto> m\<lparr>update_time := now\<rparr>)\<rparr>)))))))))))"

definition get_packet_direction_hp :: "nat_mem \<Rightarrow> bytes \<Rightarrow> packet_dir result" where
  "get_packet_direction_hp nm packet =
     bind_r (rd32 packet (packet_to_ip_hdr + 16)) (\<lambda>d.
     bind_r (deref (nm_external nm)) (\<lambda>ext.
     Inr (if ntohl d = n_ip ext then DIR_IN else DIR_OUT)))"

definition nat_get_mapping_from_packet_hp ::
  "(heap \<Rightarrow> addr) \<Rightarrow> time_t \<Rightarrow> bytes \<Rightarrow> packet_dir \<Rightarrow> nat_mem \<Rightarrow> (addr option \<times> nat_mem) result option" where
  "nat_get_mapping_from_packet_hp malloc now packet dir nm =
     bind_p (Some (packet_to_tcp_hdr packet)) (\<lambda>tcp_hdr.
     bind_p (Some (rd16 packet (tcp_hdr + 2))) (\<lambda>des_port.
     bind_p (Some (rd16 packet tcp_hdr)) (\<lambda>src_port.
     bind_p (Some (rd32 packet (packet_to_ip_hdr + 12))) (\<lambda>ip.
     if dir = DIR_IN then
       bind_p (nat_lookup_external_hp nm des_port) (\<lambda>p. Some (Inr (p, nm)))
     else
       bind_p (nat_lookup_internal_hp nm ip src_port) (\<lambda>p.
         case p of
           Some a \<Rightarrow> Some (Inr (Some a, nm))
         | None \<Rightarrow> bind_p (Some (nat_insert_mapping_hp malloc now ip src_port nm)) (\<lambda>(a, nm). Some (Inr (Some a, nm))))))))"

definition do_translation_hp ::
  "(heap \<Rightarrow> addr) \<Rightarrow> time_t \<Rightarrow> bytes \<Rightarrow> nat \<Rightarrow> packet_dir \<Rightarrow> nat_mem \<Rightarrow> nat_event list \<Rightarrow> (nat_mem \<times> nat_event list) result option" where
  "do_translation_hp malloc now packet len dir nm out =
     bind_p (Some (packet_to_tcp_hdr packet)) (\<lambda>tcp_hdr.
     bind_p (Some (deref (nm_external nm))) (\<lambda>ext.
     let NAT_ip = inet_addr (n_ip_str ext) in
     bind_p (Some (rd32 packet (packet_to_ip_hdr + 12))) (\<lambda>srcip.
     bind_p (Some (rd16 packet tcp_hdr)) (\<lambda>srcport.
     bind_p (nat_get_mapping_from_packet_hp malloc now packet dir nm) (\<lambda>(mapping_entry, nm).
     Some (bind_r
       (if dir = DIR_IN \<and> mapping_entry \<noteq> None then
          bind_r (deref mapping_entry) (\<lambda>a.
          bind_r (ld_entry (nm_mappings nm) a) (\<lambda>m.
          bind_r (wr32 packet (packet_to_ip_hdr + 16) (internal_ip m)) (\<lambda>packet.
          wr16 packet (tcp_hdr + 2) (internal_port m))))
        else
          bind_r (wr32 packet (packet_to_ip_hdr + 12) NAT_ip) (\<lambda>packet.
          bind_r (deref mapping_entry) (\<lambda>a.
          bind_r (ld_entry (nm_mappings nm) a) (\<lambda>m.
          wr16 packet tcp_hdr (external_port m)))))
       (\<lambda>packet.
     bind_r (update_checksums packet packet_to_ip_hdr tcp_hdr) (\<lambda>packet.
     bind_r (deref mapping_entry) (\<lambda>a.
     bind_r (ld_entry (nm_mappings nm) a) (\<lambda>m.
       Inr (nm\<lparr>nm_mappings := (nm_mappings nm)(a \<mapsto> m\<lparr>update_time := now\<rparr>)\<rparr>, out @ [IpSend packet len])))))))))))"

definition nat_translate_packet_hp ::
  "(heap \<Rightarrow> addr) \<Rightarrow> time_t \<Rightarrow> bytes \<Rightarrow> nat \<Rightarrow> nat_mem \<Rightarrow> nat_event list \<Rightarrow> (nat_mem \<times> nat_event list) result option" where
  "nat_translate_packet_hp malloc now packet len nm out =
     bind_p (Some (get_packet_direction_hp nm packet)) (\<lambda>dir.
     if dir = DIR_INVALID then
       Some (Inr (nm, out @ [IcmpSend packet len ICMP_DEST_UNREACH ICMP_HOST_UNREACH, FreePacket packet]))
     else bind_p (Some (rd8 packet (packet_to_ip_hdr + 9))) (\<lambda>proto.
       if proto \<noteq> IPPROTO_TCP then Some (Inr (nm, out @ [FreePacket packet]))
       else do_translation_hp malloc now packet len dir nm out))"

definition nat_timeout_body_h ::
  "time_t \<Rightarrow> addr \<Rightarrow> heap \<times> nat_mapping store \<times> port_pool_t \<Rightarrow> (heap \<times> nat_mapping store \<times> port_pool_t, unit) flow result" where
  "nat_timeout_body_h now mapping_entry s = (case s of (h, d, ports) \<Rightarrow>
     bind_r (ld_entry d mapping_entry) (\<lambda>m.
     if is_flow_finished_h (conn m) \<noteq> 0 \<or> 60 \<le> update_time m - now then
       let ports = free_port (external_port m) ports in
       bind_r (list_delete_entry h mapping_entry) (\<lambda>h.
       bind_r (free_entry h d mapping_entry) (\<lambda>(h, d).
         Inr (Continue (h, d, ports))))
     else Inr (Continue s)))"

definition nat_timeout_hp :: "time_t \<Rightarrow> nat_mem \<Rightarrow> nat_mem result option" where
  "nat_timeout_hp now nm =
     after_loop (\<lambda>(h, d, ports). nm\<lparr>nm_heap := h, nm_mappings := d, nm_ports := ports\<rparr>)
       (\<lambda>x (h, d, ports). nm\<lparr>nm_heap := h, nm_mappings := d, nm_ports := ports\<rparr>)
       (for_buckets (\<lambda>i. list_for_each_entry_safe (nat_timeout_body_h now) (bucket_head i)) [0..<HASH_8BITS]
          (nm_heap nm, nm_mappings nm, nm_ports nm))"

definition nat_table_destroy_hp :: "nat_mem \<Rightarrow> nat_mem result option" where
  "nat_table_destroy_hp nm =
     after_loop (\<lambda>(h, d, u). nm\<lparr>nm_heap := h, nm_mappings := d\<rparr>) (\<lambda>x (h, d, u). nm\<lparr>nm_heap := h, nm_mappings := d\<rparr>)
       (for_buckets (\<lambda>i. list_for_each_entry_safe nat_destroy_body (bucket_head i)) [0..<HASH_8BITS]
          (nm_heap nm, nm_mappings nm, ()))"

text \<open>The list of interfaces is in memory as well; what is found is the interface the pointer leads to.\<close>

definition if_name_body ::
  "string \<Rightarrow> addr \<Rightarrow> heap \<times> nat_iface store \<times> unit \<Rightarrow> (heap \<times> nat_iface store \<times> unit, nat_iface) flow result" where
  "if_name_body if_name pos s = (case s of (h, d, u) \<Rightarrow>
     bind_r (ld_entry d pos) (\<lambda>iface. Inr (if n_name iface = if_name then Return iface s else Continue s)))"

definition if_name_to_iface_p :: "heap \<times> nat_iface store \<Rightarrow> addr \<Rightarrow> string \<Rightarrow> nat_iface option result option" where
  "if_name_to_iface_p ifm iface_list if_name =
     after_loop (\<lambda>s. None) (\<lambda>iface s. Some iface)
       (list_for_each_entry (if_name_body if_name) iface_list (fst ifm, snd ifm, ()))"

definition nat_table_init_hp :: "heap \<times> nat_iface store \<Rightarrow> addr \<Rightarrow> nat_mem result option" where
  "nat_table_init_hp ifm iface_list =
     bind_p (Some (fold_r (\<lambda>i h. init_list_head h (bucket_head i)) [0..<HASH_8BITS] (zeroed_heads HASH_8BITS))) (\<lambda>h.
     bind_p (if_name_to_iface_p ifm iface_list ''n1-eth0'') (\<lambda>int.
     bind_p (if_name_to_iface_p ifm iface_list ''n1-eth1'') (\<lambda>ext.
       if int = None \<or> ext = None then Some (Inl (Exit 1))
       else Some (Inr \<lparr>nm_heap = h, nm_mappings = Map.empty, nm_internal = int, nm_external = ext, nm_ports = (\<lambda>_. 0)\<rparr>))))"

section \<open>Each function computes its list version\<close>

text \<open>As \<open>nat_sim\<close>, with the addresses \<open>ass\<close> of the mappings: a place in the table is one of them.\<close>

definition nat_sim_at :: "addr set \<Rightarrow> addr list list \<Rightarrow> nat_mem \<Rightarrow> nat_table \<Rightarrow> bool" where
  "nat_sim_at G ass nm nt \<longleftrightarrow> finite G \<and> table_at (nm_heap nm) (nm_mappings nm) G ass (nat_mapping_list nt)
     \<and> length (nat_mapping_list nt) = HASH_8BITS \<and> nm_internal nm = internal_iface nt
     \<and> nm_external nm = external_iface nt \<and> nm_ports nm = assigned_ports nt"

lemma nat_sim_iff: "nat_sim G nm nt \<longleftrightarrow> (\<exists>ass. nat_sim_at G ass nm nt)"
  by (auto simp: nat_sim_def nat_sim_at_def in_memory_def)

definition ref_addr :: "addr list list \<Rightarrow> mapping_ref \<Rightarrow> addr" where
  "ref_addr ass r = ass ! fst r ! snd r"

lemma find_entry_pos:
  assumes "dlist h l (ks @ xs)" and "entries_at d xs es" and "xs = [] \<or> q = hd (tl xs @ [l])"
  shows "for_each_entry_safe (find_entry P) (hd (xs @ [l])) q l (h, d)
      = Some (Inr (case find_pos P (length ks) es of None \<Rightarrow> Continue (h, d) | Some j \<Rightarrow> Return ((ks @ xs) ! j) (h, d)))"
  using assms
proof (induction xs arbitrary: ks q es)
  case Nil
  then show ?case by (simp add: for_each_entry_safe.simps)
next
  case (Cons x xs)
  from Cons.prems obtain e es1 where es: "es = e # es1" "d x = Some e" "entries_at d xs es1" by auto
  have q: "q = hd (xs @ [l])" and x: "x \<noteq> l" using Cons.prems by (auto simp: dlist_def)
  obtain q' where q': "ld_next h q = Inr q'" "xs = [] \<or> q' = hd (tl xs @ [l])"
    using ld_next_ahead [of h l "ks @ [x]" xs] Cons.prems(1) q by auto
  have eq: "(ks @ [x]) @ xs = ks @ x # xs" by simp
  show ?case
    using es x q q' Cons.IH [of "ks @ [x]" es1 q', unfolded eq] Cons.prems(1)
    by (simp add: for_each_entry_safe.simps [of _ x] find_entry_def ld_entry_def)
qed

lemma list_find_pos:
  assumes "table_at h d G ass t" and "i < length t"
  shows "after_loop (\<lambda>s. None) (\<lambda>a s. Some a) (list_for_each_entry_safe (find_entry P) (bucket_head i) (h, d))
      = Some (Inr (map_option (\<lambda>j. ass ! i ! j) (find_pos P 0 (t ! i))))"
proof -
  note l = table_at_lists [OF assms]
  obtain q where "list_for_each_entry_safe (find_entry P) (bucket_head i) (h, d)
      = for_each_entry_safe (find_entry P) (hd (ass ! i @ [bucket_head i])) q (bucket_head i) (h, d)"
    "ass ! i = [] \<or> q = hd (tl (ass ! i) @ [bucket_head i])"
    using list_for_each_entry_safe_start [OF l(1), of "find_entry P" d] by auto
  then show ?thesis using find_entry_pos [of h "bucket_head i" "[]" "ass ! i" d "t ! i" q P] l
    by (simp add: after_loop_def split: option.split)
qed

lemma find_pos_valid: "find_pos P 0 l = Some j \<Longrightarrow> j < length l"
  using find_pos_find [of P l 0] by auto

lemma lookup_hp_sim:
  assumes sim: "nat_sim_at G ass nm nt"
  shows "case nat_lookup_external_h nt q of
      Inl e \<Rightarrow> nat_lookup_external_hp nm q = Some (Inl e)
    | Inr r \<Rightarrow> nat_lookup_external_hp nm q = Some (Inr (map_option (ref_addr ass) r)) \<and> (\<forall>x. r = Some x \<longrightarrow> valid_ref nt x)"
    "case nat_lookup_internal_h nt ip q of
      Inl e \<Rightarrow> nat_lookup_internal_hp nm ip q = Some (Inl e)
    | Inr r \<Rightarrow> nat_lookup_internal_hp nm ip q = Some (Inr (map_option (ref_addr ass) r)) \<and> (\<forall>x. r = Some x \<longrightarrow> valid_ref nt x)"
proof -
  have tab: "table_at (nm_heap nm) (nm_mappings nm) G ass (nat_mapping_list nt)"
    and len: "length (nat_mapping_list nt) = HASH_8BITS" and ext: "nm_external nm = external_iface nt"
    using sim by (simp_all add: nat_sim_at_def)
  have i: "hash_idx a b < length (nat_mapping_list nt)" for a b using len nat_hash_idx(2) by simp
  have idx: "hash_idx a b mod HASH_8BITS = hash_idx a b" for a b using nat_hash_idx(2) by simp
  show "case nat_lookup_external_h nt q of
      Inl e \<Rightarrow> nat_lookup_external_hp nm q = Some (Inl e)
    | Inr r \<Rightarrow> nat_lookup_external_hp nm q = Some (Inr (map_option (ref_addr ass) r)) \<and> (\<forall>x. r = Some x \<longrightarrow> valid_ref nt x)"
    using list_find_pos [OF tab i] i
    by (cases "external_iface nt") (auto simp: nat_lookup_external_h_def nat_lookup_external_hp_def ext nat_hash_idx(1) idx Let_def
        option.map_comp comp_def ref_addr_def valid_ref_def dest: find_pos_valid)
  show "case nat_lookup_internal_h nt ip q of
      Inl e \<Rightarrow> nat_lookup_internal_hp nm ip q = Some (Inl e)
    | Inr r \<Rightarrow> nat_lookup_internal_hp nm ip q = Some (Inr (map_option (ref_addr ass) r)) \<and> (\<forall>x. r = Some x \<longrightarrow> valid_ref nt x)"
    using list_find_pos [OF tab i] i
    by (auto simp: nat_lookup_internal_h_def nat_lookup_internal_hp_def nat_hash_idx(1) idx Let_def
        option.map_comp comp_def ref_addr_def valid_ref_def dest: find_pos_valid)
qed

text \<open>A write through a pointer.\<close>

lemma nat_sim_write:
  assumes sim: "nat_sim_at G ass nm nt" and r: "valid_ref nt r"
  shows "nm_mappings nm (ref_addr ass r) = Some (at_ref r (nat_mapping_list nt))"
    "nat_sim_at G ass (nm\<lparr>nm_mappings := (nm_mappings nm)(ref_addr ass r \<mapsto> f (at_ref r (nat_mapping_list nt)))\<rparr>)
       (nt\<lparr>nat_mapping_list := upd_ref r f (nat_mapping_list nt)\<rparr>)"
proof -
  obtain i j where ij: "r = (i, j)" by (cases r)
  have tab: "table_at (nm_heap nm) (nm_mappings nm) G ass (nat_mapping_list nt)"
    and v: "i < length (nat_mapping_list nt)" "j < length (nat_mapping_list nt ! i)"
    using sim r by (simp_all add: nat_sim_at_def valid_ref_def ij)
  show "nm_mappings nm (ref_addr ass r) = Some (at_ref r (nat_mapping_list nt))"
    using table_at_entry [OF tab v] by (simp add: ref_addr_def at_ref_def ij)
  show "nat_sim_at G ass (nm\<lparr>nm_mappings := (nm_mappings nm)(ref_addr ass r \<mapsto> f (at_ref r (nat_mapping_list nt)))\<rparr>)
       (nt\<lparr>nat_mapping_list := upd_ref r f (nat_mapping_list nt)\<rparr>)"
    using table_at_write [OF tab v] sim by (simp add: nat_sim_at_def ij ref_addr_def at_ref_def upd_ref_def)
qed

text \<open>Allocation, with the initialisation of its list node, and linking.\<close>

lemma alloc_init_sim:
  assumes mal: "malloc_fresh malloc" and fin: "finite G" and tab: "table_at (nm_heap nm) (nm_mappings nm) G ass t"
  obtains a nm1 h where "alloc_mapping malloc nm = (a, nm1)" "nm_internal nm1 = nm_internal nm \<and> nm_external nm1 = nm_external nm \<and> nm_ports nm1 = nm_ports nm"
    "init_list_head (nm_heap nm1) a = Inr h" "nm_mappings nm1 = (nm_mappings nm)(a \<mapsto> mapping_zero)"
    "a \<notin> dom (nm_mappings nm)" "\<And>e. table_at h ((nm_mappings nm1)(a \<mapsto> e)) (insert a G) ass t"
proof -
  let ?a = "malloc (nm_heap nm)"
  have fresh: "?a \<notin> dom (nm_heap nm)" "?a \<noteq> 0"
    using in_memory_fresh [OF mal, of "nm_heap nm" "nm_mappings nm" G t] fin tab by (auto simp: in_memory_def)
  then have tab1: "table_at (malloc_node (nm_heap nm) ?a) ((nm_mappings nm)(?a \<mapsto> mapping_zero)) (insert ?a G) ass t"
    unfolding malloc_node_def by (rule table_at_leak [OF tab])
  obtain h where h: "init_list_head (malloc_node (nm_heap nm) ?a) ?a = Inr h"
    "table_at h ((nm_mappings nm)(?a \<mapsto> mapping_zero)) (insert ?a G) ass t"
    using init_list_head_lost [OF tab1] by blast
  have "table_at h ((nm_mappings nm)(?a \<mapsto> e)) (insert ?a G) ass t" for e
    using table_at_lost(3) [OF h(2) insertI1, of e] by simp
  moreover have "?a \<notin> dom (nm_mappings nm)" using fresh table_at_dom(3) [OF tab] by blast
  ultimately show thesis
    using h(1) that [of ?a "nm\<lparr>nm_heap := malloc_node (nm_heap nm) ?a, nm_mappings := (nm_mappings nm)(?a \<mapsto> mapping_zero)\<rparr>" h]
    by (simp add: alloc_mapping_def Let_def)
qed

lemma link_sim:
  assumes tab: "table_at h (d(a \<mapsto> e)) (insert a G) ass t" and i: "i < length t" and a: "a \<notin> G"
  obtains h' where "list_add_tail h a (bucket_head i) = Inr h'" "table_at h' (d(a \<mapsto> e)) G (ass[i := ass ! i @ [a]]) (t[i := t ! i @ [e]])"
  using table_at_link [OF tab i, of a e] a that by auto

lemma nat_insert_mapping_hp_sim:
  assumes mal: "malloc_fresh malloc" and sim: "nat_sim_at G ass nm nt"
  shows "case nat_insert_mapping_h now ip port nt of
      Inl e \<Rightarrow> nat_insert_mapping_hp malloc now ip port nm = Inl e
    | Inr (r, nt') \<Rightarrow> \<exists>nm' ass'. nat_insert_mapping_hp malloc now ip port nm = Inr (ref_addr ass' r, nm')
        \<and> nat_sim_at G ass' nm' nt' \<and> valid_ref nt' r"
proof -
  let ?t = "nat_mapping_list nt"
  have fin: "finite G" and tab: "table_at (nm_heap nm) (nm_mappings nm) G ass ?t" and len: "length ?t = HASH_8BITS"
    and fields: "nm_internal nm = internal_iface nt" "nm_external nm = external_iface nt" "nm_ports nm = assigned_ports nt"
    using sim by (simp_all add: nat_sim_at_def)
  have G: "G \<subseteq> dom (nm_mappings nm)" using table_at_lostD [OF tab] by blast
  obtain a nm1 h1 where a: "alloc_mapping malloc nm = (a, nm1)" "nm_internal nm1 = nm_internal nm \<and> nm_external nm1 = nm_external nm \<and> nm_ports nm1 = nm_ports nm"
    "init_list_head (nm_heap nm1) a = Inr h1" "nm_mappings nm1 = (nm_mappings nm)(a \<mapsto> mapping_zero)"
    "a \<notin> dom (nm_mappings nm)" "\<And>e. table_at h1 ((nm_mappings nm1)(a \<mapsto> e)) (insert a G) ass ?t"
    using alloc_init_sim [OF mal fin tab] by metis
  have nm1: "nm_external nm1 = external_iface nt" "nm_ports nm1 = assigned_ports nt" "nm_internal nm1 = internal_iface nt"
    using a(2) fields by simp_all
  show ?thesis
  proof (cases "external_iface nt")
    case None
    then show ?thesis by (simp add: nat_insert_mapping_h_def nat_insert_mapping_hp_def a(1,3) nm1)
  next
    case (Some ext)
    obtain p ports where p: "assign_external_port_h (assigned_ports nt) = (p, ports)" by fastforce
    define m where "m = mapping_zero\<lparr>internal_ip := ip, internal_port := port, external_ip := n_ip ext, external_port := htons p\<rparr>"
    let ?i = "hash_idx ip port" and ?j = "hash_idx (n_ip ext) (htons p)"
    have i: "?i < length ?t" "?i mod HASH_8BITS = ?i" "?j < length ?t" "?j mod HASH_8BITS = ?j"
      using len nat_hash_idx(2) by simp_all
    let ?d = "(nm_mappings nm1)(a \<mapsto> m)" and ?t1 = "?t[?i := ?t ! ?i @ [m]]" and ?ass1 = "ass[?i := ass ! ?i @ [a]]"
    obtain h2 where h2: "list_add_tail h1 a (bucket_head ?i) = Inr h2" "table_at h2 ?d G ?ass1 ?t1"
      using link_sim [OF a(6) i(1)] a(5) G by blast
    define nm2 where "nm2 = nm1\<lparr>nm_heap := h2, nm_mappings := ?d, nm_ports := ports\<rparr>"
    have tab2: "table_at (nm_heap nm2) (nm_mappings nm2) G ?ass1 ?t1" using h2(2) by (simp add: nm2_def)
    obtain b nm3 h3 where b: "alloc_mapping malloc nm2 = (b, nm3)" "nm_internal nm3 = nm_internal nm2 \<and> nm_external nm3 = nm_external nm2 \<and> nm_ports nm3 = nm_ports nm2"
      "init_list_head (nm_heap nm3) b = Inr h3" "nm_mappings nm3 = (nm_mappings nm2)(b \<mapsto> mapping_zero)"
      "b \<notin> dom (nm_mappings nm2)" "\<And>e. table_at h3 ((nm_mappings nm3)(b \<mapsto> e)) (insert b G) ?ass1 ?t1"
      using alloc_init_sim [OF mal fin tab2] by metis
    have ab: "b \<noteq> a" "nm_mappings nm3 a = Some m" "b \<notin> G" using b(4,5) G a(4) by (auto simp: nm2_def)
    let ?d3 = "(nm_mappings nm3)(b \<mapsto> m)" and ?t2 = "?t1[?j := ?t1 ! ?j @ [m]]" and ?ass2 = "?ass1[?j := ?ass1 ! ?j @ [b]]"
    obtain h4 where h4: "list_add_tail h3 b (bucket_head ?j) = Inr h4" "table_at h4 ?d3 G ?ass2 ?t2"
      using link_sim [OF b(6) _ ab(3), of ?j] i(3) by auto
    let ?r = "(?i, length (?t ! ?i))"
    have len': "length ass = length ?t" "length (ass ! ?i) = length (?t ! ?i)"
      using tab table_at_lists(2) [OF tab i(1)] by (auto simp: table_at_def entries_at_def list_all2_lengthD)
    have at: "?ass2 ! ?i ! length (?t ! ?i) = a" "?t2 ! ?i ! length (?t ! ?i) = m" "length (?t ! ?i) < length (?t2 ! ?i)"
      using i(1,3) len' by (auto simp: nth_list_update nth_append)
    define m' where "m' = m\<lparr>update_time := now\<rparr>"
    have w: "table_at h4 (?d3(a \<mapsto> m')) G ?ass2 (?t2[?i := (?t2 ! ?i)[length (?t ! ?i) := m']])"
      using table_at_write [OF h4(2) _ at(3), of m'] i(1) unfolding at(1) by simp
    have m_copy: "mapping_zero\<lparr>internal_ip := internal_ip m, external_ip := external_ip m,
        internal_port := internal_port m, external_port := external_port m\<rparr> = m"
      by (simp add: m_def mapping_zero_def)
    let ?nm' = "nm3\<lparr>nm_heap := h4, nm_mappings := ?d3(a \<mapsto> m')\<rparr>"
    have "nat_insert_mapping_hp malloc now ip port nm = Inr (a, ?nm')"
      using h2(1) h4(1) b(1,3) ab i(2,4)
      by (simp add: nat_insert_mapping_hp_def a(1,3) nm1 Some p nat_hash_idx(1) Let_def m_def [symmetric] nm2_def [symmetric]
          m_copy m'_def ld_entry_def) (simp add: m_def mapping_zero_def nat_hash_idx(1))
    moreover have "nm_internal nm3 = internal_iface nt" "nm_external nm3 = external_iface nt" "nm_ports nm3 = ports"
      using b(2) nm1 by (simp_all add: nm2_def)
    then have "nat_sim_at G ?ass2 ?nm' (nt\<lparr>assigned_ports := ports,
        nat_mapping_list := ?t2[?i := (?t2 ! ?i)[length (?t ! ?i) := m']]\<rparr>)"
      using w fin len by (simp add: nat_sim_at_def)
    moreover have "nat_insert_mapping_h now ip port nt = Inr (?r, nt\<lparr>assigned_ports := ports,
        nat_mapping_list := ?t2[?i := (?t2 ! ?i)[length (?t ! ?i) := m']]\<rparr>)"
      using i(2,4) at(2) by (simp add: nat_insert_mapping_h_def Some p nat_hash_idx(1) Let_def add_tail_def upd_ref_def m'_def)
        (simp add: m_def mapping_zero_def)
    moreover have "ref_addr ?ass2 ?r = a" using at(1) by (simp add: ref_addr_def)
    moreover have "valid_ref (nt\<lparr>assigned_ports := ports,
        nat_mapping_list := ?t2[?i := (?t2 ! ?i)[length (?t ! ?i) := m']]\<rparr>) ?r"
      using at(3) i(1) by (simp add: valid_ref_def)
    ultimately show ?thesis by (simp only: sum.case prod.case) metis
  qed
qed

lemma nat_get_mapping_from_packet_hp_sim:
  assumes mal: "malloc_fresh malloc" and sim: "nat_sim_at G ass nm nt"
  shows "case nat_get_mapping_from_packet_h now packet dir nt of
      Inl e \<Rightarrow> nat_get_mapping_from_packet_hp malloc now packet dir nm = Some (Inl e)
    | Inr (ro, nt') \<Rightarrow> \<exists>nm' ass'. nat_get_mapping_from_packet_hp malloc now packet dir nm = Some (Inr (map_option (ref_addr ass') ro, nm'))
        \<and> nat_sim_at G ass' nm' nt' \<and> (\<forall>r. ro = Some r \<longrightarrow> valid_ref nt' r)"
proof (cases "\<exists>t q s ip. packet_to_tcp_hdr packet = Inr t \<and> rd16 packet (t + 2) = Inr q \<and> rd16 packet t = Inr s
    \<and> rd32 packet (packet_to_ip_hdr + 12) = Inr ip")
  case False
  then show ?thesis
    by (auto simp: nat_get_mapping_from_packet_h_def nat_get_mapping_from_packet_hp_def bind_r_def bind_p_def split: sum.splits)
next
  case True
  then obtain t q s ip where rd: "packet_to_tcp_hdr packet = Inr t" "rd16 packet (t + 2) = Inr q" "rd16 packet t = Inr s"
    "rd32 packet (packet_to_ip_hdr + 12) = Inr ip" by blast
  show ?thesis
  proof (cases "dir = DIR_IN")
    case True
    then have "nat_get_mapping_from_packet_h now packet dir nt = bind_r (nat_lookup_external_h nt q) (\<lambda>r. Inr (r, nt))"
      "nat_get_mapping_from_packet_hp malloc now packet dir nm = bind_p (nat_lookup_external_hp nm q) (\<lambda>p. Some (Inr (p, nm)))"
      using rd by (simp_all add: nat_get_mapping_from_packet_h_def nat_get_mapping_from_packet_hp_def)
    then show ?thesis using lookup_hp_sim(1) [OF sim, of q] sim by (cases "nat_lookup_external_h nt q") auto
  next
    case out: False
    show ?thesis
    proof (cases "nat_lookup_internal_h nt ip s")
      case (Inl e)
      then show ?thesis using lookup_hp_sim(2) [OF sim, of ip s] out
        using rd by (simp add: nat_get_mapping_from_packet_h_def nat_get_mapping_from_packet_hp_def)
    next
      case (Inr ro)
      then have hp: "nat_lookup_internal_hp nm ip s = Some (Inr (map_option (ref_addr ass) ro))"
        "\<forall>x. ro = Some x \<longrightarrow> valid_ref nt x" using lookup_hp_sim(2) [OF sim, of ip s] by simp_all
      show ?thesis
      proof (cases ro)
        case (Some r)
        then show ?thesis using hp sim Inr out
          using rd by (auto simp: nat_get_mapping_from_packet_h_def nat_get_mapping_from_packet_hp_def)
      next
        case None
        have "nat_get_mapping_from_packet_h now packet dir nt
            = bind_r (nat_insert_mapping_h now ip s nt) (\<lambda>(ref, nt). Inr (Some ref, nt))"
          "nat_get_mapping_from_packet_hp malloc now packet dir nm
            = bind_p (Some (nat_insert_mapping_hp malloc now ip s nm)) (\<lambda>(a, nm). Some (Inr (Some a, nm)))"
          using None hp(1) Inr out
          using rd by (simp_all add: nat_get_mapping_from_packet_h_def nat_get_mapping_from_packet_hp_def)
        then show ?thesis using nat_insert_mapping_hp_sim [OF mal sim, of now ip s]
          by (cases "nat_insert_mapping_h now ip s nt") fastforce+
      qed
    qed
  qed
qed

lemma trans_sim_lookup_h:
  assumes "malloc_fresh malloc" and "nat_sim_at G ass nm nt"
    and "\<And>ro nm' nt' ass'. nat_sim_at G ass' nm' nt' \<Longrightarrow> (\<And>r. ro = Some r \<Longrightarrow> valid_ref nt' r) \<Longrightarrow>
      trans_sim k (f (map_option (ref_addr ass') ro, nm')) (g (ro, nt'))"
  shows "trans_sim k (bind_p (nat_get_mapping_from_packet_hp malloc now packet dir nm) f)
    (bind_r (nat_get_mapping_from_packet_h now packet dir nt) g)"
proof (cases "nat_get_mapping_from_packet_h now packet dir nt")
  case (Inl e)
  then show ?thesis using nat_get_mapping_from_packet_hp_sim [OF assms(1,2), of now packet dir] by (simp add: trans_sim_def)
next
  case (Inr x)
  obtain ro nt' where x: "x = (ro, nt')" by (cases x)
  obtain nm' ass' where "nat_get_mapping_from_packet_hp malloc now packet dir nm = Some (Inr (map_option (ref_addr ass') ro, nm'))"
    "nat_sim_at G ass' nm' nt'" "\<forall>r. ro = Some r \<longrightarrow> valid_ref nt' r"
    using nat_get_mapping_from_packet_hp_sim [OF assms(1,2), of now packet dir] Inr x by auto
  then have "trans_sim k (f (map_option (ref_addr ass') ro, nm')) (g (ro, nt'))" by (intro assms(3)) auto
  then show ?thesis using Inr x \<open>nat_get_mapping_from_packet_hp malloc now packet dir nm = _\<close> by simp
qed

text \<open>Both programs do the same with a packet that does not depend on the table.\<close>

lemma trans_sim_bind:
  assumes "\<And>x. trans_sim k (Some (f x)) (g x)"
  shows "trans_sim k (Some (bind_r m f)) (bind_r m g)"
  using assms by (cases m) (auto simp: trans_sim_def)

lemma trans_sim_touch:
  assumes "nat_sim_at G ass nm nt" and "valid_ref nt r"
  shows "trans_sim (card G)
    (Some (bind_r (deref (Some (ref_addr ass r))) (\<lambda>a. bind_r (ld_entry (nm_mappings nm) a) (\<lambda>m.
       Inr (nm\<lparr>nm_mappings := (nm_mappings nm)(a \<mapsto> m\<lparr>update_time := now\<rparr>)\<rparr>, out)))))
    (bind_r (deref (Some r)) (\<lambda>r. Inr (nt\<lparr>nat_mapping_list := upd_ref r (\<lambda>m. m\<lparr>update_time := now\<rparr>) (nat_mapping_list nt)\<rparr>, out)))"
  using nat_sim_write [OF assms] nat_sim_iff by (fastforce simp: trans_sim_def ld_entry_def)

lemma do_translation_hp_sim:
  assumes mal: "malloc_fresh malloc" and sim: "nat_sim_at G ass nm nt"
  shows "trans_sim (card G) (do_translation_hp malloc now packet len dir nm out) (do_translation_h now packet len dir nt out)"
proof -
  have ext: "nm_external nm = external_iface nt" using sim by (simp add: nat_sim_at_def)
  show ?thesis
    unfolding do_translation_hp_def do_translation_h_def Let_def ext
  proof (intro trans_sim_step trans_sim_lookup_h [OF mal sim], unfold prod.case)
    fix tcp_hdr srcip ext srcport ro nm' nt' ass'
    assume sim': "nat_sim_at G ass' nm' nt'" and v: "\<And>r. ro = Some r \<Longrightarrow> valid_ref nt' r"
    let ?ad = "map_option (ref_addr ass') ro"
    have pk: "(if dir = DIR_IN \<and> ?ad \<noteq> None then
          bind_r (deref ?ad) (\<lambda>a. bind_r (ld_entry (nm_mappings nm') a) (\<lambda>m.
          bind_r (wr32 packet (packet_to_ip_hdr + 16) (internal_ip m)) (\<lambda>packet. wr16 packet (tcp_hdr + 2) (internal_port m))))
        else bind_r (wr32 packet (packet_to_ip_hdr + 12) (inet_addr (n_ip_str ext))) (\<lambda>packet.
          bind_r (deref ?ad) (\<lambda>a. bind_r (ld_entry (nm_mappings nm') a) (\<lambda>m. wr16 packet tcp_hdr (external_port m)))))
      = (if dir = DIR_IN \<and> ro \<noteq> None then
          bind_r (deref ro) (\<lambda>r. bind_r (wr32 packet (packet_to_ip_hdr + 16) (internal_ip (at_ref r (nat_mapping_list nt'))))
            (\<lambda>packet. wr16 packet (tcp_hdr + 2) (internal_port (at_ref r (nat_mapping_list nt')))))
        else bind_r (wr32 packet (packet_to_ip_hdr + 12) (inet_addr (n_ip_str ext))) (\<lambda>packet.
          bind_r (deref ro) (\<lambda>r. wr16 packet tcp_hdr (external_port (at_ref r (nat_mapping_list nt'))))))"
      (is "?l = ?r")
      using nat_sim_write(1) [OF sim' v] by (cases ro) (auto simp: ld_entry_def)
    show "trans_sim (card G)
      (Some (bind_r ?l (\<lambda>packet. bind_r (update_checksums packet packet_to_ip_hdr tcp_hdr) (\<lambda>packet.
         bind_r (deref ?ad) (\<lambda>a. bind_r (ld_entry (nm_mappings nm') a) (\<lambda>m.
           Inr (nm'\<lparr>nm_mappings := (nm_mappings nm')(a \<mapsto> m\<lparr>update_time := now\<rparr>)\<rparr>, out @ [IpSend packet len])))))))
      (bind_r ?r (\<lambda>packet. bind_r (update_checksums packet packet_to_ip_hdr tcp_hdr) (\<lambda>packet.
         bind_r (deref ro) (\<lambda>r. Inr (nt'\<lparr>nat_mapping_list := upd_ref r (\<lambda>m. m\<lparr>update_time := now\<rparr>) (nat_mapping_list nt')\<rparr>,
           out @ [IpSend packet len])))))"
      unfolding pk
    proof (intro trans_sim_bind)
      fix packet' packet''
      show "trans_sim (card G)
        (Some (bind_r (deref ?ad) (\<lambda>a. bind_r (ld_entry (nm_mappings nm') a) (\<lambda>m.
           Inr (nm'\<lparr>nm_mappings := (nm_mappings nm')(a \<mapsto> m\<lparr>update_time := now\<rparr>)\<rparr>, out @ [IpSend packet'' len])))))
        (bind_r (deref ro) (\<lambda>r. Inr (nt'\<lparr>nat_mapping_list := upd_ref r (\<lambda>m. m\<lparr>update_time := now\<rparr>) (nat_mapping_list nt')\<rparr>,
           out @ [IpSend packet'' len])))"
        using trans_sim_touch [OF sim' v, of _ now "out @ [IpSend packet'' len]"] by (cases ro) (simp_all add: trans_sim_def)
    qed
  qed
qed

lemma get_packet_direction_hp_sim: "nat_sim_at G ass nm nt \<Longrightarrow> get_packet_direction_hp nm packet = get_packet_direction_h nt packet"
  by (simp add: get_packet_direction_hp_def get_packet_direction_h_def nat_sim_at_def)

lemma nat_translate_packet_hp_sim:
  assumes mal: "malloc_fresh malloc" and sim: "nat_sim_at G ass nm nt"
  shows "trans_sim (card G) (nat_translate_packet_hp malloc now packet len nm out) (nat_translate_packet_h now packet len nt out)"
proof -
  have drop: "trans_sim (card G) (Some (Inr (nm, x))) (Inr (nt, x))" for x :: "nat_event list"
    using sim nat_sim_iff by (auto simp: trans_sim_def)
  show ?thesis
    unfolding nat_translate_packet_hp_def nat_translate_packet_h_def get_packet_direction_hp_sim [OF sim]
    by (intro trans_sim_step) (auto intro!: trans_sim_step drop do_translation_hp_sim [OF mal sim])
qed

lemma timeout_body_h_visit:
  "nat_timeout_body_h now = visit_entry (\<lambda>m ports. Inr (if is_flow_finished_h (conn m) \<noteq> 0 \<or> 60 \<le> update_time m - now
     then (True, Continue (free_port (external_port m) ports)) else (False, Continue ports)))"
  by (intro ext) (auto simp: nat_timeout_body_h_def visit_entry_def ld_entry_def free_entry_def Let_def split: prod.splits option.splits)

lemma visit_timeout_h:
  "visit_buckets (\<lambda>m ports. Inr (if is_flow_finished_h (conn m) \<noteq> 0 \<or> 60 \<le> update_time m - now
     then (True, Continue (free_port (external_port m) ports)) else (False, Continue ports))) ls ports
   = Inr (fst (timeout_lists_h now ls ports), Continue (snd (timeout_lists_h now ls ports)) :: (port_pool_t, 'r) flow)"
proof -
  have "visit_list (\<lambda>m ports. Inr (if is_flow_finished_h (conn m) \<noteq> 0 \<or> 60 \<le> update_time m - now
     then (True, Continue (free_port (external_port m) ports)) else (False, Continue ports))) l ports
   = Inr (fst (timeout_list_h now l ports), Continue (snd (timeout_list_h now l ports)) :: (port_pool_t, 'r) flow)" for l ports
    by (induction l arbitrary: ports) (auto split: prod.splits)
  then show ?thesis by (induction ls arbitrary: ports) (auto split: prod.splits)
qed

lemma timeout_lists_h_length [simp]: "length (fst (timeout_lists_h now ls ports)) = length ls"
  by (induction ls arbitrary: ports) (auto split: prod.splits, metis fst_conv)

lemma nat_timeout_hp_sim:
  assumes "nat_sim G nm nt"
  shows "\<exists>nm'. nat_timeout_hp now nm = Some (Inr nm') \<and> nat_sim G nm' (nat_timeout_h now nt)"
proof -
  have mem: "in_memory (nm_heap nm) (nm_mappings nm) G (nat_mapping_list nt)"
    and len: "length (nat_mapping_list nt) = HASH_8BITS" using assms by (simp_all add: nat_sim_def)
  let ?r = "timeout_lists_h now (nat_mapping_list nt) (nm_ports nm)"
  obtain h d where "for_buckets (\<lambda>i. list_for_each_entry_safe (nat_timeout_body_h now) (bucket_head i)) [0..<HASH_8BITS]
      (nm_heap nm, nm_mappings nm, nm_ports nm) = Some (Inr (Continue (h, d, snd ?r)))" "in_memory h d G (fst ?r)"
    using for_buckets_safe [OF mem, of "\<lambda>m ports. Inr (if is_flow_finished_h (conn m) \<noteq> 0 \<or> 60 \<le> update_time m - now
      then (True, Continue (free_port (external_port m) ports)) else (False, Continue ports :: (_, unit) flow))" "nm_ports nm"]
    unfolding visit_timeout_h timeout_body_h_visit len by (auto simp: table_ok_def)
  then show ?thesis using assms len
    by (auto simp: nat_timeout_hp_def nat_timeout_h_def after_loop_def nat_sim_def split: prod.splits)
      (metis fst_conv timeout_lists_h_length)+
qed

lemma nat_table_destroy_hp_sim:
  "nat_sim G nm nt \<Longrightarrow> \<exists>nm'. nat_table_destroy_hp nm = Some (Inr nm') \<and> nat_sim G nm' (fst (nat_table_destroy nt))"
  using nat_table_destroy_p_sim by (simp add: nat_table_destroy_hp_def nat_table_destroy_p_def)

lemma if_name_body_visit:
  "if_name_body name = visit_entry (keep (\<lambda>iface u. Inr (if n_name iface = name then Return iface u else Continue u)))"
  by (intro ext) (auto simp: if_name_body_def visit_entry_def ld_entry_def keep_def split: prod.splits option.splits)

lemma visit_if_name:
  "visit_list (keep (\<lambda>iface u. Inr (if n_name iface = name then Return iface u else Continue u))) ifs ()
   = Inr (ifs, case if_name_to_iface ifs name of None \<Rightarrow> Continue () | Some iface \<Rightarrow> Return iface ())"
  by (induction ifs) (auto simp: keep_def split: option.splits)

lemma if_name_to_iface_p_ok:
  assumes "dlist (fst ifm) l xs" and "entries_at (snd ifm) xs ifs"
  shows "if_name_to_iface_p ifm l name = Some (Inr (if_name_to_iface ifs name))"
proof -
  let ?g = "\<lambda>iface u. Inr (if n_name iface = name then Return iface u else Continue u) :: (unit, nat_iface) flow result"
  have "for_each_entry (visit_entry (keep ?g)) (hd (xs @ [l])) l (fst ifm, snd ifm, ())
      = Some (bind_r (visit_list (keep ?g) ifs ()) (\<lambda>(es, fl). Inr (map_flow (\<lambda>c. (fst ifm, snd ifm, ())) id fl)))"
    using for_each_entry_visit_keep [of "fst ifm" l "[]" xs "snd ifm" ifs ?g "()"] assms by simp
  then show ?thesis using assms(1)
    by (cases "if_name_to_iface ifs name")
      (simp_all add: if_name_to_iface_p_def if_name_body_visit list_for_each_entry_def ld_next_head visit_if_name after_loop_def)
qed

lemma nat_table_init_hp_sim:
  assumes "dlist (fst ifm) l xs" and "entries_at (snd ifm) xs ifs"
  shows "case nat_table_init_h ifs of
     Inl e \<Rightarrow> nat_table_init_hp ifm l = Some (Inl e)
   | Inr nt \<Rightarrow> \<exists>nm. nat_table_init_hp ifm l = Some (Inr nm) \<and> nat_sim {} nm nt"
proof -
  obtain h where "fold_r (\<lambda>i h. init_list_head h (bucket_head i)) [0..<HASH_8BITS] (zeroed_heads HASH_8BITS) = Inr h"
    "in_memory h (Map.empty :: nat_mapping store) {} (replicate HASH_8BITS [])" using init_heads_ok by blast
  then show ?thesis
    by (auto simp: nat_table_init_h_def nat_table_init_hp_def if_name_to_iface_p_ok [OF assms] nat_sim_def Let_def)
qed

section \<open>Runs\<close>

fun nat_do_h :: "nat_call \<Rightarrow> nat_table \<Rightarrow> nat_event list \<Rightarrow> (nat_table \<times> nat_event list) result" where
  "nat_do_h (Translate now packet len) nt out = nat_translate_packet_h now packet len nt out"
| "nat_do_h (TimeoutPass now) nt out = Inr (nat_timeout_h now nt, out)"
| "nat_do_h Destroy nt out = Inr (fst (nat_table_destroy nt), out)"

fun nat_do_hp :: "(heap \<Rightarrow> addr) \<Rightarrow> nat_call \<Rightarrow> nat_mem \<Rightarrow> nat_event list \<Rightarrow> (nat_mem \<times> nat_event list) result option" where
  "nat_do_hp malloc (Translate now packet len) nm out = nat_translate_packet_hp malloc now packet len nm out"
| "nat_do_hp malloc (TimeoutPass now) nm out = bind_p (nat_timeout_hp now nm) (\<lambda>nm. Some (Inr (nm, out)))"
| "nat_do_hp malloc Destroy nm out = bind_p (nat_table_destroy_hp nm) (\<lambda>nm. Some (Inr (nm, out)))"

fun nat_run_h :: "nat_call list \<Rightarrow> nat_table \<Rightarrow> nat_event list \<Rightarrow> (nat_table \<times> nat_event list) result" where
  "nat_run_h [] nt out = Inr (nt, out)"
| "nat_run_h (c # cs) nt out = bind_r (nat_do_h c nt out) (\<lambda>(nt, out). nat_run_h cs nt out)"

fun nat_run_hp :: "(heap \<Rightarrow> addr) \<Rightarrow> nat_call list \<Rightarrow> nat_mem \<Rightarrow> nat_event list \<Rightarrow> (nat_mem \<times> nat_event list) result option" where
  "nat_run_hp malloc [] nm out = Some (Inr (nm, out))"
| "nat_run_hp malloc (c # cs) nm out = bind_p (nat_do_hp malloc c nm out) (\<lambda>(nm, out). nat_run_hp malloc cs nm out)"

lemma nat_do_hp_sim:
  assumes "malloc_fresh malloc" and sim: "nat_sim G nm nt"
  shows "trans_sim (card G) (nat_do_hp malloc c nm out) (nat_do_h c nt out)"
proof (cases c)
  case (Translate now packet len)
  then show ?thesis using nat_translate_packet_hp_sim [OF assms(1)] sim by (auto simp: nat_sim_iff)
next
  case (TimeoutPass now)
  then show ?thesis using nat_timeout_hp_sim [OF sim, of now] by (auto simp: trans_sim_def)
next
  case Destroy
  then show ?thesis using nat_table_destroy_hp_sim [OF sim] by (auto simp: trans_sim_def)
qed

lemma nat_run_hp_sim:
  assumes "malloc_fresh malloc" and "nat_sim G nm nt"
  shows "trans_sim (card G) (nat_run_hp malloc calls nm out) (nat_run_h calls nt out)"
  using assms(2)
proof (induction calls arbitrary: G nm nt out)
  case Nil
  then show ?case by (auto simp: trans_sim_def)
next
  case (Cons c cs)
  show ?case
  proof (cases "nat_do_h c nt out")
    case (Inl e)
    then show ?thesis using nat_do_hp_sim [OF assms(1) Cons.prems, of c out] by (simp add: trans_sim_def)
  next
    case (Inr r)
    obtain nt' out' where r: "r = (nt', out')" by (cases r)
    obtain G' nm' where s: "nat_do_hp malloc c nm out = Some (Inr (nm', out'))" "nat_sim G' nm' nt'" "card G' = card G"
      using nat_do_hp_sim [OF assms(1) Cons.prems, of c out] Inr r by (auto simp: trans_sim_def)
    then show ?thesis using Cons.IH [OF s(2), of out'] Inr r by simp
  qed
qed

section \<open>A concrete run\<close>

text \<open>A new flow adds two mappings to the table, and a write through a pointer none.\<close>

lemma length_concat_nth: "length (concat ls) = (\<Sum>c < length ls. length (ls ! c))"
  by (simp add: length_concat sum_list_sum_nth atLeast0LessThan)

lemma nat_add_h_count:
  assumes inv: "nat_inv_h nt"
  shows "length (concat (nat_mapping_list (nat_add_h now ip p nt))) = length (concat (nat_mapping_list nt)) + 2"
proof (cases rule: nat_insert_h_eq [OF inv, of now ip p])
  case (1 m copy q ports)
  have len: "length (nat_mapping_list nt) = HASH_8BITS" using inv by (simp add: nat_inv_h_def)
  have "(\<Sum>c < HASH_8BITS. length (if c = hash_idx a b then [x] else [])) = 1" for a b and x :: nat_mapping
    using nat_hash_idx(2) [of a b] by (simp add: if_distrib [of length] sum.delta cong: if_cong)
  then show ?thesis by (simp add: length_concat_nth 1(5,6) len sum.distrib)
qed

lemma touch_count: "length (concat (nat_mapping_list (touch now r nt))) = length (concat (nat_mapping_list nt))"
  using list_all2_lengthD [OF touch_lists [of nt _ now r]] by (simp add: length_concat_nth)

lemma demo_run_h:
  "\<exists>nt out. nat_run_h [Translate 5 demo_syn 54, Translate 6 demo_syn 54] demo_nat [] = Inr (nt, out)
     \<and> length (concat (nat_mapping_list nt)) = 2"
proof -
  let ?nt1 = "nat_add_h 5 (ip_saddr demo_syn) (tcp_sport demo_syn) demo_nat"
  note dir = nat_translate_h_dir [OF demo_nat_inv_h demo_packets(1,2), of 5 54 "[]"]
  obtain r e m where a: "nat_translate_packet_h 5 demo_syn 54 demo_nat [] = Inr (touch 5 r ?nt1, [e])"
    "nat_find_int_h ?nt1 (ip_saddr demo_syn) (tcp_sport demo_syn) = Some m"
    using dir demo_dir_h(1) demo_lookup_h(1)
    by (cases rule: do_translation_h_out [OF demo_nat_inv_h demo_packets(1), of 5 54 "[]"]) (auto simp: open_flow_def)
  let ?nt = "touch 5 r ?nt1"
  have inv: "nat_inv_h ?nt" by (intro nat_inv_h_touch nat_inv_h_add demo_nat_inv_h)
  have known: "nat_find_int_h ?nt (ip_saddr demo_syn) (tcp_sport demo_syn) \<noteq> None"
    using find_touch(2) [of ?nt1 "ip_saddr demo_syn" "tcp_sport demo_syn" 5 r] a(2) by (auto simp: option_rel_Some1)
  have ip: "nat_ip_h ?nt = nat_ip_h demo_nat" using nat_translate_h_keeps [OF demo_nat_inv_h demo_packets(1,2) a(1)]
    by (simp add: keeps_flows_def nat_ip_h_def)
  obtain r' e' where b: "nat_translate_packet_h 6 demo_syn 54 ?nt [e] = Inr (touch 6 r' ?nt, [e, e'])"
    using nat_translate_h_dir [OF inv demo_packets(1,2), of 6 54 "[e]"] demo_dir_h(1) ip known
    by (cases rule: do_translation_h_out [OF inv demo_packets(1), of 6 54 "[e]"]) (auto simp: open_flow_def)
  have "length (concat (nat_mapping_list (touch 6 r' ?nt))) = length (concat (nat_mapping_list demo_nat)) + 2"
    unfolding touch_count by (rule nat_add_h_count [OF demo_nat_inv_h])
  moreover have "length (concat (nat_mapping_list demo_nat)) = 0" by (simp add: demo_nat_def)
  ultimately show ?thesis using a(1) b by simp
qed

text \<open>The two interfaces as a linked list.\<close>

definition demo_ifaces :: "heap \<times> nat_iface store" where
  "demo_ifaces = (demo_heap, [1 \<mapsto> demo_int, 2 \<mapsto> demo_ext])"

section \<open>Property\<close>

text \<open>C8. The pointer program of \<^verbatim>\<open>nat_new_2.c\<close> computes the list model, from the search for the interfaces in
  their linked list on: for every sequence of packets, time-out passes and destructions, every loop ends, no freed memory is
  touched, the same events come out or the same fault happens, the writes through pointers reach the mappings
  they should, and the memory holds the mappings of the table and nothing else: unlike \<^verbatim>\<open>nat.c\<close>,
  this version does not leak.\<close>

theorem nat_hash_memory_refines:
  assumes "malloc_fresh malloc" and "dlist (fst ifm) iface_list xs" and "entries_at (snd ifm) xs ifs"
  shows "case nat_table_init_h ifs of
     Inl e \<Rightarrow> nat_table_init_hp ifm iface_list = Some (Inl e)
   | Inr nt \<Rightarrow> \<exists>nm. nat_table_init_hp ifm iface_list = Some (Inr nm) \<and>
      (case nat_run_h calls nt [] of
         Inl e \<Rightarrow> nat_run_hp malloc calls nm [] = Some (Inl e)
       | Inr (nt', out) \<Rightarrow> \<exists>nm'. nat_run_hp malloc calls nm [] = Some (Inr (nm', out))
           \<and> in_memory (nm_heap nm') (nm_mappings nm') {} (nat_mapping_list nt')
           \<and> card (dom (nm_mappings nm')) = length (concat (nat_mapping_list nt')))"
proof (cases "nat_table_init_h ifs")
  case (Inl e)
  then show ?thesis using nat_table_init_hp_sim [OF assms(2,3)] by simp
next
  case (Inr nt)
  then obtain nm where nm: "nat_table_init_hp ifm iface_list = Some (Inr nm)" "nat_sim {} nm nt"
    using nat_table_init_hp_sim [OF assms(2,3)] by auto
  have no_leak: "G = {}" if "nat_sim G nm' nt'" "card G = 0" for G nm' nt'
    using that by (simp add: nat_sim_def in_memory_def)
  have "trans_sim 0 (nat_run_hp malloc calls nm []) (nat_run_h calls nt [])"
    using nat_run_hp_sim [OF assms(1) nm(2), of calls "[]"] by simp
  then have "case nat_run_h calls nt [] of
         Inl e \<Rightarrow> nat_run_hp malloc calls nm [] = Some (Inl e)
       | Inr (nt', out) \<Rightarrow> \<exists>nm'. nat_run_hp malloc calls nm [] = Some (Inr (nm', out))
           \<and> in_memory (nm_heap nm') (nm_mappings nm') {} (nat_mapping_list nt')
           \<and> card (dom (nm_mappings nm')) = length (concat (nat_mapping_list nt'))"
    using no_leak in_memory_card(2)
    by (cases "nat_run_h calls nt []") (fastforce simp: trans_sim_def nat_sim_def)+
  then show ?thesis using Inr nm(1) by simp
qed

theorem nat_hash_memory_refines_witness:
  "\<exists>nm nm' out. nat_table_init_hp demo_ifaces 0 = Some (Inr nm)
     \<and> nat_run_hp bump_malloc [Translate 5 demo_syn 54, Translate 6 demo_syn 54] nm [] = Some (Inr (nm', out))
     \<and> card (dom (nm_mappings nm')) = 2"
proof -
  have "nat_table_init_h [demo_int, demo_ext] = Inr demo_nat"
    by (simp add: nat_table_init_h_def demo_int_def demo_ext_def demo_nat_def)
  moreover have "dlist (fst demo_ifaces) 0 [1, 2]" "entries_at (snd demo_ifaces) [1, 2] [demo_int, demo_ext]"
    using demo_heap_dlist by (simp_all add: demo_ifaces_def)
  ultimately show ?thesis
    using nat_hash_memory_refines [OF bump_malloc_fresh, of demo_ifaces 0 "[1, 2]" "[demo_int, demo_ext]"
      "[Translate 5 demo_syn 54, Translate 6 demo_syn 54]"] demo_run_h by fastforce
qed

end
