(* ===== verification/NatHashSearch.thy ===== *)
theory NatHashSearch
  imports NatC NatHash
begin

text \<open>
  The hashed lookup of \<^verbatim>\<open>nat_new_2.c\<close> against the exhaustive search of
  \<^verbatim>\<open>nat.c\<close>: in every table that packets and passes of the time-out thread can build, looking
  into the one list a key hashes to finds what a search of all 256 lists finds. The reason is where
  mappings are stored: each flow has a mapping in the list of its internal key and one in the
  list of its external key.
\<close>

section \<open>Reachable tables\<close>

text \<open>From an empty table, with a clock that does not go back.\<close>

inductive h_reach :: "nat_table \<Rightarrow> time_t \<Rightarrow> nat_table \<Rightarrow> bool" for nt0 where
  start: "0 \<le> t \<Longrightarrow> h_reach nt0 t nt0"
| packet: "h_reach nt0 t nt \<Longrightarrow> t \<le> now \<Longrightarrow> tcp_packet p \<Longrightarrow> p ! 23 = IPPROTO_TCP
    \<Longrightarrow> nat_translate_packet_h now p len nt out = Inr (nt', out') \<Longrightarrow> h_reach nt0 now nt'"
| timeout: "h_reach nt0 t nt \<Longrightarrow> t \<le> now \<Longrightarrow> h_reach nt0 now (nat_timeout_h now nt)"

definition same_key :: "nat_mapping \<Rightarrow> nat_mapping \<Rightarrow> bool" where
  "same_key m m' \<longleftrightarrow> internal_ip m = internal_ip m' \<and> internal_port m = internal_port m' \<and> external_port m = external_port m'"

text \<open>Where the mappings are: \<open>stored nt m c\<close>, a mapping with the keys of \<open>m\<close> is in list \<open>c\<close>.\<close>

definition stored :: "nat_table \<Rightarrow> nat_mapping \<Rightarrow> nat \<Rightarrow> bool" where
  "stored nt m c \<longleftrightarrow> (\<exists>m' \<in> set (nat_mapping_list nt ! c). same_key m m')"

definition placed :: "time_t \<Rightarrow> nat_table \<Rightarrow> bool" where
  "placed t nt \<longleftrightarrow> 0 \<le> t \<and> nat_inv_h nt
     \<and> (\<forall>m \<in> mappings nt. stored nt m (hash_idx (internal_ip m) (internal_port m)))
     \<and> (\<forall>m \<in> mappings nt. stored nt m (hash_idx (n_ip (the (external_iface nt))) (external_port m)))
     \<and> (\<forall>m \<in> mappings nt. \<forall>m' \<in> mappings nt. internal_ip m = internal_ip m' \<and> internal_port m = internal_port m'
          \<longrightarrow> external_port m = external_port m')
     \<and> (\<forall>m \<in> mappings nt. update_time m \<le> t \<and> conn m = conn_zero)"

lemma same_key_sym: "same_key m m' \<Longrightarrow> same_key m' m"
  by (simp add: same_key_def)

lemma same_flow_key: "same_flow m m' \<Longrightarrow> same_key m m'"
  by (auto simp: same_key_def dest!: same_flowD)

text \<open>A mapping is in the table exactly if the list of either key has one with its keys.\<close>

lemma placedD:
  assumes "placed t nt"
  shows "0 \<le> t" "nat_inv_h nt"
    "m \<in> mappings nt \<Longrightarrow> stored nt m (hash_idx (internal_ip m) (internal_port m))"
    "m \<in> mappings nt \<Longrightarrow> stored nt m (hash_idx (n_ip (the (external_iface nt))) (external_port m))"
    "m \<in> mappings nt \<Longrightarrow> m' \<in> mappings nt \<Longrightarrow> internal_ip m = internal_ip m' \<Longrightarrow> internal_port m = internal_port m'
       \<Longrightarrow> external_port m = external_port m'"
    "m \<in> mappings nt \<Longrightarrow> update_time m \<le> t \<and> conn m = conn_zero"
  using assms unfolding placed_def by blast+

lemma placedI:
  assumes "0 \<le> t" and "nat_inv_h nt"
    and "\<And>m. m \<in> mappings nt \<Longrightarrow> stored nt m (hash_idx (internal_ip m) (internal_port m))
      \<and> stored nt m (hash_idx (n_ip (the (external_iface nt))) (external_port m)) \<and> update_time m \<le> t \<and> conn m = conn_zero"
    and "\<And>m m'. m \<in> mappings nt \<Longrightarrow> m' \<in> mappings nt \<Longrightarrow> internal_ip m = internal_ip m' \<Longrightarrow> internal_port m = internal_port m'
       \<Longrightarrow> external_port m = external_port m'"
  shows "placed t nt"
  using assms unfolding placed_def by blast

lemma bucket_mappings:
  assumes "nat_inv_h nt" and "m \<in> set (nat_mapping_list nt ! hash_idx ip p)"
  shows "m \<in> mappings nt"
  using assms nat_hash_idx(2) [of ip p] by (auto simp: nat_inv_h_def mappings_nth)

lemma placed_find:
  assumes pl: "placed t nt"
  shows "nat_find_int_h nt ip p = None \<longleftrightarrow> (\<nexists>m. m \<in> mappings nt \<and> internal_ip m = ip \<and> internal_port m = p)"
    "nat_find_ext_h nt q = None \<longleftrightarrow> (\<nexists>m. m \<in> mappings nt \<and> external_port m = q)"
proof -
  note inv = placedD(2) [OF pl]
  have "\<exists>m' \<in> set (nat_mapping_list nt ! hash_idx ip p). internal_ip m' = ip \<and> internal_port m' = p"
    if "m \<in> mappings nt" "internal_ip m = ip" "internal_port m = p" for m
    using placedD(3) [OF pl that(1)] that(2,3) by (auto simp: stored_def same_key_def)
  then show "nat_find_int_h nt ip p = None \<longleftrightarrow> (\<nexists>m. m \<in> mappings nt \<and> internal_ip m = ip \<and> internal_port m = p)"
    using bucket_mappings [OF inv] unfolding nat_find_int_h_def find_None_iff by metis
  have "\<exists>m' \<in> set (nat_mapping_list nt ! hash_idx (n_ip (the (external_iface nt))) q). external_port m' = q"
    if "m \<in> mappings nt" "external_port m = q" for m
    using placedD(4) [OF pl that(1)] that(2) by (auto simp: stored_def same_key_def)
  then show "nat_find_ext_h nt q = None \<longleftrightarrow> (\<nexists>m. m \<in> mappings nt \<and> external_port m = q)"
    using bucket_mappings [OF inv] unfolding nat_find_ext_h_def find_None_iff by metis
qed

section \<open>Packets keep mappings in their places\<close>

lemma placed_add:
  assumes pl: "placed t nt" and new: "nat_find_int_h nt ip p = None" and t: "t \<le> now"
  shows "placed now (nat_add_h now ip p nt)"
proof (cases rule: nat_insert_h_eq [OF placedD(2) [OF pl], of now ip p])
  case (1 m copy q ports)
  let ?n = "nat_add_h now ip p nt" and ?e = "n_ip (the (external_iface nt))"
  have inv: "nat_inv_h nt" and len: "length (nat_mapping_list nt) = HASH_8BITS"
    using placedD(2) [OF pl] by (auto simp: nat_inv_h_def)
  have maps: "x \<in> mappings nt \<or> x = m \<or> x = copy" if "x \<in> mappings ?n" for x
    using that unfolding mappings_nth 1(5,6) len by (auto split: if_splits)
  have old: "stored nt x c \<Longrightarrow> stored ?n x c" for x c unfolding stored_def 1(6) by auto
  have st: "stored ?n x (hash_idx ip p)" "stored ?n x (hash_idx ?e (htons q))" if "x = m \<or> x = copy" for x
    using that 1(7-12) unfolding stored_def 1(6) by (auto simp: same_key_def)
  have keys: "internal_ip x = ip" "internal_port x = p" "external_port x = htons q" if "x = m \<or> x = copy" for x
    using that 1(7-12) by auto
  have none: "x \<notin> mappings nt" if "internal_ip x = ip" "internal_port x = p" for x
    using placed_find(1) [OF pl, of ip p] new that by auto
  have "stored ?n x (hash_idx (internal_ip x) (internal_port x))
      \<and> stored ?n x (hash_idx ?e (external_port x)) \<and> update_time x \<le> now \<and> conn x = conn_zero" if x: "x \<in> mappings ?n" for x
  proof (cases "x \<in> mappings nt")
    case True
    then show ?thesis using placedD(3,4,6) [OF pl True] old t by auto
  next
    case False
    then have x': "x = m \<or> x = copy" using maps [OF x] by blast
    have "update_time x \<le> now" "conn x = conn_zero" using x' 1(13-16) placedD(1) [OF pl] t by (elim disjE; simp)+
    then show ?thesis using st [OF x'] keys [OF x'] by simp
  qed
  note places = this
  have unique: "external_port x = external_port y"
    if "x \<in> mappings ?n" "y \<in> mappings ?n" "internal_ip x = internal_ip y" "internal_port x = internal_port y" for x y
  proof (cases "x \<in> mappings nt \<and> y \<in> mappings nt")
    case True
    then show ?thesis using placedD(5) [OF pl] that(3,4) by blast
  next
    case False
    then have "(x = m \<or> x = copy) \<or> (y = m \<or> y = copy)" using maps [OF that(1)] maps [OF that(2)] by blast
    then have k: "internal_ip x = ip \<and> internal_port x = p"
      using keys(1,2) [of x] keys(1,2) [of y] trans [OF that(3)] trans [OF that(4)] by blast
    have "x \<notin> mappings nt" using none k by blast
    moreover have "y \<notin> mappings nt" using none [of y] k unfolding that(3,4) by blast
    ultimately show ?thesis
      using maps [OF that(1)] maps [OF that(2)] keys(3) [of x] trans [OF keys(3) [of x] sym [OF keys(3) [of y]]] by blast
  qed
  show ?thesis
  proof (rule placedI [OF _ nat_inv_h_add [OF inv] _ unique])
    show "0 \<le> now" using placedD(1) [OF pl] t by simp
  qed (simp_all add: 1(4) places)
qed

text \<open>Setting the time of a mapping.\<close>

lemma touch_times:
  assumes "y \<in> mappings (touch now r nt)"
  obtains x where "x \<in> mappings nt" "same_flow x y" "update_time y = update_time x \<or> update_time y = now"
proof -
  let ?l = "nat_mapping_list nt" and ?l' = "nat_mapping_list (touch now r nt)"
  from assms obtain c i where c: "c < length ?l" "i < length (?l' ! c)" "y = ?l' ! c ! i"
    by (auto simp: mappings_nth in_set_conv_nth)
  with touch_lists [of nt c now r] have i: "i < length (?l ! c)" "same_flow (?l ! c ! i) y"
    by (auto simp: list_all2_conv_all_nth)
  have "update_time y = update_time (?l ! c ! i) \<or> update_time y = now"
  proof (cases "fst r = c \<and> snd r = i")
    case True
    then show ?thesis using c i by (simp add: touch_def nth_upd_ref)
  next
    case False
    then show ?thesis using c i
      by (cases "fst r < length ?l") (auto simp: touch_def nth_upd_ref nth_list_update upd_ref_def list_update_beyond split: prod.splits if_splits)
  qed
  moreover have "?l ! c ! i \<in> mappings nt" using c(1) i(1) by (force simp: mappings_nth)
  ultimately show thesis using that i(2) by blast
qed

lemma stored_touch:
  assumes "stored nt x c" and "same_flow x y"
  shows "stored (touch now r nt) y c"
proof -
  obtain i where i: "i < length (nat_mapping_list nt ! c)" "same_key x (nat_mapping_list nt ! c ! i)"
    using assms(1) by (auto simp: stored_def in_set_conv_nth)
  with touch_lists [of nt c now r] have "i < length (nat_mapping_list (touch now r nt) ! c)"
    "same_flow (nat_mapping_list nt ! c ! i) (nat_mapping_list (touch now r nt) ! c ! i)" by (auto simp: list_all2_conv_all_nth)
  then have "nat_mapping_list (touch now r nt) ! c ! i \<in> set (nat_mapping_list (touch now r nt) ! c)"
    "same_key y (nat_mapping_list (touch now r nt) ! c ! i)"
    using i(2) same_flow_key [OF assms(2)] same_flow_key by (auto simp: same_key_def)
  then show ?thesis unfolding stored_def by blast
qed

lemma placed_touch:
  assumes pl: "placed t nt" and t: "t \<le> now"
  shows "placed now (touch now r nt)"
proof -
  let ?n = "touch now r nt"
  have "stored ?n y (hash_idx (internal_ip y) (internal_port y))
      \<and> stored ?n y (hash_idx (n_ip (the (external_iface nt))) (external_port y)) \<and> update_time y \<le> now \<and> conn y = conn_zero"
    if "y \<in> mappings ?n" for y
  proof (cases rule: touch_times [OF that])
    case (1 x)
    then show ?thesis using placedD(3,4,6) [OF pl 1(1)] stored_touch same_flowD [OF 1(2)] t by fastforce
  qed
  note places = this
  have unique: "external_port y = external_port y'"
    if "y \<in> mappings ?n" "y' \<in> mappings ?n" "internal_ip y = internal_ip y'" "internal_port y = internal_port y'" for y y'
  proof -
    note y = that
    obtain x where x1: "x \<in> mappings nt" "same_flow x y" by (rule touch_times [OF y(1)])
    obtain x' where x2: "x' \<in> mappings nt" "same_flow x' y'" by (rule touch_times [OF y(2)])
    note x = x1 x2
    then show ?thesis using placedD(5) [OF pl x(1,3)] y(3,4) same_flowD [OF x(2)] same_flowD [OF x(4)] by simp
  qed
  show ?thesis
  proof (rule placedI [OF _ nat_inv_h_touch [OF placedD(2) [OF pl]] _ unique])
    show "0 \<le> now" using placedD(1) [OF pl] t by simp
  qed (simp_all add: places)
qed

lemma placed_later:
  assumes pl: "placed t nt" and t: "t \<le> now"
  shows "placed now nt"
proof (rule placedI [OF _ placedD(2) [OF pl] _ placedD(5) [OF pl]])
  show "0 \<le> now" using placedD(1) [OF pl] t by simp
  show "stored nt m (hash_idx (internal_ip m) (internal_port m))
      \<and> stored nt m (hash_idx (n_ip (the (external_iface nt))) (external_port m)) \<and> update_time m \<le> now \<and> conn m = conn_zero"
    if "m \<in> mappings nt" for m
    using placedD(3,4,6) [OF pl that] t by simp
qed

lemma placed_packet:
  assumes pl: "placed t nt" and t: "t \<le> now" and p: "tcp_packet p" "p ! 23 = IPPROTO_TCP"
    and run: "nat_translate_packet_h now p len nt out = Inr (nt', out')"
  shows "placed now nt'"
proof (cases "ip_daddr p = nat_ip_h nt")
  case False
  note inv = placedD(2) [OF pl]
  obtain r nt1 where nt1: "nt1 = open_flow nat_find_int_h nat_add_h (now, ip_saddr p, tcp_sport p) nt" "nt' = touch now r nt1"
    using run False nat_translate_h_dir [OF inv p, of now len out]
    by (cases rule: do_translation_h_out [OF inv p(1), of now len out]) auto
  have "placed now nt1"
    using placed_add [OF pl _ t, of "ip_saddr p" "tcp_sport p"] placed_later [OF pl t] by (simp add: nt1(1) open_flow_def)
  then show ?thesis unfolding nt1(2) by (rule placed_touch) simp
next
  case True
  note inv = placedD(2) [OF pl]
  have run': "do_translation_h now p len DIR_IN nt out = Inr (nt', out')"
    using run True nat_translate_h_dir [OF inv p, of now len out] by simp
  then obtain m where "nat_find_ext_h nt (tcp_dport p) = Some m"
    using do_translation_h_unknown [OF inv p(1), of now len out] by (cases "nat_find_ext_h nt (tcp_dport p)") auto
  then obtain r where "nt' = touch now r nt"
    using run' by (cases rule: do_translation_h_in [OF inv p(1), of m now len out]) auto
  then show ?thesis using placed_touch [OF pl t] by simp
qed

text \<open>The time-out thread finds nothing to remove: no time is in the future and no connection is finished.\<close>

lemma timeout_list_h_id:
  "\<forall>m \<in> set l. conn m = conn_zero \<and> update_time m \<le> now \<Longrightarrow> timeout_list_h now l ports = (l, ports)"
  by (induction l) (auto simp: is_flow_finished_h_def conn_zero_def)

lemma timeout_lists_h_id:
  "\<forall>l \<in> set ls. \<forall>m \<in> set l. conn m = conn_zero \<and> update_time m \<le> now \<Longrightarrow> timeout_lists_h now ls ports = (ls, ports)"
  by (induction ls) (simp_all add: timeout_list_h_id)

lemma nat_timeout_h_id:
  assumes "placed t nt" and "t \<le> now"
  shows "nat_timeout_h now nt = nt"
proof -
  have "timeout_lists_h now (nat_mapping_list nt) (assigned_ports nt) = (nat_mapping_list nt, assigned_ports nt)"
    by (rule timeout_lists_h_id) (use assms(2) placedD(6) [OF assms(1)] in \<open>fastforce simp: mappings_def\<close>)
  then show ?thesis by (simp add: nat_timeout_h_def)
qed

lemma h_reach_placed:
  assumes "h_reach nt0 t nt" and "nat_inv_h nt0" and "mappings nt0 = {}"
  shows "placed t nt"
  using assms(1)
proof (induction rule: h_reach.induct)
  case (start t)
  then show ?case using assms(2,3) by (simp add: placed_def)
next
  case (packet t nt now p len out nt' out')
  then show ?case using placed_packet by blast
next
  case (timeout t nt now)
  then show ?case using nat_timeout_h_id placed_later by simp
qed

text \<open>Two searches over the same mappings: one in a list, the other in all.\<close>

lemma find_agree:
  assumes "found = None \<longleftrightarrow> (\<nexists>m. m \<in> S \<and> P m)" and "\<And>m. found = Some m \<Longrightarrow> m \<in> S \<and> P m" and "set ms = S"
    and "\<And>m m'. m \<in> S \<Longrightarrow> m' \<in> S \<Longrightarrow> P m \<Longrightarrow> P m' \<Longrightarrow> R m m'"
  shows "rel_option R found (find P ms)"
proof (cases found)
  case None
  then have "find P ms = None" using assms(1,3) by (auto simp: find_None_iff)
  with None show ?thesis by simp
next
  case (Some m)
  then obtain m' where "find P ms = Some m'" using assms(1,3) by (cases "find P ms") (auto simp: find_None_iff)
  then show ?thesis using Some assms(2-4) by (auto dest!: find_SomeD)
qed

section \<open>Properties\<close>

text \<open>C18. In every table that packets and passes of the time-out thread build from an empty one, the hashed lookups agree with the
  exhaustive search over all lists that \<open>nat.c\<close> makes: one finds a mapping exactly if the other does, and it has
  the same flow and the same external port. (Port 0, which stands for an exhausted pool, is shared by flows; there the
  lookups agree on whether there is a mapping.)\<close>

theorem hash_lookup_complete:
  assumes "nat_inv_h nt0" and "mappings nt0 = {}" and "h_reach nt0 t nt"
  shows "(\<exists>r. nat_lookup_internal_h nt ip p = Inr r
      \<and> rel_option same_key (map_option (\<lambda>r. at_ref r (nat_mapping_list nt)) r)
          (search_lists (\<lambda>l. nat_lookup_internal l ip p) (nat_mapping_list nt)))
    \<and> (\<exists>r. nat_lookup_external_h nt q = Inr r
      \<and> rel_option (\<lambda>m m'. external_port m = q \<and> external_port m' = q \<and> (q = 0 \<or> same_key m m'))
          (map_option (\<lambda>r. at_ref r (nat_mapping_list nt)) r)
          (search_lists (\<lambda>l. nat_lookup_external l q) (nat_mapping_list nt)))"
proof -
  have pl: "placed t nt" by (rule h_reach_placed [OF assms(3,1,2)])
  note inv = placedD(2) [OF pl]
  have search: "search_lists (find P) (nat_mapping_list nt) = find P (concat (nat_mapping_list nt))" for P
    by (rule search_lists_find)
  have all: "set (concat (nat_mapping_list nt)) = mappings nt" by (simp add: mappings_def)
  have "rel_option same_key (nat_find_int_h nt ip p)
      (find (\<lambda>m. internal_ip m = ip \<and> internal_port m = p) (concat (nat_mapping_list nt)))"
  proof (rule find_agree)
    show "same_key m m'" if "m \<in> mappings nt" "m' \<in> mappings nt" "internal_ip m = ip \<and> internal_port m = p"
        "internal_ip m' = ip \<and> internal_port m' = p" for m m'
      using placedD(5) [OF pl that(1,2)] that(3,4) by (simp add: same_key_def)
  qed (use placed_find(1) [OF pl, of ip p] nat_find_h_mapping(2) [OF inv] all in auto)
  moreover have "rel_option (\<lambda>m m'. external_port m = q \<and> external_port m' = q \<and> (q = 0 \<or> same_key m m'))
      (nat_find_ext_h nt q) (find (\<lambda>m. external_port m = q) (concat (nat_mapping_list nt)))"
  proof (rule find_agree)
    show "external_port m = q \<and> external_port m' = q \<and> (q = 0 \<or> same_key m m')"
      if "m \<in> mappings nt" "m' \<in> mappings nt" "external_port m = q" "external_port m' = q" for m m'
    proof (cases "q = 0")
      case False
      then have "internal_ip m = internal_ip m' \<and> internal_port m = internal_port m'"
        using inv that unfolding nat_inv_h_def by metis
      then show ?thesis using that by (simp add: same_key_def)
    qed (use that in simp)
  qed (use placed_find(2) [OF pl, of q] nat_find_h_mapping(1) [OF inv] all in auto)
  ultimately show ?thesis
    using lookup_h_ok(1) [OF inv, of q] lookup_h_ok(2) [OF inv, of ip p]
    by (auto simp: nat_lookup_internal_find [abs_def] nat_lookup_external_find [abs_def] search)
qed

theorem hash_lookup_complete_witness:
  "\<exists>nt m. h_reach demo_nat 5 nt
     \<and> search_lists (\<lambda>l. nat_lookup_internal l (ip_saddr demo_syn) (tcp_sport demo_syn)) (nat_mapping_list nt) = Some m
     \<and> nat_lookup_internal_h nt (ip_saddr demo_syn) (tcp_sport demo_syn) \<noteq> Inr None"
proof -
  let ?ip = "ip_saddr demo_syn" and ?p = "tcp_sport demo_syn"
  have empty: "mappings demo_nat = {}" by (simp add: mappings_def demo_nat_def)
  obtain r nt1 m p' where r: "nat_find_int_h nt1 ?ip ?p = Some m"
    "do_translation_h 5 demo_syn 54 DIR_OUT demo_nat [] = Inr (touch 5 r nt1, [] @ [IpSend p' 54])"
    by (cases rule: do_translation_h_out [OF demo_nat_inv_h demo_packets(1), of 5 54 "[]"]) auto
  let ?nt = "touch 5 r nt1"
  have run: "nat_translate_packet_h 5 demo_syn 54 demo_nat [] = Inr (?nt, [] @ [IpSend p' 54])"
    using r(2) demo_dir_h(1) nat_translate_h_dir [OF demo_nat_inv_h demo_packets(1,2), of 5 54 "[]"] by simp
  have reach: "h_reach demo_nat 5 ?nt"
    by (rule h_reach.packet [OF h_reach.start [of 0] _ demo_packets(1,2) run]) simp_all
  have "nat_find_int_h ?nt ?ip ?p \<noteq> None" using r(1) find_touch(2) [of nt1 ?ip ?p 5 r] by (auto simp: option_rel_Some1)
  then have "nat_lookup_internal_h ?nt ?ip ?p \<noteq> Inr None"
    using lookup_h_ok(2) [OF placedD(2) [OF h_reach_placed [OF reach demo_nat_inv_h empty]], of ?ip ?p] by auto
  moreover from this have "search_lists (\<lambda>l. nat_lookup_internal l ?ip ?p) (nat_mapping_list ?nt) \<noteq> None"
    using hash_lookup_complete [OF demo_nat_inv_h empty reach, of ?ip ?p 0]
    by (auto simp: option.rel_sel)
  ultimately show ?thesis using reach by blast
qed

end
