(* ===== verification/LetterCount.thy ===== *)
theory LetterCount
  imports Prelude
begin

text \<open>
  The distributed letter count of \<^verbatim>\<open>socket-exp/socket-example\<close>: \<^verbatim>\<open>server.c\<close>
  splits a file among the workers that connect and adds up their answers, \<^verbatim>\<open>client.c\<close>
  counts the letters of its part.

  A file is the list of its bytes; \<open>long\<close> and \<open>int\<close> are integers, which is right for files below
  \<open>2\<^sup>3\<^sup>1\<close> bytes. The bytes that lie behind a buffer on the stack are a parameter (\<open>behind\<close>), because
  \<open>strlen\<close> reads on into them when the buffer has no null byte. Here the task and the answer
  arrive as they were sent; the sockets are the subject of theory \<open>LetterSocket\<close>.
\<close>

section \<open>C library\<close>

definition strlen :: "bytes \<Rightarrow> nat result" where
  "strlen mem =
     (let n = length (takeWhile (\<lambda>b. b \<noteq> 0) mem) in if n < length mem then Inr n else Inl OutOfBounds)"

text \<open>Division of C truncates towards zero.\<close>

definition c_div :: "int \<Rightarrow> int \<Rightarrow> int" where
  "c_div a b = sgn a * sgn b * (\<bar>a\<bar> div \<bar>b\<bar>)"

text \<open>\<open>read\<close> of at most \<open>n\<close> bytes at position \<open>pos\<close>, into a buffer of \<open>cap\<close> bytes that was zeroed before.\<close>

definition read_buf :: "bytes \<Rightarrow> nat \<Rightarrow> nat \<Rightarrow> nat \<Rightarrow> bytes" where
  "read_buf file pos n cap =
     (let data = take n (drop pos file) in data @ replicate (cap - length data) 0)"

section \<open>The worker (client.c)\<close>

text \<open>\<open>char\<close> is signed, so bytes from 128 on are below \<open>'A'\<close>.\<close>

definition letter_index :: "u8 \<Rightarrow> nat option" where
  "letter_index b =
     (let c = unat b in
      if 65 \<le> c \<and> c \<le> 90 then Some (c - 65)
      else if 97 \<le> c \<and> c \<le> 122 then Some (c - 97) else None)"

definition count_byte :: "u8 \<Rightarrow> int list \<Rightarrow> int list" where
  "count_byte b table = (case letter_index b of Some i \<Rightarrow> table[i := table ! i + 1] | None \<Rightarrow> table)"

text \<open>The loop \<open>for (i = 0; i < strlen(buf); i++)\<close> over a buffer and what lies behind it.\<close>

definition count_buf :: "bytes \<Rightarrow> int list \<Rightarrow> int list result" where
  "count_buf mem table = bind_r (strlen mem) (\<lambda>n. Inr (fold count_byte (take n mem) table))"

fun calc_chunks :: "bytes \<Rightarrow> bytes \<Rightarrow> nat \<Rightarrow> nat \<Rightarrow> int list \<Rightarrow> (nat \<times> int list) result" where
  "calc_chunks file behind 0 pos table = Inr (pos, table)"
| "calc_chunks file behind (Suc num) pos table =
     bind_r (count_buf (read_buf file pos 1000 1000 @ behind) table) (\<lambda>table.
       calc_chunks file behind num (pos + length (take 1000 (drop pos file))) table)"

definition calculate :: "bytes \<Rightarrow> bytes \<Rightarrow> int list \<Rightarrow> int \<Rightarrow> int \<Rightarrow> int list result" where
  "calculate file behind table start fin =
     (let readnum = c_div (fin - start) 1000 in
      bind_r (calc_chunks file behind (nat readnum) (nat start) table) (\<lambda>(pos, table).
        let left_stay = fin - start - readnum * 1000 in
        if left_stay > 0 then count_buf (read_buf file pos (nat left_stay) 1000 @ behind) table
        else Inr table))"

section \<open>The server (server.c)\<close>

definition countIP :: "bytes \<Rightarrow> bytes \<Rightarrow> nat result" where
  "countIP conf behind =
     (let mem = read_buf conf 0 100 100 @ behind in
      bind_r (strlen mem) (\<lambda>n. Inr (length (filter (\<lambda>b. b = 10) (take n mem)))))"

text \<open>\<open>len\<close> is \<open>st_size\<close>.\<close>

definition startFile :: "int \<Rightarrow> int \<Rightarrow> int \<Rightarrow> int" where
  "startFile len index allnum = c_div len allnum * index"

definition endFile :: "int \<Rightarrow> int \<Rightarrow> int \<Rightarrow> int" where
  "endFile len index allnum = c_div len allnum * (index + 1) - 1"

definition endFileFinal :: "int \<Rightarrow> int" where
  "endFileFinal len = len"

record train =
  t_start :: int
  t_end :: int

text \<open>The task the loop of \<open>main\<close> makes for worker \<open>index\<close>.\<close>

definition task :: "int \<Rightarrow> nat \<Rightarrow> nat \<Rightarrow> train" where
  "task len IPnum index =
     \<lparr>t_start = startFile len (int index) (int IPnum),
      t_end = (if int index \<noteq> int IPnum - 1 then endFile len (int index) (int IPnum) else endFileFinal len)\<rparr>"

text \<open>
  What \<open>handle_client\<close> does to \<open>ans\<close> under the lock, with the answer it received. The counts are unbounded integers here; those of a
  file of fewer than \<open>2\<^sup>3\<^sup>1\<close> bytes fit the \<open>int\<close> of the code.
\<close>

definition handle_client :: "int list \<Rightarrow> int list \<Rightarrow> int list" where
  "handle_client table ans = map (\<lambda>i. ans ! i + table ! i) [0..<26]"

text \<open>
  The threads add their answers in any order. \<open>main\<close> waits for the last thread it created only; it
  prints \<open>ans\<close> in a state in which that one is done.
\<close>

inductive srv_reach :: "int list list \<Rightarrow> nat set \<Rightarrow> int list \<Rightarrow> bool" for replies where
  start: "srv_reach replies {} (replicate 26 0)"
| finish: "srv_reach replies D ans \<Longrightarrow> i < length replies \<Longrightarrow> i \<notin> D \<Longrightarrow>
    srv_reach replies (insert i D) (handle_client (replies ! i) ans)"

definition prints :: "int list list \<Rightarrow> nat set \<Rightarrow> int list \<Rightarrow> bool" where
  "prints replies D ans \<longleftrightarrow> srv_reach replies D ans \<and> length replies - 1 \<in> D"

section \<open>Counting\<close>

text \<open>The reference: how often the \<open>i\<close>-th letter occurs.\<close>

definition tally :: "bytes \<Rightarrow> nat \<Rightarrow> int" where
  "tally bs i = int (length (filter (\<lambda>b. letter_index b = Some i) bs))"

lemma tally_append: "tally (xs @ ys) i = tally xs i + tally ys i"
  by (simp add: tally_def)

lemma tally_Nil [simp]: "tally [] i = 0"
  by (simp add: tally_def)

lemma letter_index_less: "letter_index b = Some i \<Longrightarrow> i < 26"
  by (auto simp: letter_index_def Let_def split: if_splits)

lemma fold_count_byte:
  "length table = 26 \<Longrightarrow> fold count_byte bs table = map (\<lambda>i. table ! i + tally bs i) [0..<26]"
proof (induction bs arbitrary: table)
  case Nil
  then show ?case using map_nth [of table] by simp
next
  case (Cons b bs)
  have len: "length (count_byte b table) = 26"
    using Cons.prems by (simp add: count_byte_def split: option.split)
  have "count_byte b table ! i + tally bs i = table ! i + tally (b # bs) i" if "i < 26" for i
    using that Cons.prems letter_index_less [of b]
    by (cases "letter_index b") (auto simp: count_byte_def tally_def nth_list_update)
  then show ?case using Cons.IH [OF len] by simp
qed

lemma strlen_no_null:
  assumes "0 \<notin> set bs"
  shows "strlen (bs @ 0 # rest) = Inr (length bs)"
proof -
  have "takeWhile (\<lambda>b. b \<noteq> 0) (bs @ 0 # rest) = bs" using assms by (induction bs) auto
  then show ?thesis by (simp add: strlen_def Let_def)
qed

lemma strlen_overrun:
  assumes "0 \<notin> set bs"
  shows "strlen bs = Inl OutOfBounds"
proof -
  have "takeWhile (\<lambda>b. b \<noteq> 0) bs = bs" using assms by (induction bs) auto
  then show ?thesis unfolding strlen_def by (simp only: Let_def) simp
qed

lemma count_buf_ok:
  assumes "0 \<notin> set bs" and "length table = 26"
  shows "count_buf (bs @ 0 # rest) table = Inr (map (\<lambda>i. table ! i + tally bs i) [0..<26])"
  using assms by (simp add: count_buf_def strlen_no_null fold_count_byte)

definition part :: "bytes \<Rightarrow> nat \<Rightarrow> nat \<Rightarrow> bytes" where
  "part file a b = take (b - a) (drop a file)"

lemma part_append: "a \<le> b \<Longrightarrow> b \<le> c \<Longrightarrow> part file a c = part file a b @ part file b c"
proof -
  assume "a \<le> b" "b \<le> c"
  then have "take (c - a) (drop a file) = take (b - a) (drop a file) @ take (c - b) (drop (b - a) (drop a file))"
    by (metis (no_types, lifting) le_add_diff_inverse2 add.commute diff_add_assoc2 take_add)
  then show ?thesis using \<open>a \<le> b\<close> by (simp add: part_def)
qed

lemma part_same [simp]: "part file a a = []"
  by (simp add: part_def)

lemma set_part: "set (part file a b) \<subseteq> set file"
  by (auto simp: part_def dest: in_set_takeD in_set_dropD)

lemma count_read_ok:
  assumes "0 \<notin> set file" and "length table = 26"
  shows "count_buf (read_buf file pos n 1000 @ 0 # rest) table
    = Inr (map (\<lambda>i. table ! i + tally (part file pos (pos + n)) i) [0..<26])"
proof -
  let ?d = "take n (drop pos file)"
  have eq: "read_buf file pos n 1000 @ 0 # rest = ?d @ 0 # replicate (1000 - length ?d) 0 @ rest"
    by (simp add: read_buf_def Let_def replicate_app_Cons_same)
  have "0 \<notin> set ?d" using assms(1) by (auto dest: in_set_takeD in_set_dropD)
  moreover have "part file pos (pos + n) = ?d" by (simp add: part_def)
  ultimately show ?thesis unfolding eq using count_buf_ok [of ?d table] assms(2) by simp
qed

lemma calc_chunks_ok:
  assumes "0 \<notin> set file" and "length table = 26" and "pos + 1000 * num \<le> length file"
  shows "calc_chunks file (0 # rest) num pos table
    = Inr (pos + 1000 * num, map (\<lambda>i. table ! i + tally (part file pos (pos + 1000 * num)) i) [0..<26])"
  using assms(2,3)
proof (induction num arbitrary: pos table)
  case 0
  then show ?case using map_nth [of table] by (simp add: part_def)
next
  case (Suc num)
  let ?t = "map (\<lambda>i. table ! i + tally (part file pos (pos + 1000)) i) [0..<26]"
  have "part file pos (pos + 1000 * Suc num)
      = part file pos (pos + 1000) @ part file (pos + 1000) (pos + 1000 + 1000 * num)"
    using part_append [of pos "pos + 1000" "pos + 1000 * Suc num"] by (simp add: algebra_simps)
  moreover have "calc_chunks file (0 # rest) (Suc num) pos table = calc_chunks file (0 # rest) num (pos + 1000) ?t"
    using Suc.prems count_read_ok [OF assms(1) Suc.prems(1), of pos 1000 rest] by (simp add: algebra_simps)
  ultimately show ?case
    using Suc.IH [of ?t "pos + 1000"] Suc.prems by (simp add: tally_append algebra_simps)
qed

lemma c_div_nonneg: "0 \<le> a \<Longrightarrow> 0 < b \<Longrightarrow> c_div a b = a div b"
  by (cases "a = 0") (auto simp: c_div_def sgn_if)

text \<open>The worker counts the letters of \<open>[start, end)\<close>.\<close>

lemma calculate_ok:
  assumes nz: "0 \<notin> set file" and len: "length table = 26" and ab: "a \<le> b" "b \<le> length file"
  shows "calculate file (0 # rest) table (int a) (int b)
    = Inr (map (\<lambda>i. table ! i + tally (part file a b) i) [0..<26])"
proof -
  define k r where "k = (b - a) div 1000" and "r = (b - a) mod 1000"
  have split: "b = a + 1000 * k + r" using ab(1) by (simp add: k_def r_def)
  have div: "c_div (int b - int a) 1000 = int k"
    using ab(1) by (simp add: c_div_nonneg k_def zdiv_int of_nat_diff)
  have left: "int b - int a - int k * 1000 = int r" by (simp add: split)
  let ?t = "map (\<lambda>i. table ! i + tally (part file a (a + 1000 * k)) i) [0..<26]"
  have chunks: "calc_chunks file (0 # rest) k a table = Inr (a + 1000 * k, ?t)"
    by (rule calc_chunks_ok [OF nz len]) (use split ab(2) in simp)
  have whole: "part file a b = part file a (a + 1000 * k) @ part file (a + 1000 * k) (a + 1000 * k + r)"
    using part_append [of a "a + 1000 * k" b] split by simp
  show ?thesis
  proof (cases "r = 0")
    case True
    then have "int b - int a = int k * 1000" using left by simp
    then show ?thesis using True chunks div by (simp add: calculate_def Let_def whole tally_append)
  next
    case False
    then have "int k * 1000 < int b - int a" using left by linarith
    with False show ?thesis using chunks count_read_ok [OF nz, of ?t "a + 1000 * k" r rest]
      by (simp add: calculate_def div left Let_def whole tally_append)
  qed
qed

section \<open>Splitting the file\<close>

text \<open>The bytes no worker reads: the last byte of every part but the last.\<close>

definition boundary :: "bytes \<Rightarrow> nat \<Rightarrow> bytes" where
  "boundary file n = map (\<lambda>i. file ! (length file div n * (i + 1) - 1)) [0..<n - 1]"

definition worker_part :: "bytes \<Rightarrow> nat \<Rightarrow> nat \<Rightarrow> bytes" where
  "worker_part file n i =
     (let q = length file div n in part file (q * i) (if i \<noteq> n - 1 then q * (i + 1) - 1 else length file))"

lemma part_snoc:
  assumes "a < b" and "b \<le> length file"
  shows "part file a b = part file a (b - 1) @ [file ! (b - 1)]"
proof -
  have "part file (b - 1) b = [file ! (b - 1)]"
    using assms by (simp add: part_def take_Suc_conv_app_nth hd_drop_conv_nth)
  then show ?thesis using part_append [of a "b - 1" b] assms by simp
qed

lemma tally_take_parts:
  assumes q: "0 < q" and "q * k \<le> length file"
  shows "tally (part file 0 (q * k)) c
    = (\<Sum>i<k. tally (part file (q * i) (q * (i + 1) - 1)) c)
      + tally (map (\<lambda>i. file ! (q * (i + 1) - 1)) [0..<k]) c"
  using assms(2)
proof (induction k)
  case (Suc k)
  have "part file 0 (q * Suc k) = part file 0 (q * k) @ part file (q * k) (q * (k + 1))"
    using part_append [of 0 "q * k" "q * Suc k"] by simp
  moreover have "part file (q * k) (q * (k + 1)) = part file (q * k) (q * (k + 1) - 1) @ [file ! (q * (k + 1) - 1)]"
    by (rule part_snoc) (use q Suc.prems in auto)
  ultimately show ?case using Suc.IH Suc.prems by (simp add: tally_append)
qed simp

lemma tally_workers:
  assumes n: "0 < n" and q: "n \<le> length file"
  shows "tally file c = (\<Sum>i<n. tally (worker_part file n i) c) + tally (boundary file n) c"
proof -
  let ?q = "length file div n"
  have qpos: "0 < ?q" using assms by (simp add: div_greater_zero_iff)
  have le: "?q * (n - 1) \<le> length file"
    by (rule order.trans [of _ "?q * n"]) (simp_all add: div_times_less_eq_dividend)
  have "file = part file 0 (?q * (n - 1)) @ part file (?q * (n - 1)) (length file)"
    using part_append [of 0 "?q * (n - 1)" "length file"] le by (simp add: part_def)
  then have "tally file c = tally (part file 0 (?q * (n - 1))) c + tally (part file (?q * (n - 1)) (length file)) c"
    by (metis tally_append)
  also have "tally (part file 0 (?q * (n - 1))) c = (\<Sum>i<n - 1. tally (worker_part file n i) c) + tally (boundary file n) c"
    using tally_take_parts [OF qpos le, of c] by (simp add: worker_part_def boundary_def Let_def)
  also have "tally (part file (?q * (n - 1)) (length file)) c = tally (worker_part file n (n - 1)) c"
    by (simp add: worker_part_def Let_def)
  finally show ?thesis using n by (cases n) auto
qed

lemma worker_calculates:
  assumes nz: "0 \<notin> set file" and i: "i < n" and q: "n \<le> length file"
  shows "calculate file (0 # rest) (replicate 26 0) (t_start (task (int (length file)) n i))
      (t_end (task (int (length file)) n i)) = Inr (map (tally (worker_part file n i)) [0..<26])"
proof -
  let ?q = "length file div n"
  have qpos: "0 < ?q" using i q by (simp add: div_greater_zero_iff)
  have div: "c_div (int (length file)) (int n) = int ?q" using i by (simp add: c_div_nonneg zdiv_int)
  have le: "?q * (i + 1) \<le> length file"
    using i by (intro order.trans [OF mult_le_mono2 div_times_less_eq_dividend]) simp
  let ?b = "if i \<noteq> n - 1 then ?q * (i + 1) - 1 else length file"
  have "t_start (task (int (length file)) n i) = int (?q * i)"
    by (simp add: task_def startFile_def div)
  moreover have "t_end (task (int (length file)) n i) = int ?b"
    using qpos i by (auto simp: task_def endFile_def endFileFinal_def div of_nat_diff algebra_simps)
  moreover have "?q * i \<le> ?b" "?b \<le> length file" using qpos le by auto
  ultimately show ?thesis
    using calculate_ok [OF nz, of "replicate 26 0" "?q * i" ?b rest]
    by (simp add: worker_part_def Let_def)
qed

section \<open>Adding up the answers\<close>

lemma srv_reach_sum:
  assumes "srv_reach replies D ans"
  shows "finite D \<and> ans = map (\<lambda>k. \<Sum>i\<in>D. replies ! i ! k) [0..<26]"
  using assms
proof (induction rule: srv_reach.induct)
  case start
  then show ?case by (simp add: map_replicate_const)
next
  case (finish D ans i)
  then show ?case by (simp add: handle_client_def add.commute)
qed

lemma srv_reach_all: "n \<le> length replies \<Longrightarrow> \<exists>ans. srv_reach replies {..<n} ans"
proof (induction n)
  case 0
  then show ?case using srv_reach.start by auto
next
  case (Suc n)
  then show ?case using srv_reach.finish [of replies "{..<n}" _ n] by (auto simp: lessThan_Suc)
qed

section \<open>Properties\<close>

text \<open>The whole computation, with the tasks and answers as they were sent: when the file has no null byte, has at least as many bytes as there are workers, a
  null byte happens to follow the workers' buffers, and all threads have added their answer, the
  printed counts are those of the file without the last byte of every part but the last. The server
  sends inclusive ends and the workers read them as exclusive ones.\<close>

theorem letter_count_total:
  assumes nz: "0 \<notin> set file" and n: "0 < n" and q: "n \<le> length file"
    and replies: "length replies = n"
      "\<forall>i<n. calculate file (0 # rest) (replicate 26 0) (t_start (task (int (length file)) n i))
         (t_end (task (int (length file)) n i)) = Inr (replies ! i)"
    and pr: "prints replies {..<n} ans" and c: "c < 26"
  shows "ans ! c + tally (boundary file n) c = tally file c"
proof -
  have "replies ! i ! c = tally (worker_part file n i) c" if "i < n" for i
    using worker_calculates [OF nz that q, of rest] replies(2) that c by auto
  then have "(\<Sum>i<n. replies ! i ! c) = (\<Sum>i<n. tally (worker_part file n i) c)" by simp
  moreover have "ans ! c = (\<Sum>i<n. replies ! i ! c)"
    using pr srv_reach_sum [of replies "{..<n}" ans] c by (simp add: prints_def)
  ultimately show ?thesis using tally_workers [OF n q, of c] by simp
qed

definition demo_file :: bytes where
  "demo_file = [65, 98, 67, 97, 32, 66]"

definition demo_replies :: "int list list" where
  "demo_replies = [[1, 1] @ replicate 24 0, [1, 1] @ replicate 24 0]"

lemma demo_file_run:
  "calculate demo_file [0] (replicate 26 0) 0 2 = Inr (demo_replies ! 0)"
  "calculate demo_file [0] (replicate 26 0) 3 6 = Inr (demo_replies ! 1)"
proof -
  have t: "task 6 2 0 = \<lparr>t_start = 0, t_end = 2\<rparr>" "task 6 2 (Suc 0) = \<lparr>t_start = 3, t_end = 6\<rparr>"
    by (simp_all add: task_def startFile_def endFile_def endFileFinal_def c_div_def)
  have w: "map (tally (worker_part demo_file 2 0)) [0..<26] = demo_replies ! 0"
    "map (tally (worker_part demo_file 2 1)) [0..<26] = demo_replies ! 1"
    by code_simp+
  show "calculate demo_file [0] (replicate 26 0) 0 2 = Inr (demo_replies ! 0)"
    using worker_calculates [of demo_file 0 2 "[]"] t w by (simp add: demo_file_def)
  show "calculate demo_file [0] (replicate 26 0) 3 6 = Inr (demo_replies ! 1)"
    using worker_calculates [of demo_file 1 2 "[]"] t w by (simp add: demo_file_def)
qed

theorem letter_count_total_witness:
  "\<exists>ans. prints demo_replies {..<2} ans \<and> ans ! 2 + tally (boundary demo_file 2) 2 = tally demo_file 2
     \<and> tally (boundary demo_file 2) 2 = 1"
proof -
  have two: "length demo_replies = 2" by (simp add: demo_replies_def)
  obtain ans where ans: "prints demo_replies {..<2} ans"
    using srv_reach_all [of 2 demo_replies] two by (auto simp: prints_def)
  have "\<forall>i<2. calculate demo_file (0 # []) (replicate 26 0) (t_start (task (int (length demo_file)) 2 i))
         (t_end (task (int (length demo_file)) 2 i)) = Inr (demo_replies ! i)"
    using demo_file_run
    by (auto simp: less_2_cases_iff demo_file_def task_def startFile_def endFile_def endFileFinal_def c_div_def)
  then have "ans ! 2 + tally (boundary demo_file 2) 2 = tally demo_file 2"
    by (intro letter_count_total [OF _ _ _ two _ ans]) (simp_all add: demo_file_def)
  moreover have "tally (boundary demo_file 2) 2 = 1" by code_simp
  ultimately show ?thesis using ans by blast
qed

text \<open>One worker: \<open>calculate\<close> adds the letters of the bytes from \<open>start\<close> up to but not including \<open>end\<close> to its
  table, chunk by chunk, when the byte behind its buffer is a null byte.\<close>

theorem calculate_counts_part:
  assumes "0 \<notin> set file" and "length table = 26" and "a \<le> b" and "b \<le> length file"
  shows "calculate file (0 # rest) table (int a) (int b)
    = Inr (map (\<lambda>i. table ! i + tally (take (b - a) (drop a file)) i) [0..<26])"
  using calculate_ok [OF assms] by (simp add: part_def)

theorem calculate_counts_part_witness:
  "calculate (replicate 2500 97) (0 # []) (replicate 26 0) (int 100) (int 2400)
     = Inr (map (\<lambda>i. replicate 26 0 ! i + tally (take (2400 - 100) (drop 100 (replicate 2500 97))) i) [0..<26])"
  by (rule calculate_counts_part) simp_all

text \<open>C40. A part of 1000 bytes or more makes \<open>strlen\<close> run over the end of the worker's buffer, which a full
  read leaves without a null byte.\<close>

theorem calculate_overreads:
  assumes "0 \<notin> set file" and "a + 1000 \<le> b" and "b \<le> length file"
  shows "calculate file [] table (int a) (int b) = Inl OutOfBounds"
proof -
  have "0 < (b - a) div 1000" using assms(2) by (simp add: div_greater_zero_iff)
  then obtain k where k: "(b - a) div 1000 = Suc k" using gr0_implies_Suc by blast
  have eq: "int b - int a = int (b - a)" using assms(2) by simp
  have "c_div (int b - int a) 1000 = int (Suc k)"
    unfolding eq k [symmetric] by (subst c_div_nonneg) (simp_all add: zdiv_int)
  moreover have "0 \<notin> set (read_buf file a 1000 1000)"
    using assms by (auto simp: read_buf_def Let_def dest: in_set_takeD in_set_dropD)
  then have "count_buf (read_buf file a 1000 1000) table = Inl OutOfBounds"
    by (simp add: count_buf_def strlen_overrun)
  ultimately show ?thesis by (simp add: calculate_def Let_def nat_int del: of_nat_Suc)
qed

theorem calculate_overreads_witness:
  "calculate (replicate 1500 97) [] (replicate 26 0) (int 0) (int 1500) = Inl OutOfBounds"
  by (rule calculate_overreads) simp_all

text \<open>What \<open>main\<close> prints is the sum of the answers of the threads that are done, in whatever
  order they finished; only the last thread is sure to be among them, and a run that prints its answer alone is
  possible.\<close>

theorem server_prints_partial_sum:
  assumes "replies \<noteq> []" and "prints replies D ans"
  shows "ans = map (\<lambda>k. \<Sum>i\<in>D. replies ! i ! k) [0..<26] \<and> length replies - 1 \<in> D
    \<and> (\<exists>few. prints replies {length replies - 1} few \<and> few = map (\<lambda>k. last replies ! k) [0..<26])"
proof -
  let ?l = "length replies - 1"
  have "srv_reach replies {?l} (handle_client (replies ! ?l) (replicate 26 0))"
    using srv_reach.finish [OF srv_reach.start, of ?l] assms(1) by simp
  moreover have "handle_client (replies ! ?l) (replicate 26 0) = map (\<lambda>k. last replies ! k) [0..<26]"
    using assms(1) by (simp add: handle_client_def last_conv_nth)
  ultimately show ?thesis using assms(2) srv_reach_sum [of replies D ans] by (auto simp: prints_def)
qed

theorem server_prints_partial_sum_witness:
  "\<exists>few. prints demo_replies {1} few \<and> few ! 0 = 1"
proof -
  obtain ans where "prints demo_replies {..<2} ans"
    using srv_reach_all [of 2 demo_replies] by (auto simp: prints_def demo_replies_def)
  then show ?thesis
    using server_prints_partial_sum [of demo_replies "{..<2}" ans] by (auto simp: demo_replies_def)
qed

end
