(* ===== verification/LetterSocket.thy ===== *)
theory LetterSocket
  imports LetterCount
begin

text \<open>
  The conversation of the letter count over a stream socket: \<open>handle_client\<close> of
  \<^verbatim>\<open>server.c\<close> and \<open>main\<close> of \<^verbatim>\<open>client.c\<close>, one call of the socket
  interface at a time. The two directions of the connection are byte streams: \<open>send\<close> appends, \<open>recv\<close> takes
  at least one and at most the requested number of the bytes in flight, whatever the messages were, and
  waits when there are none. The code ignores the numbers \<open>recv\<close> returns; the model records them to
  state the theorems.
\<close>

section \<open>Integers in memory\<close>

text \<open>The little-endian bytes of an integer, and the value of bytes in memory as \<open>int\<close> or \<open>long\<close>.\<close>

primrec le_bytes :: "nat \<Rightarrow> int \<Rightarrow> bytes" where
  "le_bytes 0 x = []"
| "le_bytes (Suc n) x = word_of_int x # le_bytes n (drop_bit 8 x)"

primrec le_value :: "bytes \<Rightarrow> int" where
  "le_value [] = 0"
| "le_value (b # bs) = uint b + 256 * le_value bs"

definition load_long :: "bytes \<Rightarrow> int" where
  "load_long bs = signed_take_bit 63 (le_value bs)"

definition load_int :: "bytes \<Rightarrow> int" where
  "load_int bs = signed_take_bit 31 (le_value bs)"

definition table_bytes :: "int list \<Rightarrow> bytes" where
  "table_bytes table = concat (map (le_bytes 4) table)"

definition bytes_table :: "bytes \<Rightarrow> int list" where
  "bytes_table mem = map (\<lambda>i. load_int (take 4 (drop (4 * i) mem))) [0..<26]"

text \<open>Writing bytes over the beginning of an object.\<close>

definition overlay :: "bytes \<Rightarrow> bytes \<Rightarrow> bytes" where
  "overlay data mem = data @ drop (length data) mem"

section \<open>The socket\<close>

text \<open>\<open>recv\<close> of at most \<open>n\<close> bytes when \<open>Suc k\<close> have arrived: \<open>None\<close> is a call that waits.\<close>

definition sock_recv :: "nat \<Rightarrow> nat \<Rightarrow> bool \<Rightarrow> bytes \<Rightarrow> (bytes \<times> bytes) option" where
  "sock_recv k n closed chan =
     (if chan = [] then (if closed then Some ([], []) else None)
      else Some (take (min (Suc k) n) chan, drop (min (Suc k) n) chan))"

section \<open>The conversation\<close>

datatype srv_pc = SendName | SendStart | SendEnd | RecvTable | SrvDone

datatype cli_pc = RecvName | RecvStart | RecvEnd | CountLetters | CliDone | CliCrashed c_error

record session =
  to_client :: bytes
  to_server :: bytes
  srv_at :: srv_pc
  srv_table :: bytes
  srv_got :: nat
  cli_at :: cli_pc
  cli_buf :: bytes
  cli_start :: bytes
  cli_end :: bytes
  cli_got :: "nat list"

text \<open>The socket of a client that ended or crashed is closed.\<close>

fun cli_closed :: "cli_pc \<Rightarrow> bool" where
  "cli_closed CliDone = True"
| "cli_closed (CliCrashed e) = True"
| "cli_closed _ = False"

text \<open>\<open>"../war_and_peace.txt"\<close>, sent without its null byte.\<close>

definition filename :: bytes where
  "filename = map (\<lambda>c. of_char c) ''../war_and_peace.txt''"

text \<open>
  \<open>handle_client\<close> up to the addition of the answer. When \<open>ok\<close> is false the \<open>send\<close> fails; the code
  goes on.
\<close>

definition server_step :: "train \<Rightarrow> bool \<Rightarrow> nat \<Rightarrow> session \<Rightarrow> session option" where
  "server_step t ok k s =
     (let msg = (\<lambda>data. if ok then to_client s @ data else to_client s) in
      case srv_at s of
        SendName \<Rightarrow> Some (s\<lparr>to_client := msg filename, srv_at := SendStart\<rparr>)
      | SendStart \<Rightarrow> Some (s\<lparr>to_client := msg (le_bytes 8 (t_start t)), srv_at := SendEnd\<rparr>)
      | SendEnd \<Rightarrow> Some (s\<lparr>to_client := msg (le_bytes 8 (t_end t)), srv_at := RecvTable\<rparr>)
      | RecvTable \<Rightarrow>
          (case sock_recv k 104 (cli_closed (cli_at s)) (to_server s) of
             None \<Rightarrow> None
           | Some (data, rest) \<Rightarrow> Some (s\<lparr>to_server := rest, srv_table := overlay data (srv_table s),
               srv_got := length data, srv_at := SrvDone\<rparr>))
      | SrvDone \<Rightarrow> None)"

text \<open>
  \<open>main\<close> of the client. \<open>fs\<close> gives the bytes of a file (none when it cannot be opened), \<open>past\<close> is the memory
  behind the name buffer, \<open>behind\<close> the memory behind the buffer of \<open>calculate\<close>. The name is the buffer up
  to its first null byte.
\<close>

definition client_step :: "(bytes \<Rightarrow> bytes) \<Rightarrow> bytes \<Rightarrow> bytes \<Rightarrow> bool \<Rightarrow> nat \<Rightarrow> session \<Rightarrow> session option" where
  "client_step fs past behind ok k s =
     (let arrive = (\<lambda>n f. case sock_recv k n (srv_at s = SrvDone) (to_client s) of
            None \<Rightarrow> None
          | Some (data, rest) \<Rightarrow> Some (f data (s\<lparr>to_client := rest, cli_got := cli_got s @ [length data]\<rparr>))) in
      case cli_at s of
        RecvName \<Rightarrow> arrive 1000 (\<lambda>data s.
          let buf = overlay data (cli_buf s) in
          case strlen (buf @ past) of
            Inl e \<Rightarrow> s\<lparr>cli_buf := buf, cli_at := CliCrashed e\<rparr>
          | Inr n \<Rightarrow> s\<lparr>cli_buf := buf, cli_at := RecvStart\<rparr>)
      | RecvStart \<Rightarrow> arrive 8 (\<lambda>data s. s\<lparr>cli_start := overlay data (cli_start s), cli_at := RecvEnd\<rparr>)
      | RecvEnd \<Rightarrow> arrive 8 (\<lambda>data s. s\<lparr>cli_end := overlay data (cli_end s), cli_at := CountLetters\<rparr>)
      | CountLetters \<Rightarrow>
          Some (case bind_r (strlen (cli_buf s @ past)) (\<lambda>n.
                  calculate (fs (take n (cli_buf s @ past))) behind (replicate 26 0)
                    (load_long (cli_start s)) (load_long (cli_end s))) of
            Inl e \<Rightarrow> s\<lparr>cli_at := CliCrashed e\<rparr>
          | Inr table \<Rightarrow> s\<lparr>to_server := (if ok then to_server s @ table_bytes table else to_server s), cli_at := CliDone\<rparr>)
      | CliDone \<Rightarrow> None
      | CliCrashed e \<Rightarrow> None)"

text \<open>
  The start: \<open>bzero(buf, sizeof(1000))\<close> clears the four bytes of an \<open>int\<close>; the rest of the name buffer and the
  server's table are what the stacks held.
\<close>

definition sess_start :: "bytes \<Rightarrow> bytes \<Rightarrow> session" where
  "sess_start stack table =
     \<lparr>to_client = [], to_server = [], srv_at = SendName, srv_table = table, srv_got = 0,
      cli_at = RecvName, cli_buf = overlay (replicate 4 0) stack,
      cli_start = le_bytes 8 0, cli_end = le_bytes 8 0, cli_got = []\<rparr>"

inductive sess_step :: "train \<Rightarrow> (bytes \<Rightarrow> bytes) \<Rightarrow> bytes \<Rightarrow> bytes \<Rightarrow> session \<Rightarrow> session \<Rightarrow> bool"
  for t fs past behind where
  server: "server_step t ok k s = Some s' \<Longrightarrow> sess_step t fs past behind s s'"
| client: "client_step fs past behind ok k s = Some s' \<Longrightarrow> sess_step t fs past behind s s'"

inductive_cases sess_stepE: "sess_step t fs past behind s s'"

section \<open>The two main functions\<close>

text \<open>
  \<open>main\<close> of the client: a failing \<open>socket\<close> is only reported, but the \<open>connect\<close> that follows fails on the
  descriptor \<open>-1\<close>. \<open>Inl\<close> is the value \<open>main\<close> returns without a conversation.
\<close>

definition client_main :: "int \<Rightarrow> bool \<Rightarrow> bytes \<Rightarrow> bytes \<Rightarrow> int + session" where
  "client_main sfd connect_ok stack table =
     (if sfd = - 1 \<or> \<not> connect_ok then Inl 1 else Inr (sess_start stack table))"

text \<open>
  The loop of the server's \<open>main\<close>: the list holds what \<open>accept\<close> returns; when it is used up, \<open>main\<close> waits (\<open>None\<close>). The
  result is the value \<open>main\<close> returns on a failing \<open>accept\<close>, or the descriptors and tasks of the threads.
\<close>

fun accept_loop :: "int \<Rightarrow> nat \<Rightarrow> nat \<Rightarrow> int list \<Rightarrow> (int \<times> train) list \<Rightarrow> (int + (int \<times> train) list) option" where
  "accept_loop len IPnum index [] ts = (if index < IPnum then None else Some (Inr ts))"
| "accept_loop len IPnum index (newfd # answers) ts =
     (if index < IPnum then
        if newfd = - 1 then Some (Inl 1)
        else accept_loop len IPnum (index + 1) answers (ts @ [(newfd, task len IPnum index)])
      else Some (Inr ts))"

text \<open>\<open>pthread_join\<close> takes \<open>cli_thread[IPnum - 1]\<close>, which is outside the array when there is no worker.\<close>

definition server_main :: "int \<Rightarrow> bool \<Rightarrow> bytes \<Rightarrow> bytes \<Rightarrow> int \<Rightarrow> int list \<Rightarrow> (int + (int \<times> train) list) result option" where
  "server_main sfd bind_ok conf behind len answers =
     (if sfd < 0 then Some (Inr (Inl (- 1)))
      else if \<not> bind_ok then Some (Inr (Inl (- 1)))
      else case countIP conf behind of
        Inl e \<Rightarrow> Some (Inl e)
      | Inr IPnum \<Rightarrow>
          (case accept_loop len IPnum 0 answers [] of
             None \<Rightarrow> None
           | Some (Inl r) \<Rightarrow> Some (Inr (Inl r))
           | Some (Inr ts) \<Rightarrow> if IPnum = 0 then Some (Inl OutOfBounds) else Some (Inr (Inr ts))))"

section \<open>Integers in memory: lemmas\<close>

lemma length_le_bytes [simp]: "length (le_bytes n x) = n"
  by (induction n arbitrary: x) simp_all

lemma le_value_bytes: "le_value (le_bytes n x) = take_bit (8 * n) x"
proof (induction n arbitrary: x)
  case (Suc n)
  have "take_bit (8 * Suc n) x = take_bit 8 x + push_bit 8 (take_bit (8 * n) (drop_bit 8 x))"
    using bits_ident [of 8 "take_bit (8 * Suc n) x"] by (simp add: drop_bit_take_bit add.commute)
  then show ?case using Suc by (simp add: unsigned_of_int push_bit_eq_mult)
qed simp

lemma load_long_bytes: "- (2 ^ 63) \<le> x \<Longrightarrow> x < 2 ^ 63 \<Longrightarrow> load_long (le_bytes 8 x) = x"
  by (simp add: load_long_def le_value_bytes signed_take_bit_take_bit signed_take_bit_int_eq_self)

lemma length_table_bytes: "length (table_bytes table) = 4 * length table"
  by (induction table) (simp_all add: table_bytes_def)

lemma take_drop_table:
  "i < length table \<Longrightarrow> take 4 (drop (4 * i) (table_bytes table)) = le_bytes 4 (table ! i)"
proof (induction table arbitrary: i)
  case (Cons x table)
  then show ?case by (cases i) (simp_all add: table_bytes_def)
qed simp

section \<open>Every session ends\<close>

text \<open>The calls that are left.\<close>

fun srv_left :: "srv_pc \<Rightarrow> nat" where
  "srv_left SendName = 4" | "srv_left SendStart = 3" | "srv_left SendEnd = 2" | "srv_left RecvTable = 1" | "srv_left SrvDone = 0"

fun cli_left :: "cli_pc \<Rightarrow> nat" where
  "cli_left RecvName = 4" | "cli_left RecvStart = 3" | "cli_left RecvEnd = 2" | "cli_left CountLetters = 1"
| "cli_left CliDone = 0" | "cli_left (CliCrashed e) = 0"

abbreviation calls_left :: "session \<Rightarrow> nat" where
  "calls_left s \<equiv> srv_left (srv_at s) + cli_left (cli_at s)"

lemma server_step_left: "server_step t ok k s = Some s' \<Longrightarrow> calls_left s' < calls_left s"
  by (auto simp: server_step_def Let_def split: srv_pc.splits option.splits)

lemma client_step_left: "client_step fs past behind ok k s = Some s' \<Longrightarrow> calls_left s' < calls_left s"
  by (auto simp: client_step_def Let_def split: cli_pc.splits option.splits sum.splits)

lemma sess_step_left: "sess_step t fs past behind s s' \<Longrightarrow> calls_left s' < calls_left s"
  by (auto elim!: sess_stepE dest: server_step_left client_step_left)

lemma sess_steps_left: "(sess_step t fs past behind ^^ n) s s' \<Longrightarrow> calls_left s' + n \<le> calls_left s"
proof (induction n arbitrary: s')
  case (Suc n)
  then obtain y where "(sess_step t fs past behind ^^ n) s y" "sess_step t fs past behind y s'" by auto
  then show ?case using Suc.IH sess_step_left by fastforce
qed simp

text \<open>Where a session can stop.\<close>

definition both_ended :: "session \<Rightarrow> bool" where
  "both_ended s \<longleftrightarrow> srv_at s = SrvDone \<and> cli_closed (cli_at s)"

definition both_wait :: "session \<Rightarrow> bool" where
  "both_wait s \<longleftrightarrow> srv_at s = RecvTable \<and> cli_at s \<in> {RecvName, RecvStart, RecvEnd} \<and> to_client s = [] \<and> to_server s = []"

lemma server_step_None:
  "server_step t ok k s = None \<longleftrightarrow> srv_at s = SrvDone \<or> srv_at s = RecvTable \<and> to_server s = [] \<and> \<not> cli_closed (cli_at s)"
  by (auto simp: server_step_def Let_def sock_recv_def split: srv_pc.splits option.splits if_splits)

lemma client_step_None:
  "client_step fs past behind ok k s = None \<longleftrightarrow>
     cli_closed (cli_at s) \<or> cli_at s \<in> {RecvName, RecvStart, RecvEnd} \<and> to_client s = [] \<and> srv_at s \<noteq> SrvDone"
  by (auto simp: client_step_def Let_def sock_recv_def split: cli_pc.splits option.splits sum.splits if_splits)

lemma no_step_iff: "(\<nexists>s'. sess_step t fs past behind s s') \<longleftrightarrow> both_ended s \<or> both_wait s"
proof -
  have "(\<nexists>s'. sess_step t fs past behind s s')
    \<longleftrightarrow> (\<forall>ok k. server_step t ok k s = None) \<and> (\<forall>ok k. client_step fs past behind ok k s = None)"
    by (auto elim!: sess_stepE intro: sess_step.intros) (metis not_None_eq sess_step.intros)+
  also have "\<dots> \<longleftrightarrow> both_ended s \<or> both_wait s"
    by (auto simp: server_step_None client_step_None both_ended_def both_wait_def)
  finally show ?thesis .
qed

section \<open>What the two sides have read\<close>

text \<open>The streams the server may have sent when it has come to a call.\<close>

fun sent_set :: "train \<Rightarrow> srv_pc \<Rightarrow> bytes set" where
  "sent_set t SendName = {[]}"
| "sent_set t SendStart = {[], filename}"
| "sent_set t SendEnd = {x @ y |x y. x \<in> {[], filename} \<and> y \<in> {[], le_bytes 8 (t_start t)}}"
| "sent_set t _ = {x @ y @ z |x y z. x \<in> {[], filename} \<and> y \<in> {[], le_bytes 8 (t_start t)} \<and> z \<in> {[], le_bytes 8 (t_end t)}}"

declare sent_set.simps [simp del]

lemma length_filename: "length filename = 20"
  by (simp add: filename_def)

lemma sent_set_send:
  "sent \<in> sent_set t SendName \<Longrightarrow> m \<in> {[], filename} \<Longrightarrow> sent @ m \<in> sent_set t SendStart"
  "sent \<in> sent_set t SendStart \<Longrightarrow> m \<in> {[], le_bytes 8 (t_start t)} \<Longrightarrow> sent @ m \<in> sent_set t SendEnd"
  "sent \<in> sent_set t SendEnd \<Longrightarrow> m \<in> {[], le_bytes 8 (t_end t)} \<Longrightarrow> sent @ m \<in> sent_set t RecvTable"
proof -
  show "sent @ m \<in> sent_set t SendStart" if "sent \<in> sent_set t SendName" "m \<in> {[], filename}"
    using that by (auto simp: sent_set.simps)
  show "sent @ m \<in> sent_set t SendEnd" if "sent \<in> sent_set t SendStart" "m \<in> {[], le_bytes 8 (t_start t)}"
    using that unfolding sent_set.simps by blast
  show "sent @ m \<in> sent_set t RecvTable" if "sent \<in> sent_set t SendEnd" "m \<in> {[], le_bytes 8 (t_end t)}"
    using that unfolding sent_set.simps by (smt (verit) append_assoc mem_Collect_eq)
qed

lemma sent_set_full:
  "sent \<in> sent_set t pc \<Longrightarrow> length sent = 36 \<Longrightarrow> sent = filename @ le_bytes 8 (t_start t) @ le_bytes 8 (t_end t)"
  by (cases pc) (auto simp: sent_set.simps length_filename)

fun reads_done :: "cli_pc \<Rightarrow> nat" where
  "reads_done RecvName = 0" | "reads_done RecvStart = 1" | "reads_done RecvEnd = 2" | "reads_done _ = 3"

text \<open>The objects of the client hold the pieces of the stream that its calls took.\<close>

definition read_inv :: "bytes \<Rightarrow> bytes \<Rightarrow> session \<Rightarrow> bool" where
  "read_inv buf0 sent s \<longleftrightarrow> (let g = cli_got s; z = le_bytes 8 0 in
     length g = reads_done (cli_at s) \<and> sum_list g \<le> length sent \<and> to_client s = drop (sum_list g) sent
     \<and> cli_buf s = (if 0 < length g then overlay (take (g ! 0) sent) buf0 else buf0)
     \<and> cli_start s = (if 1 < length g then overlay (take (g ! 1) (drop (g ! 0) sent)) z else z)
     \<and> cli_end s = (if 2 < length g then overlay (take (g ! 2) (drop (g ! 0 + g ! 1) sent)) z else z))"

text \<open>What the client computes from its objects, and what the server has of the answer.\<close>

definition client_result :: "(bytes \<Rightarrow> bytes) \<Rightarrow> bytes \<Rightarrow> bytes \<Rightarrow> session \<Rightarrow> int list result" where
  "client_result fs past behind s = bind_r (strlen (cli_buf s @ past)) (\<lambda>n.
     calculate (fs (take n (cli_buf s @ past))) behind (replicate 26 0) (load_long (cli_start s)) (load_long (cli_end s)))"

definition answer_inv :: "(bytes \<Rightarrow> bytes) \<Rightarrow> bytes \<Rightarrow> bytes \<Rightarrow> bytes \<Rightarrow> session \<Rightarrow> bool" where
  "answer_inv fs past behind table0 s \<longleftrightarrow>
     (\<exists>answer. (if cli_at s = CliDone then answer = [] \<or> (\<exists>table. client_result fs past behind s = Inr table \<and> answer = table_bytes table)
               else answer = [] \<and> srv_at s \<noteq> SrvDone)
       \<and> (if srv_at s = SrvDone then srv_got s \<le> length answer \<and> srv_table s = overlay (take (srv_got s) answer) table0
          else to_server s = answer \<and> srv_table s = table0))"

definition sess_inv :: "train \<Rightarrow> (bytes \<Rightarrow> bytes) \<Rightarrow> bytes \<Rightarrow> bytes \<Rightarrow> bytes \<Rightarrow> bytes \<Rightarrow> session \<Rightarrow> bool" where
  "sess_inv t fs past behind buf0 table0 s \<longleftrightarrow> (\<exists>e. cli_at s = CliCrashed e)
     \<or> (\<exists>sent \<in> sent_set t (srv_at s). read_inv buf0 sent s) \<and> answer_inv fs past behind table0 s"

lemma read_inv_more:
  assumes "read_inv buf0 sent s"
  shows "read_inv buf0 (sent @ m) (s\<lparr>to_client := to_client s @ m, srv_at := pc\<rparr>)"
    "read_inv buf0 sent (s\<lparr>srv_at := pc\<rparr>)"
proof -
  have "length (cli_got s) = reads_done (cli_at s)" using assms by (simp add: read_inv_def Let_def)
  then consider "cli_got s = []" | a where "cli_got s = [a]" | a b where "cli_got s = [a, b]"
    | a b c where "cli_got s = [a, b, c]"
    by (cases "cli_at s") (auto simp: eval_nat_numeral length_Suc_conv)
  then show "read_inv buf0 (sent @ m) (s\<lparr>to_client := to_client s @ m, srv_at := pc\<rparr>)"
    using assms by cases (auto simp: read_inv_def Let_def)
  show "read_inv buf0 sent (s\<lparr>srv_at := pc\<rparr>)" using assms by (simp add: read_inv_def)
qed

lemma sock_recv_splits: "sock_recv k n closed chan = Some (data, rest) \<Longrightarrow> chan = data @ rest"
  by (auto simp: sock_recv_def split: if_splits)

lemma server_sends:
  assumes "server_step t ok k s = Some s'" and "srv_at s \<noteq> RecvTable" and "sent \<in> sent_set t (srv_at s)"
  shows "\<exists>m pc. s' = s\<lparr>to_client := to_client s @ m, srv_at := pc\<rparr> \<and> sent @ m \<in> sent_set t pc
    \<and> pc \<noteq> SrvDone \<and> srv_at s \<noteq> SrvDone"
proof -
  have "\<exists>m. s' = s\<lparr>to_client := to_client s @ m, srv_at := pc\<rparr> \<and> sent @ m \<in> sent_set t pc"
    if "s' = s\<lparr>to_client := (if ok then to_client s @ data else to_client s), srv_at := pc\<rparr>"
      "\<And>m. m \<in> {[], data} \<Longrightarrow> sent @ m \<in> sent_set t pc" for data pc
    using that by (intro exI [of _ "if ok then data else []"]) simp
  from this [of SendStart filename] this [of SendEnd "le_bytes 8 (t_start t)"] this [of RecvTable "le_bytes 8 (t_end t)"]
  show ?thesis
    using assms sent_set_send [of sent t] by (cases "srv_at s") (auto simp: server_step_def)
qed

lemma server_step_inv:
  assumes "sess_inv t fs past behind buf0 table0 s" and "server_step t ok k s = Some s'"
  shows "sess_inv t fs past behind buf0 table0 s'"
proof (cases "\<exists>e. cli_at s = CliCrashed e")
  case True
  then show ?thesis using assms(2)
    by (auto simp: sess_inv_def server_step_def Let_def split: srv_pc.splits option.splits)
next
  case False
  then obtain sent where sent: "sent \<in> sent_set t (srv_at s)" "read_inv buf0 sent s" and ans: "answer_inv fs past behind table0 s"
    using assms(1) by (auto simp: sess_inv_def)
  show ?thesis
  proof (cases "srv_at s = RecvTable")
    case True
    then obtain data rest where r: "sock_recv k 104 (cli_closed (cli_at s)) (to_server s) = Some (data, rest)"
      and s': "s' = s\<lparr>to_server := rest, srv_table := overlay data (srv_table s), srv_got := length data, srv_at := SrvDone\<rparr>"
      using assms(2) by (auto simp: server_step_def split: option.splits)
    have "data = take (length data) (to_server s)" "length data \<le> length (to_server s)"
      using sock_recv_splits [OF r] by simp_all
    moreover have "cli_at s = CliDone"
      using r False ans True by (cases "cli_at s") (auto simp: sock_recv_def answer_inv_def split: if_splits)
    ultimately have "answer_inv fs past behind table0 s'"
      using ans True s' by (auto simp: answer_inv_def client_result_def)
    moreover have "read_inv buf0 sent s'" using sent(2) s' by (simp add: read_inv_def)
    moreover have "sent \<in> sent_set t (srv_at s')" using sent(1) s' True by (simp add: sent_set.simps)
    ultimately show ?thesis by (auto simp: sess_inv_def)
  next
    case nr: False
    then obtain m pc where s': "s' = s\<lparr>to_client := to_client s @ m, srv_at := pc\<rparr>" "sent @ m \<in> sent_set t pc" "pc \<noteq> SrvDone"
      "srv_at s \<noteq> SrvDone"
      using assms(2) sent(1) by (blast dest: server_sends)
    have "answer_inv fs past behind table0 s'"
      using ans s' by (auto simp: answer_inv_def client_result_def)
    then show ?thesis using s' sent(2) read_inv_more(1) [OF sent(2), of m pc] by (auto simp: sess_inv_def)
  qed
qed

text \<open>One more piece of the stream for the client.\<close>

lemma client_read_inv:
  assumes inv: "read_inv buf0 sent s" and r: "sock_recv k n closed (to_client s) = Some (data, rest)"
    and pc: "cli_at s = RecvName \<and> s' = s\<lparr>to_client := rest, cli_got := cli_got s @ [length data], cli_buf := overlay data (cli_buf s), cli_at := RecvStart\<rparr>
      \<or> cli_at s = RecvStart \<and> s' = s\<lparr>to_client := rest, cli_got := cli_got s @ [length data], cli_start := overlay data (cli_start s), cli_at := RecvEnd\<rparr>
      \<or> cli_at s = RecvEnd \<and> s' = s\<lparr>to_client := rest, cli_got := cli_got s @ [length data], cli_end := overlay data (cli_end s), cli_at := CountLetters\<rparr>"
  shows "read_inv buf0 sent s'"
proof -
  let ?G = "sum_list (cli_got s)"
  have chan: "drop ?G sent = data @ rest" and le: "?G \<le> length sent"
    using inv sock_recv_splits [OF r] by (simp_all add: read_inv_def Let_def)
  have len: "?G + length data \<le> length sent" using arg_cong [OF chan, of length] le by simp
  have data: "data = take (length data) (drop ?G sent)" by (simp add: chan)
  have "rest = drop (length data) (drop ?G sent)" by (simp add: chan)
  then have rest: "rest = drop (?G + length data) sent" by (simp add: add.commute)
  have got: "length (cli_got s) = reads_done (cli_at s)" using inv by (simp add: read_inv_def Let_def)
  consider "cli_at s = RecvName" "cli_got s = []" | a where "cli_at s = RecvStart" "cli_got s = [a]"
    | a b where "cli_at s = RecvEnd" "cli_got s = [a, b]"
    using got pc by (auto simp: numeral_2_eq_2 length_Suc_conv)
  then show ?thesis
    using inv pc len rest data by cases (auto simp: read_inv_def Let_def add.assoc)
qed

lemma client_step_inv:
  assumes inv: "sess_inv t fs past behind buf0 table0 s" and step: "client_step fs past behind ok k s = Some s'"
  shows "sess_inv t fs past behind buf0 table0 s'"
proof (cases "\<exists>e. cli_at s' = CliCrashed e")
  case False
  then have "\<nexists>e. cli_at s = CliCrashed e" using step by (auto simp: client_step_def)
  then obtain sent where sent: "sent \<in> sent_set t (srv_at s)" "read_inv buf0 sent s" and ans: "answer_inv fs past behind table0 s"
    using inv by (auto simp: sess_inv_def)
  have same: "srv_at s' = srv_at s"
    using step by (auto simp: client_step_def Let_def split: cli_pc.splits option.splits sum.splits)
  have not_done: "cli_at s \<noteq> CliDone" using step by (auto simp: client_step_def)
  show ?thesis
  proof (cases "cli_at s = CountLetters")
    case True
    then obtain table where t: "client_result fs past behind s = Inr table"
      "s' = s\<lparr>to_server := (if ok then to_server s @ table_bytes table else to_server s), cli_at := CliDone\<rparr>"
      using step False by (auto simp: client_step_def client_result_def split: sum.splits)
    have "read_inv buf0 sent s'" using sent(2) t(2) True by (simp add: read_inv_def)
    moreover have "answer_inv fs past behind table0 s'"
      using ans t True by (auto simp: answer_inv_def client_result_def)
    ultimately show ?thesis using sent(1) same by (auto simp: sess_inv_def)
  next
    case nc: False
    then obtain n data rest where r: "sock_recv k n (srv_at s = SrvDone) (to_client s) = Some (data, rest)"
      and s': "cli_at s = RecvName \<and> s' = s\<lparr>to_client := rest, cli_got := cli_got s @ [length data], cli_buf := overlay data (cli_buf s), cli_at := RecvStart\<rparr>
      \<or> cli_at s = RecvStart \<and> s' = s\<lparr>to_client := rest, cli_got := cli_got s @ [length data], cli_start := overlay data (cli_start s), cli_at := RecvEnd\<rparr>
      \<or> cli_at s = RecvEnd \<and> s' = s\<lparr>to_client := rest, cli_got := cli_got s @ [length data], cli_end := overlay data (cli_end s), cli_at := CountLetters\<rparr>"
      using step False not_done
      by (cases "cli_at s") (auto simp: client_step_def Let_def split: option.splits sum.splits)
    have "read_inv buf0 sent s'" by (rule client_read_inv [OF sent(2) r s'])
    moreover have "answer_inv fs past behind table0 s'"
      using ans s' by (auto simp: answer_inv_def)
    ultimately show ?thesis using sent(1) same by (auto simp: sess_inv_def)
  qed
qed (simp add: sess_inv_def)

lemma sess_reach_inv:
  assumes "(sess_step t fs past behind)\<^sup>*\<^sup>* (sess_start stack table0) s"
  shows "sess_inv t fs past behind (overlay (replicate 4 0) stack) table0 s"
  using assms
proof (induction rule: rtranclp_induct)
  case base
  then show ?case by (simp add: sess_inv_def sess_start_def read_inv_def answer_inv_def sent_set.simps)
next
  case (step y z)
  then show ?case by (auto elim!: sess_stepE dest: server_step_inv client_step_inv)
qed

lemma sent_set_length: "sent \<in> sent_set t pc \<Longrightarrow> length sent \<le> 36"
  by (cases pc) (auto simp: sent_set.simps length_filename)

lemma count_buf_length: "count_buf mem table = Inr table' \<Longrightarrow> length table' = length table"
proof -
  have "length (fold count_byte bs table) = length table" for bs
    by (induction bs arbitrary: table) (auto simp: count_byte_def split: option.split)
  then show "count_buf mem table = Inr table' \<Longrightarrow> length table' = length table"
    by (auto simp: count_buf_def bind_r_eq_Inr)
qed

lemma calc_chunks_length: "calc_chunks file behind n pos table = Inr (pos', table') \<Longrightarrow> length table' = length table"
proof (induction n arbitrary: pos table)
  case (Suc n)
  then obtain t1 where "count_buf (read_buf file pos 1000 1000 @ behind) table = Inr t1"
    "calc_chunks file behind n (pos + length (take 1000 (drop pos file))) t1 = Inr (pos', table')"
    by (auto simp: bind_r_eq_Inr)
  then show ?case using Suc.IH count_buf_length by metis
qed simp

lemma calculate_length: "calculate file behind table a b = Inr table' \<Longrightarrow> length table' = length table"
  by (auto simp: calculate_def Let_def bind_r_eq_Inr split: if_splits dest!: calc_chunks_length count_buf_length)

lemma bytes_table_int:
  assumes "length table = 26"
  shows "bytes_table (table_bytes table @ rest) = map c_int table"
proof (intro nth_equalityI)
  fix i assume "i < length (bytes_table (table_bytes table @ rest))"
  then have i: "i < length table" using assms by (simp add: bytes_table_def)
  then have "4 * i + 4 \<le> length (table_bytes table)" by (simp add: length_table_bytes)
  then have "take 4 (drop (4 * i) (table_bytes table @ rest)) = le_bytes 4 (table ! i)"
    using take_drop_table [OF i] by simp
  then show "bytes_table (table_bytes table @ rest) ! i = map c_int table ! i"
    using i assms by (simp add: bytes_table_def load_int_def le_value_bytes signed_take_bit_take_bit c_int_def)
qed (simp add: assms bytes_table_def)

lemma strlen_finds:
  assumes "0 \<in> set mem"
  shows "\<exists>n. strlen mem = Inr n"
proof -
  have "length (takeWhile (\<lambda>b. b \<noteq> 0) mem) < length mem" using assms by (induction mem) auto
  then show ?thesis by (auto simp: strlen_def)
qed

lemma filename_string: "0 \<notin> set filename"
  by (simp add: filename_def)

text \<open>The values of a client that read the three messages as they were sent.\<close>

lemma client_reads_messages:
  assumes inv: "read_inv (overlay (replicate 4 0) stack) sent s" and sent: "sent \<in> sent_set t pc"
    and got: "cli_got s = [20, 8, 8]" and stack: "20 < length stack" "stack ! 20 = 0"
    and t: "- (2 ^ 63) \<le> t_start t" "t_start t < 2 ^ 63" "- (2 ^ 63) \<le> t_end t" "t_end t < 2 ^ 63"
  shows "client_result fs past behind s = calculate (fs filename) behind (replicate 26 0) (t_start t) (t_end t)"
proof -
  have "length sent = 36"
    using inv got sent_set_length [OF sent] by (simp add: read_inv_def Let_def)
  then have eq: "sent = filename @ le_bytes 8 (t_start t) @ le_bytes 8 (t_end t)" by (rule sent_set_full [OF sent])
  have "cli_buf s = filename @ drop 20 stack"
    using inv got eq by (simp add: read_inv_def Let_def overlay_def length_filename)
  also have "\<dots> = filename @ 0 # drop 21 stack"
    using stack by (simp add: Cons_nth_drop_Suc [symmetric])
  finally have buf: "cli_buf s = filename @ 0 # drop 21 stack" .
  moreover have "cli_start s = le_bytes 8 (t_start t)" "cli_end s = le_bytes 8 (t_end t)"
    using inv got eq by (simp_all add: read_inv_def Let_def overlay_def length_filename)
  ultimately show ?thesis
    using strlen_no_null [OF filename_string, of "drop 21 stack @ past"] t
    by (simp add: client_result_def load_long_bytes)
qed

text \<open>A run along a schedule: who calls, whether a \<open>send\<close> succeeds, how much has arrived.\<close>

fun run_calls :: "train \<Rightarrow> (bytes \<Rightarrow> bytes) \<Rightarrow> bytes \<Rightarrow> bytes \<Rightarrow> (bool \<times> bool \<times> nat) list \<Rightarrow> session \<Rightarrow> session option" where
  "run_calls t fs past behind [] s = Some s"
| "run_calls t fs past behind ((who, ok, k) # calls) s =
     (case if who then server_step t ok k s else client_step fs past behind ok k s of
        None \<Rightarrow> None
      | Some s' \<Rightarrow> run_calls t fs past behind calls s')"

lemma run_calls_reach: "run_calls t fs past behind calls s = Some s' \<Longrightarrow> (sess_step t fs past behind)\<^sup>*\<^sup>* s s'"
proof (induction calls arbitrary: s)
  case (Cons c calls)
  obtain who ok k where c: "c = (who, ok, k)" by (cases c)
  then obtain s1 where "(if who then server_step t ok k s else client_step fs past behind ok k s) = Some s1"
    "run_calls t fs past behind calls s1 = Some s'"
    using Cons.prems by (auto split: option.splits)
  then have "sess_step t fs past behind s s1" "(sess_step t fs past behind)\<^sup>*\<^sup>* s1 s'"
    using Cons.IH by (auto intro: sess_step.intros split: if_splits)
  then show ?case by (rule converse_rtranclp_into_rtranclp)
qed simp

text \<open>Each message is read before the next one is sent.\<close>

definition in_turn :: "(bool \<times> bool \<times> nat) list" where
  "in_turn = [(True, True, 0), (False, True, 99), (True, True, 0), (False, True, 99),
     (True, True, 0), (False, True, 99), (False, True, 0), (True, True, 199)]"

text \<open>The server is done with sending before the client reads.\<close>

definition sent_ahead :: "(bool \<times> bool \<times> nat) list" where
  "sent_ahead = [(True, True, 0), (True, True, 0), (True, True, 0), (False, True, 99)]"

lemma in_turn_run:
  assumes calc: "calculate (fs filename) behind (replicate 26 0) (t_start t) (t_end t) = Inr table"
    and stack: "20 < length stack" "stack ! 20 = 0"
    and t: "- (2 ^ 63) \<le> t_start t" "t_start t < 2 ^ 63" "- (2 ^ 63) \<le> t_end t" "t_end t < 2 ^ 63"
  shows "\<exists>s. run_calls t fs past behind in_turn (sess_start stack table0) = Some s
    \<and> cli_at s = CliDone \<and> srv_at s = SrvDone \<and> cli_got s = [20, 8, 8] \<and> srv_got s = 104"
proof -
  have len: "length (table_bytes table) = 104" "table_bytes table \<noteq> []"
    using calculate_length [OF calc] by (auto simp: length_table_bytes dest: arg_cong [where f = length])
  have ne: "filename \<noteq> []" "le_bytes 8 x \<noteq> []" for x by (simp_all add: filename_def eval_nat_numeral)
  have buf: "filename @ drop 20 stack @ past = filename @ 0 # drop 21 stack @ past"
    using stack by (simp add: Cons_nth_drop_Suc [symmetric])
  have str: "strlen (filename @ drop 20 stack @ past) = Inr 20"
    unfolding buf using strlen_no_null [OF filename_string] by (simp add: length_filename)
  show ?thesis
    using calc len ne str t
    by (simp add: in_turn_def sess_start_def server_step_def client_step_def sock_recv_def overlay_def length_filename
        load_long_bytes min_def)
qed

text \<open>A client whose calls of \<open>recv\<close> return the three messages as the server sent them, with a null byte on its
  stack where the name ends, and a server that gets the whole table with one \<open>recv\<close>: the server adds the counts that
  \<open>calculate\<close> computes for the server's task, as 32-bit integers.\<close>

lemma reply_exact:
  assumes "(sess_step t fs past behind)\<^sup>*\<^sup>* (sess_start stack table0) s" and "cli_at s = CliDone" and "srv_at s = SrvDone"
    and "cli_got s = [20, 8, 8]" and "srv_got s = 104" and "20 < length stack" and "stack ! 20 = 0"
    and "- (2 ^ 63) \<le> t_start t" and "t_start t < 2 ^ 63" and "- (2 ^ 63) \<le> t_end t" and "t_end t < 2 ^ 63"
  shows "\<exists>table. calculate (fs filename) behind (replicate 26 0) (t_start t) (t_end t) = Inr table
    \<and> bytes_table (srv_table s) = map c_int table"
proof -
  obtain sent where sent: "sent \<in> sent_set t (srv_at s)" "read_inv (overlay (replicate 4 0) stack) sent s"
    and ans: "answer_inv fs past behind table0 s"
    using sess_reach_inv [OF assms(1)] assms(2) by (auto simp: sess_inv_def)
  obtain table where t: "client_result fs past behind s = Inr table" and l: "104 \<le> length (table_bytes table)"
    and table: "srv_table s = overlay (take 104 (table_bytes table)) table0"
    using ans assms(2,3,5) by (auto simp: answer_inv_def)
  have calc: "calculate (fs filename) behind (replicate 26 0) (t_start t) (t_end t) = Inr table"
    using client_reads_messages [OF sent(2,1) assms(4,6-11)] t by simp
  then have len: "length table = 26" using calculate_length by fastforce
  have "srv_table s = table_bytes table @ drop 104 table0"
    using table len by (simp add: overlay_def length_table_bytes)
  then show ?thesis using calc bytes_table_int [OF len] by simp
qed

lemma task_range:
  assumes "i < n" and "n \<le> length file"
  shows "0 \<le> t_start (task (int (length file)) n i) \<and> t_start (task (int (length file)) n i) \<le> int (length file)
    \<and> 0 \<le> t_end (task (int (length file)) n i) \<and> t_end (task (int (length file)) n i) \<le> int (length file)"
proof -
  let ?q = "length file div n"
  have div: "c_div (int (length file)) (int n) = int ?q" using assms(1) by (simp add: c_div_nonneg zdiv_int)
  have qpos: "0 < ?q" using assms by (simp add: div_greater_zero_iff)
  have "?q * (i + 1) \<le> length file"
    using assms(1) by (intro order.trans [OF mult_le_mono2 div_times_less_eq_dividend]) simp
  then have le: "int ?q * (int i + 1) \<le> int (length file)" by (metis of_nat_1 of_nat_add of_nat_le_iff of_nat_mult)
  moreover have "1 \<le> int ?q * (int i + 1)" using qpos by (simp add: int_one_le_iff_zero_less zero_less_mult_iff)
  moreover have "int ?q * int i \<le> int ?q * (int i + 1)" by (simp add: mult_left_mono)
  ultimately show ?thesis
    by (auto simp: task_def startFile_def endFile_def endFileFinal_def div)
qed

lemma tally_worker_int:
  assumes "length file < 2 ^ 31"
  shows "c_int (tally (worker_part file n i) c) = tally (worker_part file n i) c"
proof -
  have "length (filter P (worker_part file n i)) \<le> length file" for P
    by (rule order.trans [OF length_filter_le]) (simp add: worker_part_def part_def Let_def)
  then have "tally (worker_part file n i) c \<le> int (length file)" "0 \<le> tally (worker_part file n i) c"
    by (simp_all add: tally_def)
  then show ?thesis using assms by (intro c_int_small) simp_all
qed

section \<open>Sessions in which every \<open>send\<close> succeeds\<close>

definition sess_ok :: "train \<Rightarrow> (bytes \<Rightarrow> bytes) \<Rightarrow> bytes \<Rightarrow> bytes \<Rightarrow> session \<Rightarrow> session \<Rightarrow> bool" where
  "sess_ok t fs past behind s s' \<longleftrightarrow>
     (\<exists>k. server_step t True k s = Some s' \<or> client_step fs past behind True k s = Some s')"

definition messages :: "train \<Rightarrow> bytes" where
  "messages t = filename @ le_bytes 8 (t_start t) @ le_bytes 8 (t_end t)"

fun sent_upto :: "train \<Rightarrow> srv_pc \<Rightarrow> bytes" where
  "sent_upto t SendName = []"
| "sent_upto t SendStart = filename"
| "sent_upto t SendEnd = filename @ le_bytes 8 (t_start t)"
| "sent_upto t pc = messages t"

text \<open>The numbers that \<open>recv\<close> returned to the client.\<close>

definition got_ok :: "nat list \<Rightarrow> bool" where
  "got_ok g \<longleftrightarrow> (\<forall>x \<in> set g. 0 < x) \<and> (\<forall>x \<in> set (tl g). x \<le> 8)"

text \<open>What the server has of the answer.\<close>

definition table_inv :: "(bytes \<Rightarrow> bytes) \<Rightarrow> bytes \<Rightarrow> bytes \<Rightarrow> bytes \<Rightarrow> session \<Rightarrow> bool" where
  "table_inv fs past behind table0 s \<longleftrightarrow>
     (if cli_at s = CliDone
      then \<exists>table. client_result fs past behind s = Inr table \<and>
        (if srv_at s = SrvDone then 0 < srv_got s \<and> srv_got s \<le> 104 \<and> srv_table s = overlay (take (srv_got s) (table_bytes table)) table0
         else to_server s = table_bytes table \<and> srv_table s = table0)
      else to_server s = [] \<and> srv_table s = table0 \<and> srv_at s \<noteq> SrvDone)"

definition ok_inv :: "train \<Rightarrow> (bytes \<Rightarrow> bytes) \<Rightarrow> bytes \<Rightarrow> bytes \<Rightarrow> bytes \<Rightarrow> bytes \<Rightarrow> session \<Rightarrow> bool" where
  "ok_inv t fs past behind buf0 table0 s \<longleftrightarrow> (\<exists>e. cli_at s = CliCrashed e)
     \<or> read_inv buf0 (sent_upto t (srv_at s)) s \<and> got_ok (cli_got s) \<and> table_inv fs past behind table0 s"

text \<open>How a session can end.\<close>

definition session_starved :: "session \<Rightarrow> bool" where
  "session_starved s \<longleftrightarrow> srv_at s = RecvTable \<and> cli_at s \<in> {RecvStart, RecvEnd} \<and> sum_list (cli_got s) = 36"

definition session_crashed :: "session \<Rightarrow> bool" where
  "session_crashed s \<longleftrightarrow> srv_at s = SrvDone \<and> (\<exists>e. cli_at s = CliCrashed e)"

definition session_answered :: "train \<Rightarrow> (bytes \<Rightarrow> bytes) \<Rightarrow> bytes \<Rightarrow> bytes \<Rightarrow> bytes \<Rightarrow> bytes \<Rightarrow> session \<Rightarrow> bool" where
  "session_answered t fs past behind stack table0 s \<longleftrightarrow> srv_at s = SrvDone \<and> cli_at s = CliDone
     \<and> (\<exists>a b c table. cli_got s = [a, b, c] \<and> 0 < a \<and> 0 < b \<and> b \<le> 8 \<and> 0 < c \<and> c \<le> 8 \<and> a + b + c \<le> 36
        \<and> cli_buf s = overlay (take a (messages t)) (overlay (replicate 4 0) stack)
        \<and> cli_start s = overlay (take b (drop a (messages t))) (le_bytes 8 0)
        \<and> cli_end s = overlay (take c (drop (a + b) (messages t))) (le_bytes 8 0)
        \<and> client_result fs past behind s = Inr table
        \<and> 0 < srv_got s \<and> srv_got s \<le> 104 \<and> srv_table s = overlay (take (srv_got s) (table_bytes table)) table0)"

lemma length_messages: "length (messages t) = 36"
  by (simp add: messages_def length_filename)

lemma client_result_length: "client_result fs past behind s = Inr table \<Longrightarrow> length (table_bytes table) = 104"
  by (auto simp: client_result_def bind_r_eq_Inr length_table_bytes dest!: calculate_length)

lemma server_step_ok:
  assumes inv: "ok_inv t fs past behind buf0 table0 s" and step: "server_step t True k s = Some s'"
  shows "ok_inv t fs past behind buf0 table0 s'"
proof (cases "\<exists>e. cli_at s = CliCrashed e")
  case True
  then show ?thesis using step by (auto simp: ok_inv_def server_step_def Let_def split: srv_pc.splits option.splits)
next
  case False
  then have r: "read_inv buf0 (sent_upto t (srv_at s)) s" "got_ok (cli_got s)" "table_inv fs past behind table0 s"
    using inv by (auto simp: ok_inv_def)
  show ?thesis
  proof (cases "srv_at s = RecvTable")
    case True
    then obtain data rest where d: "sock_recv k 104 (cli_closed (cli_at s)) (to_server s) = Some (data, rest)"
      and s': "s' = s\<lparr>to_server := rest, srv_table := overlay data (srv_table s), srv_got := length data, srv_at := SrvDone\<rparr>"
      using step by (auto simp: server_step_def split: option.splits)
    have fin: "cli_at s = CliDone"
      using d r(3) False by (cases "cli_at s") (auto simp: table_inv_def sock_recv_def)
    then obtain table where t: "client_result fs past behind s = Inr table" "to_server s = table_bytes table" "srv_table s = table0"
      using r(3) True by (auto simp: table_inv_def)
    have "to_server s \<noteq> []" using client_result_length [OF t(1)] t(2) by auto
    then have "data = take (length data) (table_bytes table)" "0 < length data" "length data \<le> 104"
      using d t(2) client_result_length [OF t(1)] by (auto simp: sock_recv_def split: if_splits)
    then have "table_inv fs past behind table0 s'"
      using fin t s' by (auto simp: table_inv_def client_result_def)
    moreover have "read_inv buf0 (sent_upto t (srv_at s')) s'" using r(1) True s' by (simp add: read_inv_def)
    ultimately show ?thesis using r(2) s' by (simp add: ok_inv_def)
  next
    case nr: False
    have "\<exists>m pc. s' = s\<lparr>to_client := to_client s @ m, srv_at := pc\<rparr> \<and> sent_upto t pc = sent_upto t (srv_at s) @ m \<and> pc \<noteq> SrvDone \<and> srv_at s \<noteq> SrvDone"
    proof (cases "srv_at s")
      case SendName
      then show ?thesis using step by (intro exI [of _ filename] exI [of _ SendStart]) (simp add: server_step_def)
    next
      case SendStart
      then show ?thesis using step by (intro exI [of _ "le_bytes 8 (t_start t)"] exI [of _ SendEnd]) (simp add: server_step_def)
    next
      case SendEnd
      then show ?thesis using step by (intro exI [of _ "le_bytes 8 (t_end t)"] exI [of _ RecvTable]) (simp add: server_step_def messages_def)
    qed (use step nr in \<open>simp_all add: server_step_def\<close>)
    then obtain m pc where s': "s' = s\<lparr>to_client := to_client s @ m, srv_at := pc\<rparr>" "sent_upto t pc = sent_upto t (srv_at s) @ m"
      "pc \<noteq> SrvDone" "srv_at s \<noteq> SrvDone" by blast
    have "table_inv fs past behind table0 s'" using r(3) s' by (auto simp: table_inv_def client_result_def)
    then show ?thesis using r(2) read_inv_more(1) [OF r(1), of m pc] s' by (simp add: ok_inv_def)
  qed
qed

lemma got_ok_more: "got_ok g \<Longrightarrow> 0 < x \<Longrightarrow> g = [] \<or> x \<le> 8 \<Longrightarrow> got_ok (g @ [x])"
  by (cases g) (auto simp: got_ok_def)

lemma client_step_ok:
  assumes inv: "ok_inv t fs past behind buf0 table0 s" and step: "client_step fs past behind True k s = Some s'"
  shows "ok_inv t fs past behind buf0 table0 s'"
proof (cases "\<exists>e. cli_at s' = CliCrashed e")
  case True
  then show ?thesis by (simp add: ok_inv_def)
next
  case False
  have open': "\<not> cli_closed (cli_at s)" using step by (auto simp: client_step_def split: cli_pc.splits)
  then have r: "read_inv buf0 (sent_upto t (srv_at s)) s" "got_ok (cli_got s)" "to_server s = []" "srv_table s = table0" "srv_at s \<noteq> SrvDone"
    using inv by (auto simp: ok_inv_def table_inv_def split: if_splits)
  show ?thesis
  proof (cases "cli_at s = CountLetters")
    case True
    then obtain table where t: "client_result fs past behind s = Inr table" "s' = s\<lparr>to_server := table_bytes table, cli_at := CliDone\<rparr>"
      using step False r(3) by (auto simp: client_step_def client_result_def Let_def split: sum.splits)
    then have "table_inv fs past behind table0 s'" using r(4,5) by (auto simp: table_inv_def client_result_def)
    moreover have "read_inv buf0 (sent_upto t (srv_at s')) s'" using r(1) t(2) True by (simp add: read_inv_def)
    ultimately show ?thesis using r(2) t(2) by (simp add: ok_inv_def)
  next
    case nc: False
    then obtain n data rest where d: "sock_recv k n (srv_at s = SrvDone) (to_client s) = Some (data, rest)" "cli_at s = RecvName \<or> n = 8"
      and s': "cli_at s = RecvName \<and> s' = s\<lparr>to_client := rest, cli_got := cli_got s @ [length data], cli_buf := overlay data (cli_buf s), cli_at := RecvStart\<rparr>
      \<or> cli_at s = RecvStart \<and> s' = s\<lparr>to_client := rest, cli_got := cli_got s @ [length data], cli_start := overlay data (cli_start s), cli_at := RecvEnd\<rparr>
      \<or> cli_at s = RecvEnd \<and> s' = s\<lparr>to_client := rest, cli_got := cli_got s @ [length data], cli_end := overlay data (cli_end s), cli_at := CountLetters\<rparr>"
      and n: "0 < n"
      using step False open'
      by (cases "cli_at s") (auto simp: client_step_def Let_def split: option.splits sum.splits)
    have "0 < length data" "length data \<le> n" using d(1) n r(5) by (auto simp: sock_recv_def split: if_splits)
    moreover have "cli_got s = []" if "cli_at s = RecvName" using r(1) that by (simp add: read_inv_def Let_def)
    ultimately have "got_ok (cli_got s')" using got_ok_more [OF r(2), of "length data"] d(2) s' by auto
    moreover have "read_inv buf0 (sent_upto t (srv_at s)) s'" by (rule client_read_inv [OF r(1) d(1) s'])
    moreover have "table_inv fs past behind table0 s'" using r(3-5) s' by (auto simp: table_inv_def)
    moreover have "srv_at s' = srv_at s" using s' by auto
    ultimately show ?thesis by (simp add: ok_inv_def)
  qed
qed

lemma sess_ok_inv:
  "(sess_ok t fs past behind ^^ n) (sess_start stack table0) s \<Longrightarrow> ok_inv t fs past behind (overlay (replicate 4 0) stack) table0 s"
proof (induction n arbitrary: s)
  case 0
  then have "s = sess_start stack table0" by simp
  then show ?case by (simp add: ok_inv_def sess_start_def read_inv_def got_ok_def table_inv_def)
next
  case (Suc n)
  then obtain y where "(sess_ok t fs past behind ^^ n) (sess_start stack table0) y" "sess_ok t fs past behind y s" by auto
  then show ?case using Suc.IH server_step_ok client_step_ok unfolding sess_ok_def by blast
qed

lemma sess_ok_step: "sess_ok t fs past behind s s' \<Longrightarrow> sess_step t fs past behind s s'"
  by (auto simp: sess_ok_def intro: sess_step.intros)

lemma sess_ok_steps: "(sess_ok t fs past behind ^^ n) s s' \<Longrightarrow> (sess_step t fs past behind ^^ n) s s'"
  by (induction n arbitrary: s') (auto dest: sess_ok_step)

lemma sess_ok_stuck: "(\<nexists>s'. sess_ok t fs past behind s s') \<longleftrightarrow> both_ended s \<or> both_wait s"
proof -
  have "(\<nexists>s'. sess_ok t fs past behind s s')
    \<longleftrightarrow> (\<forall>k. server_step t True k s = None) \<and> (\<forall>k. client_step fs past behind True k s = None)"
    unfolding sess_ok_def by (metis not_None_eq)
  also have "\<dots> \<longleftrightarrow> both_ended s \<or> both_wait s"
    by (auto simp: server_step_None client_step_None both_ended_def both_wait_def)
  finally show ?thesis .
qed

lemma session_outcome:
  assumes "(sess_ok t fs past behind ^^ n) (sess_start stack table0) s" and "\<nexists>s'. sess_ok t fs past behind s s'"
  shows "session_starved s \<or> session_crashed s \<or> session_answered t fs past behind stack table0 s"
proof -
  note inv = sess_ok_inv [OF assms(1)]
  from assms(2) consider "both_wait s" | "srv_at s = SrvDone" "\<exists>e. cli_at s = CliCrashed e" | "srv_at s = SrvDone" "cli_at s = CliDone"
    unfolding sess_ok_stuck both_ended_def by (cases "cli_at s") auto
  then show ?thesis
  proof cases
    case 1
    then have "read_inv (overlay (replicate 4 0) stack) (messages t) s" using inv by (auto simp: ok_inv_def both_wait_def)
    then have "sum_list (cli_got s) = 36" "cli_at s = RecvName \<longrightarrow> cli_got s = []"
      using 1 length_messages [of t] by (auto simp: read_inv_def Let_def both_wait_def)
    then show ?thesis using 1 by (auto simp: session_starved_def both_wait_def)
  next
    case 2
    then show ?thesis by (simp add: session_crashed_def)
  next
    case 3
    then have r: "read_inv (overlay (replicate 4 0) stack) (messages t) s" "got_ok (cli_got s)" "table_inv fs past behind table0 s"
      using inv by (auto simp: ok_inv_def)
    have "length (cli_got s) = 3" using r(1) 3 by (simp add: read_inv_def Let_def)
    then obtain a b c where g: "cli_got s = [a, b, c]" by (auto simp: eval_nat_numeral length_Suc_conv)
    have "a + b + c \<le> 36" "cli_buf s = overlay (take a (messages t)) (overlay (replicate 4 0) stack)"
      "cli_start s = overlay (take b (drop a (messages t))) (le_bytes 8 0)" "cli_end s = overlay (take c (drop (a + b) (messages t))) (le_bytes 8 0)"
      using r(1) g length_messages [of t] by (simp_all add: read_inv_def Let_def)
    moreover have "0 < a" "0 < b" "b \<le> 8" "0 < c" "c \<le> 8" using r(2) g by (simp_all add: got_ok_def)
    ultimately show ?thesis using r(3) 3 g by (auto simp: session_answered_def table_inv_def)
  qed
qed

text \<open>A run along a schedule in which no \<open>send\<close> fails.\<close>

lemma run_calls_ok:
  "run_calls t fs past behind calls s = Some s' \<Longrightarrow> \<forall>c \<in> set calls. fst (snd c) \<Longrightarrow> (sess_ok t fs past behind)\<^sup>*\<^sup>* s s'"
proof (induction calls arbitrary: s)
  case (Cons c calls)
  obtain who k where c: "c = (who, True, k)" using Cons.prems(2) by (cases c) auto
  then obtain s1 where "(if who then server_step t True k s else client_step fs past behind True k s) = Some s1"
    "run_calls t fs past behind calls s1 = Some s'"
    using Cons.prems by (auto split: option.splits)
  note s1 = this
  have "sess_ok t fs past behind s s1" using s1(1) by (auto simp: sess_ok_def split: if_splits)
  moreover have "(sess_ok t fs past behind)\<^sup>*\<^sup>* s1 s'" using Cons.IH [OF s1(2)] Cons.prems(2) by simp
  ultimately show ?case by (rule converse_rtranclp_into_rtranclp)
qed simp

section \<open>Starting the workers\<close>

lemma accept_loop_threads:
  "accept_loop len IPnum index answers ts = Some (Inr ts') \<Longrightarrow> length ts = index \<Longrightarrow> index \<le> IPnum
   \<Longrightarrow> map snd ts' = map snd ts @ map (task len IPnum) [index..<IPnum]"
proof (induction len IPnum index answers ts rule: accept_loop.induct)
  case (2 len IPnum index newfd answers ts)
  then show ?case by (auto simp: upt_conv_Cons split: if_splits)
qed (auto split: if_splits)

lemma server_main_threads:
  assumes "server_main sfd bind_ok conf behind len answers = Some (Inr (Inr ts))"
  shows "0 < length ts \<and> map snd ts = map (task len (length ts)) [0..<length ts]"
proof -
  obtain n where n: "0 < n" "accept_loop len n 0 answers [] = Some (Inr ts)"
    using assms by (auto simp: server_main_def split: if_splits sum.splits option.splits)
  from accept_loop_threads [OF n(2)] have "map snd ts = map (task len n) [0..<n]" by simp
  moreover from arg_cong [OF this, of length] have "length ts = n" by simp
  ultimately show ?thesis using n(1) by simp
qed

lemma accept_loop_all:
  "length answers + index = IPnum \<Longrightarrow> - 1 \<notin> set answers \<Longrightarrow>
   accept_loop len IPnum index answers ts = Some (Inr (ts @ zip answers (map (task len IPnum) [index..<IPnum])))"
proof (induction len IPnum index answers ts rule: accept_loop.induct)
  case (2 len IPnum index newfd answers ts)
  then show ?case by (auto simp: upt_conv_Cons)
qed simp

lemma accept_loop_short:
  "length answers + index < IPnum \<Longrightarrow> - 1 \<notin> set answers \<Longrightarrow>
   accept_loop len IPnum index (answers @ [- 1]) ts = Some (Inl 1) \<and> accept_loop len IPnum index answers ts = None"
  by (induction answers arbitrary: index ts) simp_all

lemma countIP_lines:
  assumes "0 \<notin> set conf"
  shows "countIP conf (0 # rest) = Inr (length (filter (\<lambda>b. b = 10) (take 100 conf)))"
proof -
  let ?d = "take 100 conf"
  have eq: "read_buf conf 0 100 100 @ 0 # rest = ?d @ 0 # replicate (100 - length ?d) 0 @ rest"
    by (simp add: read_buf_def Let_def replicate_app_Cons_same)
  have "0 \<notin> set ?d" using assms by (auto dest: in_set_takeD)
  from strlen_no_null [OF this, of "replicate (100 - length ?d) 0 @ rest"]
  show ?thesis unfolding countIP_def Let_def eq by (simp add: min_def)
qed

section \<open>Properties\<close>

text \<open>C27. How a session ends when no \<open>send\<close> fails: it has at most eight calls, and when no call can go on, one of three things has
  happened. The client has read all 36 bytes of the three messages with its first one or two calls of \<open>recv\<close> and waits for
  more while the server waits for the table (\<open>session_starved\<close>). Or the client has crashed and the server has read nothing.
  Or both are done (\<open>session_answered\<close>): the client's three objects hold successive pieces of the messages, the
  second and third of at most eight bytes, and the server has, from its one \<open>recv\<close>, a beginning of
  the table the client computed from them. A session in which every message is read as it was sent and the server gets the
  counts of its task is possible.\<close>

theorem session_ends:
  assumes "calculate (fs filename) behind (replicate 26 0) (t_start t) (t_end t) = Inr table"
    and "20 < length stack" and "stack ! 20 = 0"
    and "- (2 ^ 63) \<le> t_start t" and "t_start t < 2 ^ 63" and "- (2 ^ 63) \<le> t_end t" and "t_end t < 2 ^ 63"
  shows "(\<forall>n s. (sess_ok t fs past behind ^^ n) (sess_start stack table0) s \<longrightarrow> n \<le> 8
       \<and> ((\<nexists>s'. sess_ok t fs past behind s s') \<longrightarrow>
            session_starved s \<or> session_crashed s \<or> session_answered t fs past behind stack table0 s))
    \<and> (\<exists>s. (sess_ok t fs past behind)\<^sup>*\<^sup>* (sess_start stack table0) s \<and> session_answered t fs past behind stack table0 s
       \<and> cli_got s = [20, 8, 8] \<and> bytes_table (srv_table s) = map c_int table)"
proof (intro conjI allI impI)
  fix n s assume run: "(sess_ok t fs past behind ^^ n) (sess_start stack table0) s"
  then show "n \<le> 8" using sess_steps_left [OF sess_ok_steps [OF run]] by (simp add: sess_start_def)
  show "session_starved s \<or> session_crashed s \<or> session_answered t fs past behind stack table0 s" if "\<nexists>s'. sess_ok t fs past behind s s'"
    by (rule session_outcome [OF run that])
next
  obtain s where s: "run_calls t fs past behind in_turn (sess_start stack table0) = Some s"
    "cli_at s = CliDone" "srv_at s = SrvDone" "cli_got s = [20, 8, 8]" "srv_got s = 104"
    using in_turn_run [of fs behind t table stack past table0] assms by blast
  have "\<forall>c \<in> set in_turn. fst (snd c)" by (simp add: in_turn_def)
  then have ok: "(sess_ok t fs past behind)\<^sup>*\<^sup>* (sess_start stack table0) s" using run_calls_ok [OF s(1)] by blast
  then obtain n where "(sess_ok t fs past behind ^^ n) (sess_start stack table0) s" using rtranclp_imp_relpowp by metis
  moreover have "\<nexists>s'. sess_ok t fs past behind s s'" unfolding sess_ok_stuck using s(2,3) by (simp add: both_ended_def)
  ultimately have "session_answered t fs past behind stack table0 s"
    using session_outcome s(2,3) by (fastforce simp: session_starved_def session_crashed_def)
  moreover have "bytes_table (srv_table s) = map c_int table"
    using reply_exact [OF run_calls_reach [OF s(1)] s(2-5) assms(2-7)] assms(1) by simp
  ultimately show "\<exists>s. (sess_ok t fs past behind)\<^sup>*\<^sup>* (sess_start stack table0) s \<and> session_answered t fs past behind stack table0 s
       \<and> cli_got s = [20, 8, 8] \<and> bytes_table (srv_table s) = map c_int table"
    using ok s(4) by blast
qed

theorem session_ends_witness:
  "\<exists>s. (sess_ok \<lparr>t_start = 0, t_end = 2\<rparr> (\<lambda>_. demo_file) [] [0])\<^sup>*\<^sup>* (sess_start (replicate 1000 0) []) s
     \<and> session_answered \<lparr>t_start = 0, t_end = 2\<rparr> (\<lambda>_. demo_file) [] [0] (replicate 1000 0) [] s"
proof -
  have "calculate demo_file [0] (replicate 26 0) 0 2 = Inr (demo_replies ! 0)" using demo_file_run by simp
  then show ?thesis
    using session_ends [of "\<lambda>_. demo_file" "[0]" "\<lparr>t_start = 0, t_end = 2\<rparr>" "demo_replies ! 0" "replicate 1000 0" "[]" "[]"] by auto
qed

text \<open>C26. The server can be ahead of the client: \<open>recv\<close> of the name asks for up to 1000 bytes and may take the
  task's numbers along. Whenever the client has received all 36 bytes before its last call of \<open>recv\<close>, with its first call alone or with the
  first two together, client and server wait for each other for ever. Such a run
  exists for every task (with an end below \<open>2\<^sup>5\<^sup>6\<close>).\<close>

theorem session_deadlock:
  assumes "0 \<le> t_end t" and "t_end t < 2 ^ 56"
  shows "(\<exists>s. (sess_step t fs past behind)\<^sup>*\<^sup>* (sess_start stack table0) s \<and> cli_got s = [36] \<and> cli_at s = RecvStart)
    \<and> (\<forall>s s'. (sess_step t fs past behind)\<^sup>*\<^sup>* (sess_start stack table0) s \<longrightarrow> sum_list (cli_got s) = 36
         \<longrightarrow> cli_at s \<in> {RecvStart, RecvEnd} \<longrightarrow> \<not> sess_step t fs past behind s s')"
proof (intro conjI allI impI)
  let ?m = "filename @ le_bytes 8 (t_start t) @ le_bytes 8 (t_end t)"
  have "drop_bit 56 (t_end t) = 0" using assms by (simp add: drop_bit_eq_div)
  then have "le_bytes 8 (t_end t) ! 7 = 0" by (simp add: eval_nat_numeral)
  then have "0 \<in> set ?m" using nth_mem [of 7 "le_bytes 8 (t_end t)"] by simp
  then have str: "\<exists>n. strlen (filename @ le_bytes 8 (t_start t) @ le_bytes 8 (t_end t) @ rest) = Inr n" for rest
    by (intro strlen_finds) auto
  have ne: "filename \<noteq> []" by (simp add: filename_def)
  have "\<exists>s. run_calls t fs past behind sent_ahead (sess_start stack table0) = Some s \<and> cli_got s = [36] \<and> cli_at s = RecvStart"
    using ne str [of "drop 36 stack @ past"]
    by (auto simp: sent_ahead_def sess_start_def server_step_def client_step_def sock_recv_def overlay_def length_filename min_def)
  then show "\<exists>s. (sess_step t fs past behind)\<^sup>*\<^sup>* (sess_start stack table0) s \<and> cli_got s = [36] \<and> cli_at s = RecvStart"
    using run_calls_reach by blast
next
  fix s s' assume r: "(sess_step t fs past behind)\<^sup>*\<^sup>* (sess_start stack table0) s" and got: "sum_list (cli_got s) = 36" "cli_at s \<in> {RecvStart, RecvEnd}"
  obtain sent where sent: "sent \<in> sent_set t (srv_at s)" "read_inv (overlay (replicate 4 0) stack) sent s"
    and ans: "answer_inv fs past behind table0 s"
    using sess_reach_inv [OF r] got(2) by (auto simp: sess_inv_def)
  have full: "length sent = 36" "to_client s = []"
    using sent got sent_set_length [OF sent(1)] by (simp_all add: read_inv_def Let_def)
  have "srv_at s = RecvTable"
    using full(1) sent(1) ans got(2) by (cases "srv_at s") (auto simp: sent_set.simps length_filename answer_inv_def)
  then have "both_wait s" using full(2) ans got(2) by (auto simp: both_wait_def answer_inv_def)
  then show "\<not> sess_step t fs past behind s s'" using no_step_iff by blast
qed

theorem session_deadlock_witness:
  "\<exists>s. (sess_step \<lparr>t_start = 0, t_end = 2\<rparr> (\<lambda>_. demo_file) [] [0])\<^sup>*\<^sup>* (sess_start (replicate 1000 0) []) s
     \<and> cli_got s = [36] \<and> cli_at s = RecvStart"
  using session_deadlock [of "\<lparr>t_start = 0, t_end = 2\<rparr>"] by simp

text \<open>C21. The whole program over sockets: \<open>main\<close> of the server starts a thread for each worker, every client reads
  the three messages as they were sent and has a null byte on its stack where the name ends and another one behind the buffer of
  \<open>calculate\<close>, every server thread gets the whole table with one \<open>recv\<close>, and all threads have added their tables before
  \<open>main\<close> prints. Then the printed counts are those of the file without the last byte of every part but the last.
  The program ensures none of these conditions: theory \<open>AnswerLock\<close> shows what is printed when a thread is late.\<close>

theorem letter_count_sockets:
  assumes main: "server_main sfd bind_ok conf mem (int (length file)) answers = Some (Inr (Inr ts))"
    and fl: "0 \<notin> set file" "length ts \<le> length file" "length file < 2 ^ 31" "fs filename = file"
    and sess: "\<forall>i<length ts. (sess_step (snd (ts ! i)) fs (past i) (0 # rest i))\<^sup>*\<^sup>* (sess_start (stack i) (junk i)) (ses i)
      \<and> cli_at (ses i) = CliDone \<and> srv_at (ses i) = SrvDone \<and> cli_got (ses i) = [20, 8, 8] \<and> srv_got (ses i) = 104
      \<and> 20 < length (stack i) \<and> stack i ! 20 = 0"
    and pr: "prints (map (\<lambda>i. bytes_table (srv_table (ses i))) [0..<length ts]) {..<length ts} ans" and c: "c < 26"
  shows "ans ! c + tally (boundary file (length ts)) c = tally file c"
proof -
  let ?n = "length ts" and ?replies = "map (\<lambda>i. bytes_table (srv_table (ses i))) [0..<length ts]"
  have n: "0 < ?n" and tasks: "map snd ts = map (task (int (length file)) ?n) [0..<?n]"
    using server_main_threads [OF main] by simp_all
  have reply: "bytes_table (srv_table (ses i)) = map (tally (worker_part file ?n i)) [0..<26]" if i: "i < ?n" for i
  proof -
    let ?t = "task (int (length file)) ?n i"
    have t: "snd (ts ! i) = ?t" using arg_cong [OF tasks, of "\<lambda>x. x ! i"] i by simp
    have calc: "calculate file (0 # rest i) (replicate 26 0) (t_start ?t) (t_end ?t) = Inr (map (tally (worker_part file ?n i)) [0..<26])"
      by (rule worker_calculates [OF fl(1) i fl(2)])
    have range: "0 \<le> t_start ?t" "t_start ?t < 2 ^ 63" "0 \<le> t_end ?t" "t_end ?t < 2 ^ 63"
      using task_range [OF i fl(2)] fl(3) by simp_all
    have "\<exists>table. calculate (fs filename) (0 # rest i) (replicate 26 0) (t_start ?t) (t_end ?t) = Inr table
      \<and> bytes_table (srv_table (ses i)) = map c_int table"
      using sess [rule_format, OF i] range unfolding t by (elim conjE) (rule reply_exact, auto)
    then show ?thesis
      using calc fl(4) tally_worker_int [OF fl(3)] by auto
  qed
  then have "\<forall>i<?n. calculate file (0 # []) (replicate 26 0) (t_start (task (int (length file)) ?n i))
      (t_end (task (int (length file)) ?n i)) = Inr (?replies ! i)"
    using worker_calculates [OF fl(1) _ fl(2)] by simp
  then show ?thesis by (intro letter_count_total [OF fl(1) n fl(2) _ _ pr c]) simp_all
qed

definition demo_sess :: "nat \<Rightarrow> session" where
  "demo_sess i = the (run_calls (task 6 2 i) (\<lambda>_. demo_file) [] [0] in_turn (sess_start (replicate 1000 0) []))"

lemma demo_sess_run:
  assumes "i < 2"
  shows "(sess_step (task 6 2 i) (\<lambda>_. demo_file) [] [0])\<^sup>*\<^sup>* (sess_start (replicate 1000 0) []) (demo_sess i)
    \<and> cli_at (demo_sess i) = CliDone \<and> srv_at (demo_sess i) = SrvDone \<and> cli_got (demo_sess i) = [20, 8, 8] \<and> srv_got (demo_sess i) = 104"
proof -
  have "task 6 2 0 = \<lparr>t_start = 0, t_end = 2\<rparr>" "task 6 2 (Suc 0) = \<lparr>t_start = 3, t_end = 6\<rparr>"
    by (simp_all add: task_def startFile_def endFile_def endFileFinal_def c_div_def)
  then have "\<exists>s. run_calls (task 6 2 i) (\<lambda>_. demo_file) [] [0] in_turn (sess_start (replicate 1000 0) []) = Some s
    \<and> cli_at s = CliDone \<and> srv_at s = SrvDone \<and> cli_got s = [20, 8, 8] \<and> srv_got s = 104"
    using assms demo_file_run by (intro in_turn_run [where table = "demo_replies ! i"]) (auto simp: less_2_cases_iff)
  then show ?thesis by (auto simp: demo_sess_def dest: run_calls_reach)
qed

definition demo_threads :: "(int \<times> train) list" where
  "demo_threads = [(4, task 6 2 0), (5, task 6 2 1)]"

lemma demo_threads_two: "length demo_threads = 2"
  by (simp add: demo_threads_def)

lemma demo_main: "server_main 3 True [50, 10, 51, 10] [0] (int (length demo_file)) [4, 5] = Some (Inr (Inr demo_threads))"
proof -
  have "countIP [50, 10, 51, 10] [0] = Inr 2" by code_simp
  then show ?thesis by (simp add: server_main_def demo_file_def demo_threads_def)
qed

theorem letter_count_sockets_witness:
  "\<exists>ans. prints (map (\<lambda>i. bytes_table (srv_table (demo_sess i))) [0..<2]) {..<2} ans
     \<and> ans ! 2 + tally (boundary demo_file 2) 2 = tally demo_file 2"
proof -
  let ?r = "map (\<lambda>i. bytes_table (srv_table (demo_sess i))) [0..<2]"
  obtain ans where ans: "prints ?r {..<2} ans"
    using srv_reach_all [of 2 ?r] by (auto simp: prints_def)
  have "\<forall>i<length demo_threads.
    (sess_step (snd (demo_threads ! i)) (\<lambda>_. demo_file) [] (0 # []))\<^sup>*\<^sup>* (sess_start (replicate 1000 0) []) (demo_sess i)
      \<and> cli_at (demo_sess i) = CliDone \<and> srv_at (demo_sess i) = SrvDone \<and> cli_got (demo_sess i) = [20, 8, 8]
      \<and> srv_got (demo_sess i) = 104 \<and> 20 < length (replicate 1000 0 :: bytes) \<and> (replicate 1000 0 :: bytes) ! 20 = 0"
    using demo_sess_run [of 0] demo_sess_run [of 1] by (auto simp: demo_threads_def less_Suc_eq)
  then have "ans ! 2 + tally (boundary demo_file (length demo_threads)) 2 = tally demo_file 2"
    by (intro letter_count_sockets [OF demo_main, where fs = "\<lambda>_. demo_file" and past = "\<lambda>_. []" and rest = "\<lambda>_. []"
        and stack = "\<lambda>_. replicate 1000 0" and junk = "\<lambda>_. []" and ses = demo_sess])
      (use ans demo_threads_two in \<open>simp_all add: demo_file_def\<close>)
  then have "ans ! 2 + tally (boundary demo_file 2) 2 = tally demo_file 2" by (simp add: demo_threads_two)
  then show ?thesis using ans by blast
qed

text \<open>What the server's \<open>main\<close> does with its configuration: it counts the line ends in the first 100 bytes of the
  file of workers, accepts that many connections and gives worker \<open>i\<close> task \<open>i\<close>; with no line end it joins a thread
  outside its array, and a failing \<open>accept\<close> ends the program although workers may be counting.\<close>

theorem server_main_workers:
  assumes "0 \<notin> set conf" and "0 \<le> sfd" and "- 1 \<notin> set fds" and "length fds = length (filter (\<lambda>b. b = 10) (take 100 conf))"
  shows "server_main sfd True conf (0 # rest) len fds =
      (if fds = [] then Some (Inl OutOfBounds) else Some (Inr (Inr (zip fds (map (task len (length fds)) [0..<length fds])))))
    \<and> (k < length fds \<longrightarrow> server_main sfd True conf (0 # rest) len (take k fds @ [- 1]) = Some (Inr (Inl 1)))
    \<and> (k < length fds \<longrightarrow> server_main sfd True conf (0 # rest) len (take k fds) = None)"
proof -
  have n: "countIP conf (0 # rest) = Inr (length fds)" using countIP_lines [OF assms(1), of rest] assms(4) by simp
  have all: "accept_loop len (length fds) 0 fds [] = Some (Inr (zip fds (map (task len (length fds)) [0..<length fds])))"
    using accept_loop_all [of fds 0 "length fds" len "[]"] assms(3) by simp
  have part: "accept_loop len (length fds) 0 (take k fds @ [- 1]) [] = Some (Inl 1)"
    "accept_loop len (length fds) 0 (take k fds) [] = None" if "k < length fds"
    using accept_loop_short [of "take k fds" 0 "length fds" len "[]"] that assms(3) by (auto dest: in_set_takeD)
  show ?thesis using n all part assms(2) by (auto simp: server_main_def)
qed

theorem server_main_workers_witness:
  "server_main 3 True [50, 10, 51, 10] (0 # []) 6 [4, 5] = Some (Inr (Inr [(4, task 6 2 0), (5, task 6 2 1)]))
   \<and> server_main 3 True [50, 10, 51, 10] (0 # []) 6 [4, - 1] = Some (Inr (Inl 1))"
proof -
  have "length [4, 5 :: int] = length (filter (\<lambda>b. b = 10) (take 100 [50, 10, 51, 10 :: u8]))" by code_simp
  from server_main_workers [OF _ _ _ this, of 3 "[]" 6 1] show ?thesis unfolding numeral_2_eq_2 by simp
qed

end
