(* ===== verification/AnswerLock.thy ===== *)
theory AnswerLock
  imports LetterCount
begin

text \<open>
  The threads of \<^verbatim>\<open>socket-example/server.c\<close> and their mutex \<open>output_lock\<close>. Theory \<open>LetterCount\<close> lets a thread add its whole
  answer in one step (\<open>srv_reach\<close>). Here \<open>ans[i] += table[i]\<close> is a load and a store, \<open>pthread_mutex_lock\<close> waits while another thread holds
  the lock, \<open>main\<close> creates the threads one by one, joins the last one and prints the counts one by one without the lock,
  and the end of \<open>main\<close> ends the process. The lock makes the additions atomic, so the states with a free lock are those of \<open>srv_reach\<close>;
  it does not protect the output.
\<close>

section \<open>The server\<close>

text \<open>
  A thread has its answer in \<open>table\<close> when it waits for the lock (\<open>HC_lock\<close>). \<open>HC_load k\<close> is the loop test with the
  load of \<open>ans[k]\<close>, \<open>HC_store k v\<close> the store after the load of \<open>v\<close>.
\<close>

datatype hc_pc = HC_new | HC_lock | HC_load nat | HC_store nat int | HC_done

datatype main_pc = M_create nat | M_join | M_print "int list" | M_return "int list"

record server =
  sv_ans :: "int list"
  sv_lock :: "nat option"
  sv_at :: "nat \<Rightarrow> hc_pc"
  sv_main :: main_pc

definition goto :: "nat \<Rightarrow> hc_pc \<Rightarrow> server \<Rightarrow> server" where
  "goto i pc s = s\<lparr>sv_at := (sv_at s)(i := pc)\<rparr>"

definition client_thread_step :: "int list list \<Rightarrow> nat \<Rightarrow> server \<Rightarrow> server option" where
  "client_thread_step replies i s =
     (case sv_at s i of
        HC_new \<Rightarrow> None
      | HC_lock \<Rightarrow> (if sv_lock s = None then Some (goto i (HC_load 0) (s\<lparr>sv_lock := Some i\<rparr>)) else None)
      | HC_load k \<Rightarrow> Some (if k < 26 then goto i (HC_store k (sv_ans s ! k)) s else goto i HC_done (s\<lparr>sv_lock := None\<rparr>))
      | HC_store k v \<Rightarrow> Some (goto i (HC_load (k + 1)) (s\<lparr>sv_ans := (sv_ans s)[k := v + replies ! i ! k]\<rparr>))
      | HC_done \<Rightarrow> None)"

definition server_main_step :: "nat \<Rightarrow> server \<Rightarrow> server option" where
  "server_main_step IPnum s =
     (case sv_main s of
        M_create index \<Rightarrow>
          Some (if index < IPnum then goto index HC_lock (s\<lparr>sv_main := M_create (index + 1)\<rparr>) else s\<lparr>sv_main := M_join\<rparr>)
      | M_join \<Rightarrow> (if sv_at s (IPnum - 1) = HC_done then Some (s\<lparr>sv_main := M_print []\<rparr>) else None)
      | M_print out \<Rightarrow>
          Some (s\<lparr>sv_main := (if length out < 26 then M_print (out @ [sv_ans s ! length out]) else M_return out)\<rparr>)
      | M_return out \<Rightarrow> None)"

text \<open>\<open>None\<close> runs \<open>main\<close>, \<open>Some i\<close> the thread \<open>i\<close>; nothing runs once \<open>main\<close> has returned.\<close>

definition srv_step :: "int list list \<Rightarrow> nat option \<Rightarrow> server \<Rightarrow> server option" where
  "srv_step replies who s =
     (case sv_main s of
        M_return out \<Rightarrow> None
      | _ \<Rightarrow> (case who of None \<Rightarrow> server_main_step (length replies) s | Some i \<Rightarrow> client_thread_step replies i s))"

definition srv_moves :: "int list list \<Rightarrow> server \<Rightarrow> server \<Rightarrow> bool" where
  "srv_moves replies s s' \<longleftrightarrow> (\<exists>who. srv_step replies who s = Some s')"

definition srv_begin :: server where
  "srv_begin = \<lparr>sv_ans = replicate 26 0, sv_lock = None, sv_at = (\<lambda>_. HC_new), sv_main = M_create 0\<rparr>"

section \<open>The invariant\<close>

fun working :: "hc_pc \<Rightarrow> bool" where
  "working (HC_load k) \<longleftrightarrow> True"
| "working (HC_store k v) \<longleftrightarrow> True"
| "working pc \<longleftrightarrow> False"

text \<open>How many of its numbers a thread has added.\<close>

fun upto_pc :: "hc_pc \<Rightarrow> nat" where
  "upto_pc HC_done = 26"
| "upto_pc (HC_load k) = k"
| "upto_pc (HC_store k v) = k"
| "upto_pc pc = 0"

definition added_by :: "int list list \<Rightarrow> server \<Rightarrow> nat \<Rightarrow> nat set" where
  "added_by replies s k = {i. i < length replies \<and> k < upto_pc (sv_at s i)}"

fun pc_ok :: "int list \<Rightarrow> hc_pc \<Rightarrow> bool" where
  "pc_ok ans (HC_load k) \<longleftrightarrow> k \<le> 26"
| "pc_ok ans (HC_store k v) \<longleftrightarrow> k < 26 \<and> v = ans ! k"
| "pc_ok ans pc \<longleftrightarrow> True"

fun created :: "nat \<Rightarrow> main_pc \<Rightarrow> nat" where
  "created n (M_create j) = j"
| "created n pc = n"

fun main_ok :: "int list list \<Rightarrow> server \<Rightarrow> main_pc \<Rightarrow> bool" where
  "main_ok replies s (M_create j) \<longleftrightarrow> j \<le> length replies"
| "main_ok replies s M_join \<longleftrightarrow> True"
| "main_ok replies s (M_print out) \<longleftrightarrow> length out \<le> 26 \<and> sv_at s (length replies - 1) = HC_done"
| "main_ok replies s (M_return out) \<longleftrightarrow> length out = 26 \<and> sv_at s (length replies - 1) = HC_done"

definition srv_inv :: "int list list \<Rightarrow> server \<Rightarrow> bool" where
  "srv_inv replies s \<longleftrightarrow> (\<forall>i. working (sv_at s i) \<longleftrightarrow> sv_lock s = Some i)
     \<and> (\<forall>i. sv_at s i = HC_new \<longleftrightarrow> created (length replies) (sv_main s) \<le> i)
     \<and> (\<forall>i. pc_ok (sv_ans s) (sv_at s i))
     \<and> sv_ans s = map (\<lambda>k. \<Sum>i\<in>added_by replies s k. replies ! i ! k) [0..<26]
     \<and> main_ok replies s (sv_main s)"

lemma srv_inv_begin: "srv_inv replies srv_begin"
  by (auto simp: srv_inv_def srv_begin_def added_by_def map_replicate_const)

text \<open>A step of a thread, by the place it is at.\<close>

lemma main_ok_ans: "main_ok replies (s\<lparr>sv_ans := a\<rparr>) pc = main_ok replies s pc" "main_ok replies (s\<lparr>sv_lock := l\<rparr>) pc = main_ok replies s pc"
  "main_ok replies (s\<lparr>sv_main := m\<rparr>) pc = main_ok replies s pc"
  by (cases pc; simp)+

lemma main_ok_goto: "main_ok replies s pc \<Longrightarrow> sv_at s i \<noteq> HC_done \<Longrightarrow> main_ok replies (goto i p s) pc"
  by (cases pc) (auto simp: goto_def)

lemma added_by_goto:
  "added_by replies (goto i pc s) k =
     (if i < length replies \<and> k < upto_pc pc then insert i (added_by replies s k) else added_by replies s k - {i})"
  by (auto simp: added_by_def goto_def)

lemma finite_added_by: "finite (added_by replies s k)"
  by (simp add: added_by_def)

text \<open>Where the counters do not change, neither do the sums.\<close>

lemma sums_same:
  assumes "\<And>k. k < 26 \<Longrightarrow> added_by replies s' k = added_by replies s k" and "sv_ans s' = sv_ans s"
    and "sv_ans s = map (\<lambda>k. \<Sum>i\<in>added_by replies s k. replies ! i ! k) [0..<26]"
  shows "sv_ans s' = map (\<lambda>k. \<Sum>i\<in>added_by replies s' k. replies ! i ! k) [0..<26]"
  unfolding assms(2,3) by (rule map_cong) (simp_all add: assms(1))

lemma sums_store:
  assumes "sv_ans s = map (\<lambda>k. \<Sum>i\<in>added_by replies s k. replies ! i ! k) [0..<26]" and "sv_at s i = HC_store k v"
    and "i < length replies" and "k < 26"
  shows "(sv_ans s)[k := sv_ans s ! k + replies ! i ! k]
    = map (\<lambda>j. \<Sum>l\<in>added_by replies (goto i (HC_load (k + 1)) s) j. replies ! l ! j) [0..<26]"
proof (rule nth_equalityI)
  show "length ((sv_ans s)[k := sv_ans s ! k + replies ! i ! k])
    = length (map (\<lambda>j. \<Sum>l\<in>added_by replies (goto i (HC_load (k + 1)) s) j. replies ! l ! j) [0..<26])"
    using assms(1) by simp
  fix j
  assume "j < length ((sv_ans s)[k := sv_ans s ! k + replies ! i ! k])"
  then have j: "j < 26" using assms(1) by simp
  have i: "i \<in> added_by replies s j \<longleftrightarrow> j < k" using assms(2,3) by (simp add: added_by_def)
  have "added_by replies (goto i (HC_load (k + 1)) s) j = (if j = k then insert i (added_by replies s j) else added_by replies s j)"
    using i assms(3) unfolding added_by_goto by auto
  then show "(sv_ans s)[k := sv_ans s ! k + replies ! i ! k] ! j
    = map (\<lambda>j. \<Sum>l\<in>added_by replies (goto i (HC_load (k + 1)) s) j. replies ! l ! j) [0..<26] ! j"
    using j i assms(1,4) finite_added_by [of replies s j] by (simp add: nth_list_update add.commute)
qed

lemma thread_step_inv:
  assumes inv: "srv_inv replies s" and step: "client_thread_step replies i s = Some s'"
  shows "srv_inv replies s'"
proof -
  have w: "working (sv_at s j) \<longleftrightarrow> sv_lock s = Some j" for j using inv by (simp add: srv_inv_def)
  have c: "sv_at s j = HC_new \<longleftrightarrow> created (length replies) (sv_main s) \<le> j" for j using inv by (simp add: srv_inv_def)
  have p: "pc_ok (sv_ans s) (sv_at s j)" for j using inv unfolding srv_inv_def by blast
  have a: "sv_ans s = map (\<lambda>k. \<Sum>i\<in>added_by replies s k. replies ! i ! k) [0..<26]" using inv by (simp add: srv_inv_def)
  have m: "main_ok replies s (sv_main s)" using inv by (simp add: srv_inv_def)
  have "created (length replies) (sv_main s) \<le> length replies" using m by (cases "sv_main s") auto
  moreover have at: "sv_at s i \<noteq> HC_new" "sv_at s i \<noteq> HC_done" using step by (auto simp: client_thread_step_def)
  ultimately have i: "i < length replies" using c [of i] by auto
  show ?thesis
  proof (cases "sv_at s i")
    case HC_lock
    then have s': "s' = goto i (HC_load 0) (s\<lparr>sv_lock := Some i\<rparr>)" and l: "sv_lock s = None"
      using step by (auto simp: client_thread_step_def split: if_splits)
    have "added_by replies s' k = added_by replies s k" for k
      using HC_lock by (auto simp: s' added_by_def goto_def)
    then have "sv_ans s' = map (\<lambda>k. \<Sum>i\<in>added_by replies s' k. replies ! i ! k) [0..<26]"
      by (intro sums_same [OF _ _ a]) (simp_all add: s' goto_def)
    moreover have "main_ok replies s' (sv_main s')"
      unfolding s' using main_ok_goto [of replies "s\<lparr>sv_lock := Some i\<rparr>" "sv_main s" i] m at(2) by (simp add: main_ok_ans goto_def)
    ultimately show ?thesis
      using HC_lock w c [of i] c p l by (auto simp: srv_inv_def s' goto_def)
  next
    case (HC_load k)
    then have lock: "sv_lock s = Some i" using w [of i] by simp
    show ?thesis
    proof (cases "k < 26")
      case True
      then have s': "s' = goto i (HC_store k (sv_ans s ! k)) s" using step HC_load by (simp add: client_thread_step_def)
      have "added_by replies s' j = added_by replies s j" for j
        using HC_load by (auto simp: s' added_by_def goto_def)
      then have "sv_ans s' = map (\<lambda>k. \<Sum>i\<in>added_by replies s' k. replies ! i ! k) [0..<26]"
        by (intro sums_same [OF _ _ a]) (simp_all add: s' goto_def)
      moreover have "main_ok replies s' (sv_main s')"
        unfolding s' using main_ok_goto [OF m at(2)] by (simp add: goto_def)
      ultimately show ?thesis
        using True HC_load lock w c [of i] c p by (auto simp: srv_inv_def s' goto_def)
    next
      case False
      then have s': "s' = goto i HC_done (s\<lparr>sv_lock := None\<rparr>)" using step HC_load by (simp add: client_thread_step_def)
      have "added_by replies s' j = added_by replies s j" if "j < 26" for j
        using HC_load False that by (auto simp: s' added_by_def goto_def)
      then have "sv_ans s' = map (\<lambda>k. \<Sum>i\<in>added_by replies s' k. replies ! i ! k) [0..<26]"
        by (intro sums_same [OF _ _ a]) (simp_all add: s' goto_def)
      moreover have "main_ok replies s' (sv_main s')"
        unfolding s' using main_ok_goto [of replies "s\<lparr>sv_lock := None\<rparr>" "sv_main s" i] m at(2) by (simp add: main_ok_ans goto_def)
      ultimately show ?thesis
        using HC_load lock w c [of i] c p by (auto simp: srv_inv_def s' goto_def)
    qed
  next
    case (HC_store k v)
    then have lock: "sv_lock s = Some i" and v: "k < 26" "v = sv_ans s ! k" using w [of i] p [of i] by auto
    have s': "s' = goto i (HC_load (k + 1)) (s\<lparr>sv_ans := (sv_ans s)[k := v + replies ! i ! k]\<rparr>)"
      using step HC_store by (simp add: client_thread_step_def)
    have "sv_ans s' = map (\<lambda>k. \<Sum>i\<in>added_by replies s' k. replies ! i ! k) [0..<26]"
      using sums_store [OF a HC_store i v(1)] by (simp add: s' goto_def v(2) added_by_def)
    moreover have "main_ok replies s' (sv_main s')"
      unfolding s' using main_ok_goto [of replies "s\<lparr>sv_ans := (sv_ans s)[k := v + replies ! i ! k]\<rparr>" "sv_main s" i] m at(2)
      by (simp add: main_ok_ans goto_def)
    moreover have "pc_ok (sv_ans s') (sv_at s' j)" for j
    proof (cases "j = i")
      case True
      then show ?thesis using v(1) by (simp add: s' goto_def)
    next
      case False
      then have "\<not> working (sv_at s j)" using w [of j] lock by simp
      then show ?thesis using False by (cases "sv_at s j") (auto simp: s' goto_def)
    qed
    ultimately show ?thesis
      using HC_store lock w c [of i] c by (auto simp: srv_inv_def s' goto_def)
  qed (use at in auto)
qed

lemma main_step_inv:
  assumes inv: "srv_inv replies s" and step: "server_main_step (length replies) s = Some s'"
  shows "srv_inv replies s'"
proof (cases "sv_main s")
  case (M_create j)
  show ?thesis
  proof (cases "j < length replies")
    case True
    then have s': "s' = goto j HC_lock (s\<lparr>sv_main := M_create (j + 1)\<rparr>)" using step M_create by (simp add: server_main_step_def)
    have new: "sv_at s j = HC_new" using inv M_create by (simp add: srv_inv_def)
    moreover have "working (sv_at s j) \<longleftrightarrow> sv_lock s = Some j" using inv by (simp add: srv_inv_def)
    ultimately have "sv_lock s \<noteq> Some j" by simp
    have "added_by replies s' k = added_by replies s k" for k
      using new by (auto simp: s' added_by_def goto_def)
    then have "sv_ans s' = map (\<lambda>k. \<Sum>i\<in>added_by replies s' k. replies ! i ! k) [0..<26]"
      using inv by (intro sums_same [of replies s' s]) (simp_all add: s' goto_def srv_inv_def)
    then show ?thesis using inv M_create True new \<open>sv_lock s \<noteq> Some j\<close> by (auto simp: srv_inv_def s' goto_def)
  next
    case False
    then have "s' = s\<lparr>sv_main := M_join\<rparr>" using step M_create by (simp add: server_main_step_def)
    then show ?thesis using inv M_create False by (auto simp: srv_inv_def added_by_def main_ok_ans)
  qed
next
  case M_join
  then have "s' = s\<lparr>sv_main := M_print []\<rparr>" "sv_at s (length replies - 1) = HC_done"
    using step by (auto simp: server_main_step_def split: if_splits)
  then show ?thesis using inv M_join by (auto simp: srv_inv_def added_by_def)
next
  case (M_print out)
  then have "length out \<le> 26" using inv by (simp add: srv_inv_def)
  then show ?thesis
    using inv M_print step by (auto simp: srv_inv_def server_main_step_def added_by_def split: if_splits)
next
  case (M_return out)
  then show ?thesis using step by (simp add: server_main_step_def)
qed

lemma srv_step_inv:
  assumes "srv_inv replies s" and "srv_step replies who s = Some s'"
  shows "srv_inv replies s'"
  using assms thread_step_inv [OF assms(1)] main_step_inv [OF assms(1)]
  by (auto simp: srv_step_def split: main_pc.splits option.splits)

lemma srv_moves_inv:
  assumes "(srv_moves replies)\<^sup>*\<^sup>* s s'" and "srv_inv replies s"
  shows "srv_inv replies s'"
  using assms by (induction rule: rtranclp_induct) (auto simp: srv_moves_def dest: srv_step_inv)

lemmas srv_reachable_inv = srv_moves_inv [OF _ srv_inv_begin]

section \<open>What is printed\<close>

text \<open>The threads \<open>E\<close> are done; every count printed so far is a sum that includes theirs and the last thread's.\<close>

definition printed_ok :: "int list list \<Rightarrow> nat set \<Rightarrow> int list \<Rightarrow> bool" where
  "printed_ok replies E out \<longleftrightarrow> (\<forall>k < length out. \<exists>D. insert (length replies - 1) E \<subseteq> D \<and> D \<subseteq> {..<length replies}
     \<and> out ! k = (\<Sum>i\<in>D. replies ! i ! k))"

definition print_inv :: "int list list \<Rightarrow> nat set \<Rightarrow> server \<Rightarrow> bool" where
  "print_inv replies E s \<longleftrightarrow> (\<forall>i\<in>E. sv_at s i = HC_done)
     \<and> (case sv_main s of M_print out \<Rightarrow> printed_ok replies E out | M_return out \<Rightarrow> printed_ok replies E out | _ \<Rightarrow> True)"

lemma printed_ok_Nil: "printed_ok replies E []"
  by (simp add: printed_ok_def)

lemma print_inv_step:
  assumes inv: "srv_inv replies s" and E: "E \<subseteq> {..<length replies}" "replies \<noteq> []" and p: "print_inv replies E s"
    and step: "srv_step replies who s = Some s'"
  shows "print_inv replies E s'"
proof (cases who)
  case (Some i)
  then have t: "client_thread_step replies i s = Some s'" using step by (simp add: srv_step_def split: main_pc.splits)
  then have "i \<notin> E" "sv_main s' = sv_main s" "sv_at s' j = sv_at s j \<or> j = i" for j
    using p by (auto simp: client_thread_step_def print_inv_def goto_def split: hc_pc.splits if_splits)
  then show ?thesis using p unfolding print_inv_def by metis
next
  case None
  then have m: "server_main_step (length replies) s = Some s'" using step by (simp add: srv_step_def split: main_pc.splits)
  show ?thesis
  proof (cases "sv_main s")
    case (M_create j)
    have "sv_at s j = HC_new" if "j < length replies" using inv M_create by (simp add: srv_inv_def)
    then show ?thesis using m p M_create by (auto simp: server_main_step_def print_inv_def goto_def split: if_splits)
  next
    case M_join
    then show ?thesis using m p by (auto simp: server_main_step_def print_inv_def printed_ok_Nil split: if_splits)
  next
    case (M_print out)
    have a: "sv_ans s = map (\<lambda>k. \<Sum>i\<in>added_by replies s k. replies ! i ! k) [0..<26]"
      and l: "sv_at s (length replies - 1) = HC_done" using inv M_print by (simp_all add: srv_inv_def)
    show ?thesis
    proof (cases "length out < 26")
      case True
      let ?D = "added_by replies s (length out)"
      have "length replies - 1 < length replies" using E(2) by simp
      then have "insert (length replies - 1) E \<subseteq> ?D" "?D \<subseteq> {..<length replies}"
        using p l E(1) True by (auto simp: added_by_def print_inv_def)
      moreover have "sv_ans s ! length out = (\<Sum>i\<in>?D. replies ! i ! length out)" using a True by simp
      ultimately have "printed_ok replies E (out @ [sv_ans s ! length out])"
        using p M_print unfolding printed_ok_def print_inv_def by (auto simp: nth_append less_Suc_eq)
      then show ?thesis using m p M_print True by (auto simp: server_main_step_def print_inv_def)
    next
      case False
      then show ?thesis using m p M_print by (auto simp: server_main_step_def print_inv_def)
    qed
  next
    case (M_return out)
    then show ?thesis using m by (simp add: server_main_step_def)
  qed
qed

lemma print_inv_moves:
  assumes "(srv_moves replies)\<^sup>*\<^sup>* s s'" and "srv_inv replies s" and "E \<subseteq> {..<length replies}" "replies \<noteq> []" and "print_inv replies E s"
  shows "print_inv replies E s'"
  using assms(1)
proof (induction rule: rtranclp_induct)
  case (step t u)
  then show ?case
    using print_inv_step [OF srv_moves_inv [OF step.hyps(1) assms(2)] assms(3,4)] by (auto simp: srv_moves_def)
qed (rule assms(5))

section \<open>The end\<close>

fun thread_left :: "hc_pc \<Rightarrow> nat" where
  "thread_left HC_done = 0"
| "thread_left (HC_load k) = 53 - 2 * k"
| "thread_left (HC_store k v) = 52 - 2 * k"
| "thread_left pc = 54"

fun main_left :: "nat \<Rightarrow> main_pc \<Rightarrow> nat" where
  "main_left n (M_create j) = n - j + 29"
| "main_left n M_join = 28"
| "main_left n (M_print out) = 27 - length out"
| "main_left n (M_return out) = 0"

definition steps_left :: "int list list \<Rightarrow> server \<Rightarrow> nat" where
  "steps_left replies s = (\<Sum>i<length replies. thread_left (sv_at s i)) + main_left (length replies) (sv_main s)"

lemma thread_sum_goto:
  assumes "i < n" and "thread_left (sv_at s i) = thread_left pc + d"
  shows "(\<Sum>j<n. thread_left (sv_at s j)) = (\<Sum>j<n. thread_left (sv_at (goto i pc s) j)) + d"
proof -
  have "(\<Sum>j\<in>{..<n} - {i}. thread_left (sv_at (goto i pc s) j)) = (\<Sum>j\<in>{..<n} - {i}. thread_left (sv_at s j))"
    by (rule sum.cong) (auto simp: goto_def)
  moreover have "sum f {..<n} = f i + sum f ({..<n} - {i})" for f :: "nat \<Rightarrow> nat"
    using assms(1) by (simp add: sum.remove)
  ultimately show ?thesis using assms(2) by (simp add: goto_def)
qed

lemma thread_step_left:
  assumes inv: "srv_inv replies s" and step: "client_thread_step replies i s = Some s'"
  shows "steps_left replies s = Suc (steps_left replies s')"
proof -
  have p: "pc_ok (sv_ans s) (sv_at s i)" using inv unfolding srv_inv_def by blast
  have c: "sv_at s i = HC_new \<longleftrightarrow> created (length replies) (sv_main s) \<le> i" and m: "main_ok replies s (sv_main s)"
    using inv unfolding srv_inv_def by blast+
  have "created (length replies) (sv_main s) \<le> length replies" using m by (cases "sv_main s") auto
  moreover have "sv_at s i \<noteq> HC_new" using step by (auto simp: client_thread_step_def)
  ultimately have i: "i < length replies" using c by auto
  obtain pc where "sv_at s' = (sv_at s)(i := pc)" "sv_main s' = sv_main s" "thread_left (sv_at s i) = Suc (thread_left pc)"
    using step p by (auto simp: client_thread_step_def goto_def split: hc_pc.splits if_splits)
  moreover from this have "(\<Sum>j<length replies. thread_left (sv_at s j)) = (\<Sum>j<length replies. thread_left (sv_at (goto i pc s) j)) + 1"
    by (intro thread_sum_goto [OF i]) simp
  ultimately show ?thesis by (simp add: steps_left_def goto_def)
qed

lemma main_step_left:
  assumes inv: "srv_inv replies s" and step: "server_main_step (length replies) s = Some s'"
  shows "steps_left replies s = Suc (steps_left replies s')"
proof -
  have m: "main_ok replies s (sv_main s)" using inv by (simp add: srv_inv_def)
  show ?thesis
  proof (cases "sv_main s")
    case (M_create j)
    show ?thesis
    proof (cases "j < length replies")
      case True
      have "sv_at s j = HC_new" using inv M_create by (simp add: srv_inv_def)
      then have "(\<Sum>i<length replies. thread_left (sv_at s i)) = (\<Sum>i<length replies. thread_left (sv_at (goto j HC_lock s) i)) + 0"
        by (intro thread_sum_goto [OF True]) simp
      then show ?thesis using M_create step True by (auto simp: steps_left_def server_main_step_def goto_def)
    next
      case False
      then show ?thesis using M_create step m by (auto simp: steps_left_def server_main_step_def)
    qed
  next
    case (M_print out)
    then show ?thesis using step m by (auto simp: steps_left_def server_main_step_def split: if_splits)
  qed (use step in \<open>auto simp: steps_left_def server_main_step_def split: if_splits\<close>)
qed

lemma srv_step_left:
  assumes "srv_inv replies s" and "srv_step replies who s = Some s'"
  shows "steps_left replies s = Suc (steps_left replies s')"
  using assms(2) thread_step_left [OF assms(1)] main_step_left [OF assms(1)]
  by (auto simp: srv_step_def split: main_pc.splits option.splits)

lemma srv_moves_left:
  "(srv_moves replies ^^ k) srv_begin s \<Longrightarrow> srv_inv replies s \<and> steps_left replies srv_begin = k + steps_left replies s"
proof (induction k arbitrary: s)
  case 0
  then show ?case by (simp add: srv_inv_begin)
next
  case (Suc k)
  then obtain t where t: "(srv_moves replies ^^ k) srv_begin t" "srv_moves replies t s" by auto
  then obtain who where "srv_step replies who t = Some s" by (auto simp: srv_moves_def)
  then show ?case using Suc.IH [OF t(1)] srv_step_inv srv_step_left by fastforce
qed

text \<open>Someone can always go on: the owner of the lock, or the thread \<open>main\<close> waits for, or \<open>main\<close>.\<close>

lemma srv_goes_on:
  assumes inv: "srv_inv replies s" and n: "replies \<noteq> []" and m: "\<And>out. sv_main s \<noteq> M_return out"
  shows "\<exists>s'. srv_moves replies s s'"
proof -
  have step: "\<exists>s'. srv_moves replies s s'" if "(case who of None \<Rightarrow> server_main_step (length replies) s | Some i \<Rightarrow> client_thread_step replies i s) \<noteq> None" for who
    using m that by (cases "sv_main s") (auto simp: srv_moves_def srv_step_def)
  show ?thesis
  proof (cases "sv_main s = M_join")
    case True
    let ?l = "length replies - 1"
    have w: "working (sv_at s j) \<longleftrightarrow> sv_lock s = Some j" for j using inv by (simp add: srv_inv_def)
    have "\<not> length replies \<le> ?l" using n by (cases replies) auto
    then have new: "sv_at s ?l \<noteq> HC_new" using inv True unfolding srv_inv_def by simp
    show ?thesis
    proof (cases "sv_lock s")
      case None
      then have "\<not> working (sv_at s ?l)" using w by simp
      then show ?thesis using step [of None] step [of "Some ?l"] True new None
        by (cases "sv_at s ?l") (auto simp: server_main_step_def client_thread_step_def)
    next
      case (Some j)
      then have "working (sv_at s j)" using w by simp
      then show ?thesis using step [of "Some j"]
        by (cases "sv_at s j") (auto simp: client_thread_step_def)
    qed
  next
    case False
    then show ?thesis using step [of None] m by (cases "sv_main s") (auto simp: server_main_step_def)
  qed
qed

section \<open>Runs\<close>

text \<open>One thread alone, from the lock to the end.\<close>

definition srv_state :: "int list \<Rightarrow> nat option \<Rightarrow> (nat \<Rightarrow> hc_pc) \<Rightarrow> main_pc \<Rightarrow> server" where
  "srv_state ans lock at m = \<lparr>sv_ans = ans, sv_lock = lock, sv_at = at, sv_main = m\<rparr>"

lemma thread_move:
  assumes "client_thread_step replies i s = Some s'" and "\<And>out. sv_main s \<noteq> M_return out"
  shows "srv_moves replies s s'"
  using assms by (cases "sv_main s") (auto simp: srv_moves_def srv_step_def intro: exI [of _ "Some i"])

lemma thread_adds:
  assumes "length ans = 26" and m: "\<And>out. m \<noteq> M_return out" and at: "at i = HC_load 0"
  shows "k \<le> 26 \<Longrightarrow> (srv_moves replies)\<^sup>*\<^sup>* (srv_state ans (Some i) at m)
    (srv_state (map (\<lambda>j. ans ! j + (if j < k then replies ! i ! j else 0)) [0..<26]) (Some i) (at(i := HC_load k)) m)"
proof (induction k)
  case 0
  have "map ((!) ans) [0..<26] = ans" using assms(1) map_nth [of ans] by simp
  then show ?case using at by (simp add: fun_upd_idem)
next
  case (Suc k)
  let ?a = "\<lambda>k. map (\<lambda>j. ans ! j + (if j < k then replies ! i ! j else 0)) [0..<26]"
  have k: "k < 26" using Suc.prems by simp
  have "srv_moves replies (srv_state (?a k) (Some i) (at(i := HC_load k)) m) (srv_state (?a k) (Some i) (at(i := HC_store k (ans ! k))) m)"
    using k m by (intro thread_move [of _ i]) (auto simp: client_thread_step_def goto_def srv_state_def)
  moreover have "(?a k)[k := ans ! k + replies ! i ! k] = ?a (Suc k)"
    using k by (intro nth_equalityI) (auto simp: nth_list_update)
  then have "srv_moves replies (srv_state (?a k) (Some i) (at(i := HC_store k (ans ! k))) m) (srv_state (?a (Suc k)) (Some i) (at(i := HC_load (Suc k))) m)"
    using k m by (intro thread_move [of _ i]) (auto simp: client_thread_step_def goto_def srv_state_def)
  ultimately show ?case using Suc by (meson Suc_leD rtranclp.rtrancl_into_rtrancl)
qed

lemma thread_runs:
  assumes "length ans = 26" and m: "\<And>out. m \<noteq> M_return out" and at: "at i = HC_lock"
  shows "(srv_moves replies)\<^sup>*\<^sup>* (srv_state ans None at m) (srv_state (handle_client (replies ! i) ans) None (at(i := HC_done)) m)"
proof -
  have "srv_moves replies (srv_state ans None at m) (srv_state ans (Some i) (at(i := HC_load 0)) m)"
    using m at by (intro thread_move [of _ i]) (auto simp: client_thread_step_def goto_def srv_state_def)
  moreover have "map (\<lambda>j. ans ! j + (if j < 26 then replies ! i ! j else 0)) [0..<26] = handle_client (replies ! i) ans"
    by (auto simp: handle_client_def)
  then have "(srv_moves replies)\<^sup>*\<^sup>* (srv_state ans (Some i) (at(i := HC_load 0)) m)
    (srv_state (handle_client (replies ! i) ans) (Some i) (at(i := HC_load 26)) m)"
    using thread_adds [OF assms(1,2), of "at(i := HC_load 0)" i 26 replies] by simp
  moreover have "srv_moves replies (srv_state (handle_client (replies ! i) ans) (Some i) (at(i := HC_load 26)) m)
    (srv_state (handle_client (replies ! i) ans) None (at(i := HC_done)) m)"
    using m by (intro thread_move [of _ i]) (auto simp: client_thread_step_def goto_def srv_state_def)
  ultimately show ?thesis by (meson converse_rtranclp_into_rtranclp rtranclp.rtrancl_into_rtrancl)
qed

lemma main_move:
  assumes "server_main_step (length replies) s = Some s'"
  shows "srv_moves replies s s'"
  using assms by (cases "sv_main s") (auto simp: srv_moves_def srv_step_def server_main_step_def intro!: exI [of _ None])

lemma main_creates:
  "j \<le> length replies \<Longrightarrow> (srv_moves replies)\<^sup>*\<^sup>* srv_begin
    (srv_state (replicate 26 0) None (\<lambda>i. if i < j then HC_lock else HC_new) (M_create j))"
proof (induction j)
  case 0
  then show ?case by (simp add: srv_begin_def srv_state_def)
next
  case (Suc j)
  have "srv_moves replies (srv_state (replicate 26 0) None (\<lambda>i. if i < j then HC_lock else HC_new) (M_create j))
      (srv_state (replicate 26 0) None (\<lambda>i. if i < Suc j then HC_lock else HC_new) (M_create (Suc j)))"
    using Suc.prems by (intro main_move) (auto simp: server_main_step_def goto_def srv_state_def less_Suc_eq fun_eq_iff)
  then show ?case using Suc by (meson Suc_leD rtranclp.rtrancl_into_rtrancl)
qed

lemma main_prints:
  "length out + d \<le> 26 \<Longrightarrow> (srv_moves replies)\<^sup>*\<^sup>* (srv_state ans l at (M_print out))
    (srv_state ans l at (M_print (out @ map (\<lambda>k. ans ! (length out + k)) [0..<d])))"
proof (induction d)
  case (Suc d)
  let ?o = "\<lambda>d. out @ map (\<lambda>k. ans ! (length out + k)) [0..<d]"
  have "srv_moves replies (srv_state ans l at (M_print (?o d))) (srv_state ans l at (M_print (?o (Suc d))))"
    using Suc.prems by (intro main_move) (simp add: server_main_step_def srv_state_def)
  moreover have "length out + d \<le> 26" using Suc.prems by simp
  ultimately show ?case using Suc.IH by (meson rtranclp.rtrancl_into_rtrancl)
qed simp

text \<open>The threads below \<open>m\<close>, one after the other.\<close>

lemma threads_run:
  assumes "length ans = 26" and "\<And>out. pc \<noteq> M_return out"
  shows "(\<And>i. i < m \<Longrightarrow> at i = HC_lock) \<Longrightarrow> (srv_moves replies)\<^sup>*\<^sup>* (srv_state ans None at pc)
    (srv_state (map (\<lambda>k. ans ! k + (\<Sum>i<m. replies ! i ! k)) [0..<26]) None (\<lambda>i. if i < m then HC_done else at i) pc)"
proof (induction m)
  case 0
  have "map ((!) ans) [0..<26] = ans" using assms(1) map_nth [of ans] by simp
  then show ?case by simp
next
  case (Suc m)
  let ?a = "\<lambda>m. map (\<lambda>k. ans ! k + (\<Sum>i<m. replies ! i ! k)) [0..<26]" and ?at = "\<lambda>m i. if i < m then HC_done else at i"
  have "handle_client (replies ! m) (?a m) = ?a (Suc m)" by (simp add: handle_client_def add.assoc)
  moreover have "(?at m)(m := HC_done) = ?at (Suc m)" by (auto simp: fun_eq_iff less_Suc_eq)
  ultimately have "(srv_moves replies)\<^sup>*\<^sup>* (srv_state (?a m) None (?at m) pc) (srv_state (?a (Suc m)) None (?at (Suc m)) pc)"
    using thread_runs [of "?a m" pc "?at m" m replies] assms(2) Suc.prems by simp
  then show ?case using Suc.IH Suc.prems by (meson less_SucI rtranclp_trans)
qed

lemma main_joins:
  "(srv_moves replies)\<^sup>*\<^sup>* srv_begin (srv_state (replicate 26 0) None (\<lambda>i. if i < length replies then HC_lock else HC_new) M_join)"
proof -
  let ?s = "srv_state (replicate 26 0) None (\<lambda>i. if i < length replies then HC_lock else HC_new)"
  have "(srv_moves replies)\<^sup>*\<^sup>* srv_begin (?s (M_create (length replies)))" by (rule main_creates) simp
  moreover have "srv_moves replies (?s (M_create (length replies))) (?s M_join)"
    by (rule main_move) (simp add: server_main_step_def srv_state_def)
  ultimately show ?thesis by (rule rtranclp.rtrancl_into_rtrancl)
qed

text \<open>A state in which the thread \<open>t\<close> is done and the others wait.\<close>

lemma one_done:
  assumes "t < length replies"
  shows "(srv_moves replies)\<^sup>*\<^sup>* srv_begin (srv_state (handle_client (replies ! t) (replicate 26 0)) None
    (\<lambda>i. if i = t then HC_done else if i < length replies then HC_lock else HC_new) M_join)"
proof -
  let ?a = "replicate 26 (0 :: int)" and ?at = "\<lambda>i. if i < length replies then HC_lock else HC_new"
  have "(srv_moves replies)\<^sup>*\<^sup>* (srv_state ?a None ?at M_join) (srv_state (handle_client (replies ! t) ?a) None (?at(t := HC_done)) M_join)"
    using assms by (intro thread_runs) auto
  moreover have "?at(t := HC_done) = (\<lambda>i. if i = t then HC_done else if i < length replies then HC_lock else HC_new)" by auto
  ultimately show ?thesis using rtranclp_trans [OF main_joins] by simp
qed

text \<open>A run that prints the first \<open>j\<close> counts of \<open>ans\<close>, then lets the remaining threads below \<open>m\<close> finish, then prints the others.\<close>

lemma print_split:
  assumes "length ans = 26" and "j \<le> 26" and "at (length replies - 1) = HC_done" and "\<And>i. i < m \<Longrightarrow> at i = HC_lock"
  shows "(srv_moves replies)\<^sup>*\<^sup>* (srv_state ans None at M_join)
    (srv_state (map (\<lambda>k. ans ! k + (\<Sum>i<m. replies ! i ! k)) [0..<26]) None (\<lambda>i. if i < m then HC_done else at i)
      (M_return (map (\<lambda>k. if k < j then ans ! k else ans ! k + (\<Sum>i<m. replies ! i ! k)) [0..<26])))"
proof -
  let ?a = "map (\<lambda>k. ans ! k + (\<Sum>i<m. replies ! i ! k)) [0..<26]" and ?at = "\<lambda>i. if i < m then HC_done else at i"
  let ?o = "map (\<lambda>k. ans ! k) [0..<j]"
  let ?out = "map (\<lambda>k. if k < j then ans ! k else ans ! k + (\<Sum>i<m. replies ! i ! k)) [0..<26]"
  have "srv_moves replies (srv_state ans None at M_join) (srv_state ans None at (M_print []))"
    using assms(3) by (intro main_move) (simp add: server_main_step_def srv_state_def)
  moreover have "(srv_moves replies)\<^sup>*\<^sup>* (srv_state ans None at (M_print [])) (srv_state ans None at (M_print ?o))"
    using main_prints [of "[]" j replies ans None at] assms(2) by simp
  moreover have "(srv_moves replies)\<^sup>*\<^sup>* (srv_state ans None at (M_print ?o)) (srv_state ?a None ?at (M_print ?o))"
    by (rule threads_run) (use assms in auto)
  moreover have "?o @ map (\<lambda>k. ?a ! (length ?o + k)) [0..<26 - j] = ?out"
    using assms(2) by (intro nth_equalityI) (auto simp: nth_append)
  then have "(srv_moves replies)\<^sup>*\<^sup>* (srv_state ?a None ?at (M_print ?o)) (srv_state ?a None ?at (M_print ?out))"
    using main_prints [of ?o "26 - j" replies ?a None ?at] assms(2) by (simp del: map_map)
  moreover have "srv_moves replies (srv_state ?a None ?at (M_print ?out)) (srv_state ?a None ?at (M_return ?out))"
    by (rule main_move) (simp add: server_main_step_def srv_state_def)
  ultimately show ?thesis by (meson converse_rtranclp_into_rtranclp rtranclp.rtrancl_into_rtrancl rtranclp_trans)
qed

lemma all_done:
  assumes "0 < length replies"
  shows "\<exists>s. (srv_moves replies)\<^sup>*\<^sup>* srv_begin s \<and> sv_main s = M_join \<and> (\<forall>i < length replies. sv_at s i = HC_done)
    \<and> (\<exists>s' out. (srv_moves replies)\<^sup>*\<^sup>* s s' \<and> sv_main s' = M_return out)"
proof -
  let ?n = "length replies" and ?a = "replicate 26 (0 :: int)"
  let ?at = "\<lambda>i. if i < ?n then HC_lock else HC_new"
  let ?b = "map (\<lambda>k. ?a ! k + (\<Sum>i<?n. replies ! i ! k)) [0..<26]" and ?done = "\<lambda>i. if i < ?n then HC_done else ?at i"
  have "(srv_moves replies)\<^sup>*\<^sup>* (srv_state ?a None ?at M_join) (srv_state ?b None ?done M_join)"
    by (rule threads_run) auto
  then have "(srv_moves replies)\<^sup>*\<^sup>* srv_begin (srv_state ?b None ?done M_join)" by (rule rtranclp_trans [OF main_joins])
  moreover have "(srv_moves replies)\<^sup>*\<^sup>* (srv_state ?b None ?done M_join)
    (srv_state (map (\<lambda>k. ?b ! k + (\<Sum>i<0. replies ! i ! k)) [0..<26]) None (\<lambda>i. if i < 0 then HC_done else ?done i)
      (M_return (map (\<lambda>k. if k < 0 then ?b ! k else ?b ! k + (\<Sum>i<0. replies ! i ! k)) [0..<26])))"
    by (rule print_split) (use assms in auto)
  ultimately show ?thesis by (intro exI conjI) (assumption | simp add: srv_state_def)+
qed

section \<open>Properties\<close>

lemma srv_reach_set: "finite D \<Longrightarrow> D \<subseteq> {..<length replies} \<Longrightarrow> srv_reach replies D (map (\<lambda>k. \<Sum>i\<in>D. replies ! i ! k) [0..<26])"
proof (induction D rule: finite_induct)
  case empty
  then show ?case using srv_reach.start by (simp add: map_replicate_const)
next
  case (insert i D)
  have "handle_client (replies ! i) (map (\<lambda>k. \<Sum>i\<in>D. replies ! i ! k) [0..<26]) = map (\<lambda>k. \<Sum>i\<in>insert i D. replies ! i ! k) [0..<26]"
    using insert.hyps by (simp add: handle_client_def add.commute)
  then show ?case using srv_reach.finish [of replies D _ i] insert by fastforce
qed

text \<open>C22. The mutex of the server works: in every reachable state at most one thread is between \<open>pthread_mutex_lock\<close> and
  \<open>pthread_mutex_unlock\<close>, and whenever the lock is free, \<open>ans\<close> is what the finished threads give when each adds its answer at once:
  although an addition is a load and a store, no update is lost.\<close>

theorem answers_locked:
  assumes "(srv_moves replies)\<^sup>*\<^sup>* srv_begin s"
  shows "(working (sv_at s i) \<and> working (sv_at s j) \<longrightarrow> i = j)
    \<and> (sv_lock s = None \<longrightarrow> srv_reach replies {i. i < length replies \<and> sv_at s i = HC_done} (sv_ans s))"
proof -
  have inv: "srv_inv replies s" using srv_reachable_inv [OF assms] .
  then have w: "working (sv_at s k) \<longleftrightarrow> sv_lock s = Some k" for k by (simp add: srv_inv_def)
  have a: "sv_ans s = map (\<lambda>k. \<Sum>i\<in>added_by replies s k. replies ! i ! k) [0..<26]" using inv by (simp add: srv_inv_def)
  let ?D = "{i. i < length replies \<and> sv_at s i = HC_done}"
  have "srv_reach replies ?D (sv_ans s)" if "sv_lock s = None"
  proof -
    have nw: "\<not> working (sv_at s i)" for i using w that by simp
    have "k < upto_pc (sv_at s i) \<longleftrightarrow> sv_at s i = HC_done" if "k < 26" for i k
      using that nw [of i] by (cases "sv_at s i") auto
    then have "added_by replies s k = ?D" if "k < 26" for k using that by (auto simp: added_by_def)
    then have "sv_ans s = map (\<lambda>k. \<Sum>i\<in>?D. replies ! i ! k) [0..<26]" unfolding a by (intro map_cong) auto
    then show ?thesis using srv_reach_set [of ?D replies] by auto
  qed
  then show ?thesis using w by auto
qed

theorem answers_locked_witness:
  "\<exists>s. (srv_moves demo_replies)\<^sup>*\<^sup>* srv_begin s \<and> sv_at s 0 = HC_lock \<and> sv_at s 1 = HC_done
     \<and> srv_reach demo_replies {i. i < length demo_replies \<and> sv_at s i = HC_done} (sv_ans s)"
proof -
  have "(1 :: nat) < length demo_replies" "0 < length demo_replies" by (simp_all add: demo_replies_def)
  from answers_locked [OF one_done [OF this(1)]] one_done [OF this(1)] this(2) show ?thesis
    by (intro exI conjI) (assumption, simp_all add: srv_state_def)
qed

text \<open>C24. What \<open>main\<close> prints: each count, taken for itself, is the sum over a set of threads that contains the last one and those that were done when the
  creation of threads ended. When all were done by then, the output is the sum of all answers.\<close>

theorem server_prints_each:
  assumes "replies \<noteq> []" and "(srv_moves replies)\<^sup>*\<^sup>* srv_begin s" and "sv_main s = M_join"
    and "(srv_moves replies)\<^sup>*\<^sup>* s s'" and "sv_main s' = M_return out"
  shows "length out = 26
    \<and> (\<forall>k<26. \<exists>D. insert (length replies - 1) {i. i < length replies \<and> sv_at s i = HC_done} \<subseteq> D \<and> D \<subseteq> {..<length replies}
         \<and> out ! k = (\<Sum>i\<in>D. replies ! i ! k))
    \<and> ((\<forall>i < length replies. sv_at s i = HC_done) \<longrightarrow> prints replies {..<length replies} out)"
proof -
  let ?n = "length replies" and ?E = "{i. i < length replies \<and> sv_at s i = HC_done}"
  have inv: "srv_inv replies s" using srv_reachable_inv [OF assms(2)] .
  have "main_ok replies s' (M_return out)" using srv_moves_inv [OF assms(4) inv] assms(5) by (simp add: srv_inv_def)
  then have len: "length out = 26" by simp
  have "print_inv replies ?E s" using assms(3) by (simp add: print_inv_def)
  then have "print_inv replies ?E s'" by (intro print_inv_moves [OF assms(4) inv _ assms(1)]) auto
  then have each: "\<exists>D. insert (?n - 1) ?E \<subseteq> D \<and> D \<subseteq> {..<?n} \<and> out ! k = (\<Sum>i\<in>D. replies ! i ! k)" if "k < 26" for k
    using assms(5) len that by (simp add: print_inv_def printed_ok_def)
  have "prints replies {..<?n} out" if "\<forall>i < ?n. sv_at s i = HC_done"
  proof -
    have "out ! k = (\<Sum>i<?n. replies ! i ! k)" if "k < 26" for k
    proof -
      obtain D where D: "insert (?n - 1) ?E \<subseteq> D" "D \<subseteq> {..<?n}" "out ! k = (\<Sum>i\<in>D. replies ! i ! k)" using each \<open>k < 26\<close> by blast
      then have "D = {..<?n}" using \<open>\<forall>i < ?n. sv_at s i = HC_done\<close> by auto
      then show ?thesis using D(3) by simp
    qed
    then have "out = map (\<lambda>k. \<Sum>i<?n. replies ! i ! k) [0..<26]" using len by (intro nth_equalityI) auto
    then show ?thesis using srv_reach_set [of "{..<?n}" replies] assms(1) by (cases replies) (auto simp: prints_def)
  qed
  then show ?thesis using len each by blast
qed

theorem server_prints_each_witness:
  "\<exists>s s' out. (srv_moves demo_replies)\<^sup>*\<^sup>* srv_begin s \<and> (srv_moves demo_replies)\<^sup>*\<^sup>* s s' \<and> sv_main s' = M_return out
     \<and> prints demo_replies {..<length demo_replies} out"
proof -
  have n: "demo_replies \<noteq> []" "0 < length demo_replies" by (simp_all add: demo_replies_def)
  then obtain s s' out where s: "(srv_moves demo_replies)\<^sup>*\<^sup>* srv_begin s" "sv_main s = M_join" "\<forall>i < length demo_replies. sv_at s i = HC_done"
    "(srv_moves demo_replies)\<^sup>*\<^sup>* s s'" "sv_main s' = M_return out" using all_done [OF n(2)] by blast
  then show ?thesis using server_prints_each [OF n(1) s(1,2,4,5)] by blast
qed

text \<open>C23. The output can be torn: \<open>main\<close> waits for the last thread only and reads the counts without the lock, so with two workers or more, for every letter \<open>j\<close>
  there is a run that prints the last worker's own counts for the letters before \<open>j\<close> and the counts of the whole file from \<open>j\<close> on.\<close>

theorem server_prints_torn:
  assumes "2 \<le> length replies" and "j \<le> 26"
  shows "\<exists>s. (srv_moves replies)\<^sup>*\<^sup>* srv_begin s
    \<and> sv_main s = M_return (map (\<lambda>k. if k < j then last replies ! k else \<Sum>i<length replies. replies ! i ! k) [0..<26])"
proof -
  let ?l = "length replies - 1" and ?n = "length replies"
  let ?a = "handle_client (replies ! ?l) (replicate 26 0)"
  let ?at = "\<lambda>i. if i = ?l then HC_done else if i < ?n then HC_lock else HC_new"
  have l: "?l < ?n" "replies ! ?l = last replies" "{..<?n} = insert ?l {..<?l}"
    using assms(1) last_conv_nth [of replies] by fastforce+
  have a: "?a ! k = last replies ! k" if "k < 26" for k using that l(2) by (simp add: handle_client_def)
  have "(\<Sum>i<?n. replies ! i ! k) = last replies ! k + (\<Sum>i<?l. replies ! i ! k)" for k using l(2,3) by simp
  then have out: "map (\<lambda>k. if k < j then ?a ! k else ?a ! k + (\<Sum>i<?l. replies ! i ! k)) [0..<26]
    = map (\<lambda>k. if k < j then last replies ! k else \<Sum>i<?n. replies ! i ! k) [0..<26]" using a by (intro map_cong) auto
  have "(srv_moves replies)\<^sup>*\<^sup>* (srv_state ?a None ?at M_join)
    (srv_state (map (\<lambda>k. ?a ! k + (\<Sum>i<?l. replies ! i ! k)) [0..<26]) None (\<lambda>i. if i < ?l then HC_done else ?at i)
      (M_return (map (\<lambda>k. if k < j then ?a ! k else ?a ! k + (\<Sum>i<?l. replies ! i ! k)) [0..<26])))"
    by (rule print_split) (use assms(2) in \<open>auto simp: handle_client_def\<close>)
  with one_done [OF l(1)] show ?thesis unfolding out by (intro exI conjI) (erule rtranclp_trans, assumption, simp add: srv_state_def)
qed

theorem server_prints_torn_witness:
  "\<exists>s. (srv_moves demo_replies)\<^sup>*\<^sup>* srv_begin s
    \<and> sv_main s = M_return (map (\<lambda>k. if k < 1 then last demo_replies ! k else \<Sum>i<length demo_replies. demo_replies ! i ! k) [0..<26])"
  by (rule server_prints_torn) (simp_all add: demo_replies_def)

text \<open>C25. The server ends: a run with \<open>n\<close> workers whose answers have arrived has at most \<open>55 n + 29\<close> steps, and it can go on until \<open>main\<close> has returned: no
  thread waits for ever for the lock, and \<open>main\<close> does not wait for ever for the last thread.\<close>

theorem server_ends:
  assumes "replies \<noteq> []" and "(srv_moves replies ^^ k) srv_begin s"
  shows "k \<le> 55 * length replies + 29 \<and> ((\<exists>s'. srv_moves replies s s') \<longleftrightarrow> (\<forall>out. sv_main s \<noteq> M_return out))"
proof -
  have s: "srv_inv replies s" "steps_left replies srv_begin = k + steps_left replies s" using srv_moves_left [OF assms(2)] by simp_all
  have "steps_left replies srv_begin = 55 * length replies + 29" by (simp add: steps_left_def srv_begin_def)
  then have "k \<le> 55 * length replies + 29" using s(2) by simp
  moreover have "\<not> srv_moves replies s s'" if "sv_main s = M_return out" for out s'
    using that by (simp add: srv_moves_def srv_step_def)
  ultimately show ?thesis using srv_goes_on [OF s(1) assms(1)] by blast
qed

theorem server_ends_witness:
  "\<exists>k s. (srv_moves demo_replies ^^ k) srv_begin s \<and> k \<le> 55 * length demo_replies + 29 \<and> (\<exists>s'. srv_moves demo_replies s s')"
proof -
  have n: "demo_replies \<noteq> []" "0 < length demo_replies" by (simp_all add: demo_replies_def)
  then obtain s where s: "(srv_moves demo_replies)\<^sup>*\<^sup>* srv_begin s" "sv_main s = M_join" using all_done [OF n(2)] by blast
  then obtain k where "(srv_moves demo_replies ^^ k) srv_begin s" using rtranclp_imp_relpowp by metis
  then show ?thesis using server_ends [OF n(1), of k s] s(2) by auto
qed

end
