(* ===== verification/Structs.thy ===== *)
theory Structs
  imports NatTable
begin

text \<open>
  The header structs of \<^verbatim>\<open>ether.h\<close>, \<^verbatim>\<open>ip.h\<close>, \<^verbatim>\<open>tcp.h\<close>,
  \<^verbatim>\<open>icmp.h\<close> and \<^verbatim>\<open>arp.h\<close> as records, with the packed layout a little-endian
  compiler gives them: what a pointer to such a struct reads from a buffer, and the bytes of a
  struct. The theorems show that the two are inverse and that the offsets used in the other theories are
  the members' places. The format macros of \<^verbatim>\<open>ip.h\<close> and \<^verbatim>\<open>ether.h\<close> print the
  fields.
\<close>

type_synonym u4 = "4 word"

section \<open>The structs\<close>

record ether_header =
  eh_dhost :: bytes
  eh_shost :: bytes
  eh_type :: u16

record iphdr =
  ih_ihl :: u4
  ih_version :: u4
  ih_tos :: u8
  ih_tot_len :: u16
  ih_id :: u16
  ih_frag_off :: u16
  ih_ttl :: u8
  ih_protocol :: u8
  ih_checksum :: u16
  ih_saddr :: u32
  ih_daddr :: u32

record tcphdr =
  th_sport :: u16
  th_dport :: u16
  th_seq :: u32
  th_ack :: u32
  th_x2 :: u4
  th_off :: u4
  th_flags :: u8
  th_rwnd :: u16
  th_checksum :: u16
  th_urp :: u16

record icmphdr =
  ic_type :: u8
  ic_code :: u8
  ic_checksum :: u16
  ic_identifier :: u16
  ic_sequence :: u16

record ether_arp =
  ar_hrd :: u16
  ar_pro :: u16
  ar_hln :: u8
  ar_pln :: u8
  ar_op :: u16
  ar_sha :: bytes
  ar_spa :: u32
  ar_tha :: bytes
  ar_tpa :: u32

section \<open>Reading and writing them\<close>

text \<open>Bit fields: the first member has the low bits.\<close>

definition low4 :: "u8 \<Rightarrow> u4" where "low4 b = ucast b"
definition high4 :: "u8 \<Rightarrow> u4" where "high4 b = ucast (drop_bit 4 b)"
definition nibbles :: "u4 \<Rightarrow> u4 \<Rightarrow> u8" where "nibbles lo hi = ucast lo OR push_bit 4 (ucast hi)"

definition load_ether_header :: "bytes \<Rightarrow> nat \<Rightarrow> ether_header result" where
  "load_ether_header buf i = (if i + 14 \<le> length buf
     then Inr \<lparr>eh_dhost = take 6 (drop i buf), eh_shost = take 6 (drop (i + 6) buf), eh_type = get16 buf (i + 12)\<rparr>
     else Inl OutOfBounds)"

definition load_iphdr :: "bytes \<Rightarrow> nat \<Rightarrow> iphdr result" where
  "load_iphdr buf i = (if i + 20 \<le> length buf
     then Inr \<lparr>ih_ihl = low4 (buf ! i), ih_version = high4 (buf ! i), ih_tos = buf ! (i + 1),
       ih_tot_len = get16 buf (i + 2), ih_id = get16 buf (i + 4), ih_frag_off = get16 buf (i + 6),
       ih_ttl = buf ! (i + 8), ih_protocol = buf ! (i + 9), ih_checksum = get16 buf (i + 10),
       ih_saddr = get32 buf (i + 12), ih_daddr = get32 buf (i + 16)\<rparr>
     else Inl OutOfBounds)"

definition load_tcphdr :: "bytes \<Rightarrow> nat \<Rightarrow> tcphdr result" where
  "load_tcphdr buf i = (if i + 20 \<le> length buf
     then Inr \<lparr>th_sport = get16 buf i, th_dport = get16 buf (i + 2), th_seq = get32 buf (i + 4),
       th_ack = get32 buf (i + 8), th_x2 = low4 (buf ! (i + 12)), th_off = high4 (buf ! (i + 12)),
       th_flags = buf ! (i + 13), th_rwnd = get16 buf (i + 14), th_checksum = get16 buf (i + 16),
       th_urp = get16 buf (i + 18)\<rparr>
     else Inl OutOfBounds)"

definition load_icmphdr :: "bytes \<Rightarrow> nat \<Rightarrow> icmphdr result" where
  "load_icmphdr buf i = (if i + 8 \<le> length buf
     then Inr \<lparr>ic_type = buf ! i, ic_code = buf ! (i + 1), ic_checksum = get16 buf (i + 2),
       ic_identifier = get16 buf (i + 4), ic_sequence = get16 buf (i + 6)\<rparr>
     else Inl OutOfBounds)"

definition load_ether_arp :: "bytes \<Rightarrow> nat \<Rightarrow> ether_arp result" where
  "load_ether_arp buf i = (if i + 28 \<le> length buf
     then Inr \<lparr>ar_hrd = get16 buf i, ar_pro = get16 buf (i + 2), ar_hln = buf ! (i + 4), ar_pln = buf ! (i + 5),
       ar_op = get16 buf (i + 6), ar_sha = take 6 (drop (i + 8) buf), ar_spa = get32 buf (i + 14),
       ar_tha = take 6 (drop (i + 18) buf), ar_tpa = get32 buf (i + 24)\<rparr>
     else Inl OutOfBounds)"

definition packet_to_ether_arp :: nat where
  "packet_to_ether_arp = ETHER_HDR_SIZE"

definition ether_header_bytes :: "ether_header \<Rightarrow> bytes" where
  "ether_header_bytes h = eh_dhost h @ eh_shost h @ bytes16 (eh_type h)"

definition iphdr_bytes :: "iphdr \<Rightarrow> bytes" where
  "iphdr_bytes h = [nibbles (ih_ihl h) (ih_version h), ih_tos h] @ bytes16 (ih_tot_len h) @ bytes16 (ih_id h)
     @ bytes16 (ih_frag_off h) @ [ih_ttl h, ih_protocol h] @ bytes16 (ih_checksum h)
     @ bytes32 (ih_saddr h) @ bytes32 (ih_daddr h)"

definition tcphdr_bytes :: "tcphdr \<Rightarrow> bytes" where
  "tcphdr_bytes h = bytes16 (th_sport h) @ bytes16 (th_dport h) @ bytes32 (th_seq h) @ bytes32 (th_ack h)
     @ [nibbles (th_x2 h) (th_off h), th_flags h] @ bytes16 (th_rwnd h) @ bytes16 (th_checksum h) @ bytes16 (th_urp h)"

definition icmphdr_bytes :: "icmphdr \<Rightarrow> bytes" where
  "icmphdr_bytes h = [ic_type h, ic_code h] @ bytes16 (ic_checksum h) @ bytes16 (ic_identifier h) @ bytes16 (ic_sequence h)"

definition ether_arp_bytes :: "ether_arp \<Rightarrow> bytes" where
  "ether_arp_bytes h = bytes16 (ar_hrd h) @ bytes16 (ar_pro h) @ [ar_hln h, ar_pln h] @ bytes16 (ar_op h)
     @ ar_sha h @ bytes32 (ar_spa h) @ ar_tha h @ bytes32 (ar_tpa h)"

section \<open>Printing addresses\<close>

text \<open>The bytes of a variable that holds an address, in the order the macro lists them.\<close>

definition LE_IP_FMT_STR :: "u32 \<Rightarrow> bytes" where
  "LE_IP_FMT_STR ip = [bytes32 ip ! 3, bytes32 ip ! 2, bytes32 ip ! 1, bytes32 ip ! 0]"

definition NET_IP_FMT_STR :: "u32 \<Rightarrow> bytes" where
  "NET_IP_FMT_STR ip = [bytes32 ip ! 0, bytes32 ip ! 1, bytes32 ip ! 2, bytes32 ip ! 3]"

definition HOST_IP_FMT_STR :: "u32 \<Rightarrow> bytes" where
  "HOST_IP_FMT_STR ip = LE_IP_FMT_STR ip"

text \<open>\<open>printf\<close> with \<open>IP_FMT\<close>.\<close>

definition ip_fmt :: "bytes \<Rightarrow> string" where
  "ip_fmt bs = dec (unat (bs ! 0)) @ ''.'' @ dec (unat (bs ! 1)) @ ''.'' @ dec (unat (bs ! 2)) @ ''.'' @ dec (unat (bs ! 3))"

text \<open>\<open>printf\<close> of an Ethernet address with \<open>ETHER_STRING\<close> and \<open>ETHER_FMT\<close>.\<close>

definition hex_char :: "nat \<Rightarrow> char" where
  "hex_char d = (if d < 10 then char_of (48 + d) else char_of (87 + d))"

definition hex_byte :: "u8 \<Rightarrow> string" where
  "hex_byte b = [hex_char (unat b div 16), hex_char (unat b mod 16)]"

definition ether_fmt :: "bytes \<Rightarrow> string" where
  "ether_fmt m = hex_byte (m ! 0) @ concat (map (\<lambda>i. CHR '':'' # hex_byte (m ! i)) [1..<6])"

section \<open>Layout\<close>

lemma nibbles_parts [simp]: "low4 (nibbles lo hi) = lo" "high4 (nibbles lo hi) = hi" "nibbles (low4 b) (high4 b) = b"
  unfolding low4_def high4_def nibbles_def
  by (rule bit_word_eqI; auto simp: bit_simps dest: bit_imp_le_length)+

lemma bytes_get [simp]:
  "bytes16 (get16 buf i) = [buf ! i, buf ! (i + 1)]"
  "bytes32 (get32 buf i) = [buf ! i, buf ! (i + 1), buf ! (i + 2), buf ! (i + 3)]"
  by (simp_all add: bytes16_def bytes32_def get16_def get32_def)

lemma take_drop_map: "i + n \<le> length buf \<Longrightarrow> take n (drop i buf) = map (\<lambda>k. buf ! (i + k)) [0..<n]"
  by (rule nth_equalityI) auto

lemma get_at:
  "get16 (xs @ ys) (length xs + k) = get16 ys k" "get32 (xs @ ys) (length xs + k) = get32 ys k"
  by (simp_all add: get16_def get32_def nth_append)

lemma at_start:
  "(xs @ ys) ! length xs = ys ! 0" "(xs @ ys) ! Suc (length xs) = ys ! 1"
  "get16 (xs @ ys) (length xs) = get16 ys 0" "get32 (xs @ ys) (length xs) = get32 ys 0"
  "get16 (xs @ ys) (Suc (Suc (length xs))) = get16 ys 2"
  using get_at [of xs ys 0] get_at(1) [of xs ys 2] nth_append_length_plus [of xs ys 0] nth_append_length_plus [of xs ys 1]
  by simp_all

lemmas at_simps = at_start get_at nth_append_length_plus

lemma get_Cons:
  "get16 (b0 # b1 # bs) 0 = le16 b0 b1" "get32 (b0 # b1 # b2 # b3 # bs) 0 = le32 b0 b1 b2 b3"
  "0 < n \<Longrightarrow> get16 (b # bs) n = get16 bs (n - 1)" "0 < n \<Longrightarrow> get32 (b # bs) n = get32 bs (n - 1)"
  by (auto simp: get16_def get32_def eval_nat_numeral nth_Cons' Suc_diff_Suc)

lemma length_hdr_bytes:
  "length (iphdr_bytes h) = 20" "length (tcphdr_bytes t) = 20" "length (icmphdr_bytes c) = 8"
  "length (eh_dhost e) = 6 \<Longrightarrow> length (eh_shost e) = 6 \<Longrightarrow> length (ether_header_bytes e) = 14"
  "length (ar_sha a) = 6 \<Longrightarrow> length (ar_tha a) = 6 \<Longrightarrow> length (ether_arp_bytes a) = 28"
  by (simp_all add: iphdr_bytes_def tcphdr_bytes_def icmphdr_bytes_def ether_header_bytes_def ether_arp_bytes_def)

lemma load_hdr_bytes:
  "load_iphdr (pre @ iphdr_bytes h @ post) (length pre) = Inr h"
  "load_tcphdr (pre @ tcphdr_bytes t @ post) (length pre) = Inr t"
  "load_icmphdr (pre @ icmphdr_bytes c @ post) (length pre) = Inr c"
proof -
  show "load_iphdr (pre @ iphdr_bytes h @ post) (length pre) = Inr h"
    by (simp add: load_iphdr_def length_hdr_bytes at_simps) (simp add: iphdr_bytes_def bytes16_def bytes32_def get_Cons)
  show "load_tcphdr (pre @ tcphdr_bytes t @ post) (length pre) = Inr t"
    by (simp add: load_tcphdr_def length_hdr_bytes at_simps) (simp add: tcphdr_bytes_def bytes16_def bytes32_def get_Cons)
  show "load_icmphdr (pre @ icmphdr_bytes c @ post) (length pre) = Inr c"
    by (simp add: load_icmphdr_def length_hdr_bytes at_simps) (simp add: icmphdr_bytes_def bytes16_def bytes32_def get_Cons)
qed

lemma six: "length m = 6 \<Longrightarrow> \<exists>a b c d e f. m = [a, b, c, d, e, f]"
  by (auto simp: eval_nat_numeral length_Suc_conv)

lemma load_ether_bytes:
  assumes "length (eh_dhost e) = 6" and "length (eh_shost e) = 6"
  shows "load_ether_header (pre @ ether_header_bytes e @ post) (length pre) = Inr e"
proof -
  obtain a b c d f g where d: "eh_dhost e = [a, b, c, d, f, g]" using six [OF assms(1)] by blast
  obtain a' b' c' d' f' g' where s: "eh_shost e = [a', b', c', d', f', g']" using six [OF assms(2)] by blast
  show ?thesis
    by (simp add: load_ether_header_def length_hdr_bytes assms at_simps)
      (simp add: ether_header_bytes_def d s bytes16_def get_Cons)
qed

lemma load_arp_bytes:
  assumes "length (ar_sha h) = 6" and "length (ar_tha h) = 6"
  shows "load_ether_arp (pre @ ether_arp_bytes h @ post) (length pre) = Inr h"
proof -
  obtain a b c d f g where d: "ar_sha h = [a, b, c, d, f, g]" using six [OF assms(1)] by blast
  obtain a' b' c' d' f' g' where s: "ar_tha h = [a', b', c', d', f', g']" using six [OF assms(2)] by blast
  show ?thesis
    by (simp add: load_ether_arp_def length_hdr_bytes assms at_simps)
      (simp add: ether_arp_bytes_def d s bytes16_def bytes32_def get_Cons)
qed

lemma upto_lits:
  "[0..<6] = [0::nat, 1, 2, 3, 4, 5]" "[0..<8] = [0::nat, 1, 2, 3, 4, 5, 6, 7]" "[0..<14] = [0::nat, 1, 2, 3, 4, 5, 6, 7, 8, 9, 10, 11, 12, 13]"
  "[0..<20] = [0::nat, 1, 2, 3, 4, 5, 6, 7, 8, 9, 10, 11, 12, 13, 14, 15, 16, 17, 18, 19]"
  "[0..<28] = [0::nat, 1, 2, 3, 4, 5, 6, 7, 8, 9, 10, 11, 12, 13, 14, 15, 16, 17, 18, 19, 20, 21, 22, 23, 24, 25, 26, 27]"
  by (simp_all add: upt_rec)

text \<open>The other way round: the bytes of what was read are the bytes of the buffer.\<close>

lemma hdr_bytes_load:
  "load_iphdr buf i = Inr h \<Longrightarrow> iphdr_bytes h = take 20 (drop i buf)"
  "load_tcphdr buf i = Inr t \<Longrightarrow> tcphdr_bytes t = take 20 (drop i buf)"
  "load_icmphdr buf i = Inr c \<Longrightarrow> icmphdr_bytes c = take 8 (drop i buf)"
  "load_ether_header buf i = Inr e \<Longrightarrow> ether_header_bytes e = take 14 (drop i buf)"
  "load_ether_arp buf i = Inr a \<Longrightarrow> ether_arp_bytes a = take 28 (drop i buf)"
proof -
  show "load_iphdr buf i = Inr h \<Longrightarrow> iphdr_bytes h = take 20 (drop i buf)"
    by (auto simp: load_iphdr_def iphdr_bytes_def take_drop_map upto_lits add.assoc split: if_splits; simp add: eval_nat_numeral)
  show "load_tcphdr buf i = Inr t \<Longrightarrow> tcphdr_bytes t = take 20 (drop i buf)"
    by (auto simp: load_tcphdr_def tcphdr_bytes_def take_drop_map upto_lits add.assoc split: if_splits; simp add: eval_nat_numeral)
  show "load_icmphdr buf i = Inr c \<Longrightarrow> icmphdr_bytes c = take 8 (drop i buf)"
    by (auto simp: load_icmphdr_def icmphdr_bytes_def take_drop_map upto_lits add.assoc split: if_splits; simp add: eval_nat_numeral)
  show "load_ether_header buf i = Inr e \<Longrightarrow> ether_header_bytes e = take 14 (drop i buf)"
    by (auto simp: load_ether_header_def ether_header_bytes_def take_drop_map upto_lits add.assoc split: if_splits; simp add: eval_nat_numeral)
  show "load_ether_arp buf i = Inr a \<Longrightarrow> ether_arp_bytes a = take 28 (drop i buf)"
    by (auto simp: load_ether_arp_def ether_arp_bytes_def take_drop_map upto_lits add.assoc split: if_splits; simp add: eval_nat_numeral)
qed

lemma hex_char_inj: "d < 16 \<Longrightarrow> e < 16 \<Longrightarrow> hex_char d = hex_char e \<longleftrightarrow> d = e"
  by (auto simp: hex_char_def char_of_eq_iff of_char_of take_bit_eq_mod)

lemma hex_byte_inj: "hex_byte a = hex_byte b \<longleftrightarrow> a = b"
proof -
  have bound: "unat c < 256" for c :: u8 using unsigned_less [of c] by simp
  have "unat a = unat b" if "unat a div 16 = unat b div 16" "unat a mod 16 = unat b mod 16"
    using that by (metis div_mult_mod_eq)
  then show ?thesis using bound [of a] bound [of b] by (auto simp: hex_byte_def hex_char_inj word_unat_eq_iff)
qed

lemma ip_fmt_inet_ntoa:
  "ip_fmt (NET_IP_FMT_STR a) = inet_ntoa a" "ip_fmt (HOST_IP_FMT_STR a) = inet_ntoa (htonl a)"
  by (simp_all add: ip_fmt_def NET_IP_FMT_STR_def HOST_IP_FMT_STR_def LE_IP_FMT_STR_def inet_ntoa_def bytes32_def ntohl_def)

lemma ether_fmt_inj:
  assumes "length m = 6" and "length m' = 6"
  shows "ether_fmt m = ether_fmt m' \<longleftrightarrow> m = m'"
proof -
  obtain a b c d f g where m: "m = [a, b, c, d, f, g]" using six [OF assms(1)] by blast
  obtain a' b' c' d' f' g' where m': "m' = [a', b', c', d', f', g']" using six [OF assms(2)] by blast
  have len: "length (hex_byte x) = 2" for x by (simp add: hex_byte_def)
  have upto: "[Suc 0..<6] = [1, 2, 3, 4, 5]" by (simp add: upt_rec)
  show ?thesis by (simp add: m m' ether_fmt_def upto append_eq_append_conv len hex_byte_inj)
qed

section \<open>Properties\<close>

text \<open>A TCP packet with complete headers is its three structs, its IP options and its data: read through the
  pointers the code uses, the structs hold the fields that the translator and the checksums
  access, and their bytes put together are the packet again.\<close>

theorem packet_structs:
  assumes "tcp_packet p"
  shows "\<exists>e h t. load_ether_header p 0 = Inr e \<and> load_iphdr p packet_to_ip_hdr = Inr h
    \<and> packet_to_tcp_hdr p = Inr (14 + unat (ih_ihl h) * 4) \<and> load_tcphdr p (14 + unat (ih_ihl h) * 4) = Inr t
    \<and> ether_type p = Inr (eh_type e) \<and> rd8 p (packet_to_ip_hdr + 9) = Inr (ih_protocol h)
    \<and> ih_saddr h = ip_saddr p \<and> ih_daddr h = ip_daddr p \<and> th_sport t = tcp_sport p \<and> th_dport t = tcp_dport p
    \<and> p = ether_header_bytes e @ iphdr_bytes h @ drop 34 (take (14 + unat (ih_ihl h) * 4) p)
          @ tcphdr_bytes t @ drop (34 + unat (ih_ihl h) * 4) p"
proof -
  have len: "34 \<le> length p" "20 \<le> ip_hdr_len p" "tcp_off p + 20 \<le> length p" "tcp_off p = 14 + ip_hdr_len p"
    using assms by (auto simp: tcp_packet_def tcp_off_def)
  obtain e h t where l: "load_ether_header p 0 = Inr e" "load_iphdr p 14 = Inr h" "load_tcphdr p (tcp_off p) = Inr t"
    using len by (simp add: load_ether_header_def load_iphdr_def load_tcphdr_def)
  have "unat (low4 b) = unat (b AND 15)" for b :: u8
    unfolding low4_def by (simp add: unsigned_ucast_eq unsigned_and_eq take_bit_eq_mask mask_eq_exp_minus_1)
  then have ihl: "unat (ih_ihl h) * 4 = ip_hdr_len p" using l(2) len by (auto simp: load_iphdr_def ip_hdr_len_def)
  have "take 34 p = take 14 p @ take 20 (drop 14 p)" using take_add [of 14 20 p] by simp
  moreover have "take (tcp_off p) p = take 34 p @ drop 34 (take (tcp_off p) p)"
    using len append_take_drop_id [of 34 "take (tcp_off p) p"] by (simp add: min_def)
  moreover have "drop (tcp_off p) p = take 20 (drop (tcp_off p) p) @ drop (tcp_off p + 20) p"
    using append_take_drop_id [of 20 "drop (tcp_off p) p"] by (simp add: add.commute)
  ultimately have "p = take 14 p @ take 20 (drop 14 p) @ drop 34 (take (tcp_off p) p) @ take 20 (drop (tcp_off p) p) @ drop (tcp_off p + 20) p"
    by (metis append_assoc append_take_drop_id)
  then have whole: "p = ether_header_bytes e @ iphdr_bytes h @ drop 34 (take (tcp_off p) p) @ tcphdr_bytes t @ drop (tcp_off p + 20) p"
    using hdr_bytes_load(4) [OF l(1)] hdr_bytes_load(1) [OF l(2)] hdr_bytes_load(2) [OF l(3)] by simp
  have fields: "ether_type p = Inr (eh_type e)" "rd8 p (packet_to_ip_hdr + 9) = Inr (ih_protocol h)"
    "ih_saddr h = ip_saddr p" "ih_daddr h = ip_daddr p" "th_sport t = tcp_sport p" "th_dport t = tcp_dport p"
    using l len by (auto simp: load_ether_header_def load_iphdr_def load_tcphdr_def ether_type_def rd_ok packet_to_ip_hdr_def
        ETHER_HDR_SIZE_def ip_saddr_def ip_daddr_def tcp_sport_def tcp_dport_def)
  have off: "tcp_off p = 14 + unat (ih_ihl h) * 4" "tcp_off p + 20 = 34 + unat (ih_ihl h) * 4" by (simp_all add: ihl len(4))
  have ptr: "packet_to_tcp_hdr p = Inr (14 + unat (ih_ihl h) * 4)" "packet_to_ip_hdr = 14"
    using len by (simp_all add: packet_to_tcp_hdr_ok off packet_to_ip_hdr_def ETHER_HDR_SIZE_def)
  show ?thesis
    by (rule exI [of _ e], rule exI [of _ h], rule exI [of _ t])
      (intro conjI fields whole [unfolded off(2), unfolded off(1)] ptr l(1) l(2) [folded ptr(2)] l(3) [unfolded off(1)])
qed

theorem packet_structs_witness:
  "\<exists>h t. load_iphdr demo_syn packet_to_ip_hdr = Inr h \<and> ih_saddr h = ip_saddr demo_syn
     \<and> load_tcphdr demo_syn (14 + unat (ih_ihl h) * 4) = Inr t \<and> th_dport t = tcp_dport demo_syn"
  using packet_structs [OF demo_packets(1)] by blast

text \<open>The other way round: a frame put together from structs is read back through the code's pointers.\<close>

lemma arp_frame_structs:
  assumes "length (eh_dhost e) = 6" and "length (eh_shost e) = 6" and "length (ar_sha a) = 6" and "length (ar_tha a) = 6"
  shows "load_ether_header (ether_header_bytes e @ ether_arp_bytes a @ rest) 0 = Inr e
    \<and> load_ether_arp (ether_header_bytes e @ ether_arp_bytes a @ rest) packet_to_ether_arp = Inr a"
  using load_ether_bytes [OF assms(1,2), of "[]"] load_arp_bytes [OF assms(3,4), of "ether_header_bytes e" rest]
    length_hdr_bytes(4) [OF assms(1,2)]
  by (simp add: packet_to_ether_arp_def ETHER_HDR_SIZE_def)

end
