(* ===== verification/Log.thy ===== *)
theory Log
  imports Inet
begin

text \<open>
  \<^verbatim>\<open>log.h\<close>, the same text in both stacks: the levels, the macros \<open>log\<close> and \<open>log_it\<close>, and the
  calls the stacks make of them. What the calls use of \<^verbatim>\<open>fprintf\<close> is modelled: literal characters,
  \<open>%s\<close>, \<open>%d\<close>, \<open>%u\<close>, \<open>%x\<close> and \<open>%%\<close>, the flag \<open>0\<close>, a field width and the modifiers \<open>h\<close> and \<open>hh\<close>. A
  conversion that is unknown, cut off, without argument or with one of the other kind is undefined
  behaviour in C; it is \<open>None\<close> here.
\<close>

section \<open>Formatted output\<close>

datatype varg = VStr string | VInt int

definition newline :: char where "newline = CHR 0x0A"

definition hex_char :: "nat \<Rightarrow> char" where
  "hex_char d = char_of (if d < 10 then 48 + d else 87 + d)"

fun hexs :: "nat \<Rightarrow> string" where
  "hexs n = (if n < 16 then [hex_char n] else hexs (n div 16) @ [hex_char (n mod 16)])"

declare hexs.simps [simp del]

text \<open>A conversion under way: the flag \<open>0\<close>, the width, the number of \<open>h\<close>.\<close>

type_synonym directive = "bool \<times> nat \<times> nat"

definition conv_bits :: "nat \<Rightarrow> nat" where
  "conv_bits hs = (if hs = 0 then 32 else if hs = 1 then 16 else 8)"

definition pad_number :: "directive \<Rightarrow> string \<Rightarrow> string \<Rightarrow> string" where
  "pad_number d sign digits = (case d of (zero, width, hs) \<Rightarrow>
     let k = width - length (sign @ digits)
     in if zero then sign @ replicate k (CHR ''0'') @ digits else replicate k (CHR '' '') @ sign @ digits)"

fun convert :: "char \<Rightarrow> directive \<Rightarrow> varg \<Rightarrow> string option" where
  "convert c (zero, width, hs) (VStr s) =
     (if c = CHR ''s'' \<and> \<not> zero \<and> hs = 0 then Some (replicate (width - length s) (CHR '' '') @ s) else None)"
| "convert c (zero, width, hs) (VInt n) =
     (let u = nat (n mod 2 ^ conv_bits hs); i = signed_take_bit (conv_bits hs - 1) n
      in if c = CHR ''d'' then Some (pad_number (zero, width, hs) (if i < 0 then ''-'' else []) (dec (nat \<bar>i\<bar>)))
         else if c = CHR ''u'' then Some (pad_number (zero, width, hs) [] (dec u))
         else if c = CHR ''x'' then Some (pad_number (zero, width, hs) [] (hexs u))
         else None)"

fun vformat :: "directive option \<Rightarrow> string \<Rightarrow> varg list \<Rightarrow> string option" where
  "vformat None [] as = Some []"
| "vformat None (c # f) as =
     (if c = CHR ''%'' then vformat (Some (False, 0, 0)) f as else map_option ((#) c) (vformat None f as))"
| "vformat (Some d) [] as = None"
| "vformat (Some (zero, width, hs)) (c # f) as =
     (if c = CHR ''0'' \<and> width = 0 \<and> hs = 0 then vformat (Some (True, 0, 0)) f as
      else if c \<in> set ''0123456789'' \<and> hs = 0 then vformat (Some (zero, 10 * width + (of_char c - 48), 0)) f as
      else if c = CHR ''h'' \<and> hs < 2 then vformat (Some (zero, width, hs + 1)) f as
      else if c = CHR ''%'' then map_option ((#) c) (vformat None f as)
      else (case as of [] \<Rightarrow> None
            | a # as \<Rightarrow> (case convert c (zero, width, hs) a of
                None \<Rightarrow> None | Some s \<Rightarrow> map_option ((@) s) (vformat None f as))))"

section \<open>The macros\<close>

datatype log_level = DEBUG | INFO | WARNING | ERROR

fun level_num :: "log_level \<Rightarrow> nat" where
  "level_num DEBUG = 0"
| "level_num INFO = 1"
| "level_num WARNING = 2"
| "level_num ERROR = 3"

definition this_log_level :: log_level where "this_log_level = DEBUG"

definition log_level_str :: "string list" where
  "log_level_str = [''DEBUG'', ''INFO'', ''WARNING'', ''ERROR'']"

text \<open>\<open>log_it\<close> with \<open>LOG_DEBUG\<close> defined, and as it is compiled, without.\<close>

definition log_it_debug :: "string \<Rightarrow> int \<Rightarrow> string \<Rightarrow> string \<Rightarrow> varg list \<Rightarrow> string option" where
  "log_it_debug file line fmt level_str as =
     vformat None (''[%s:%u] %s: '' @ fmt @ [newline]) (VStr file # VInt line # VStr level_str # as)"

definition log_it :: "string \<Rightarrow> string \<Rightarrow> varg list \<Rightarrow> string option" where
  "log_it fmt level_str as = vformat None (''%s: '' @ fmt @ [newline]) (VStr level_str # as)"

text \<open>\<open>log\<close>, with the level in force; \<open>err\<close> is what \<open>stderr\<close> has got so far.\<close>

definition log_msg :: "log_level \<Rightarrow> log_level \<times> string \<times> varg list \<Rightarrow> string \<Rightarrow> string option" where
  "log_msg this call err = (case call of (level, fmt, as) \<Rightarrow>
     if level_num level < level_num this then Some err
     else map_option ((@) err) (log_it fmt (log_level_str ! level_num level) as))"

section \<open>The calls of the stacks\<close>

definition sweeping_site :: "int \<Rightarrow> log_level \<times> string \<times> varg list" where
  "sweeping_site n = (DEBUG, ''%d aged entries in mac_port table are removed.'', [VInt n])"

definition fd_to_iface_site :: "int \<Rightarrow> log_level \<times> string \<times> varg list" where
  "fd_to_iface_site fd = (ERROR, ''Could not find the desired interface according to fd %d'', [VInt fd])"

definition no_ifaces_site :: "log_level \<times> string \<times> varg list" where
  "no_ifaces_site = (ERROR, ''could not find available interfaces.'', [])"

definition ifaces_site :: "string \<Rightarrow> log_level \<times> string \<times> varg list" where
  "ifaces_site dev_names = (DEBUG, ''find the following interfaces: %s.'', [VStr dev_names])"

definition receive_error_site :: "string \<Rightarrow> log_level \<times> string \<times> varg list" where
  "receive_error_site err = (ERROR, ''receive packet error: %s'', [VStr err])"

definition if_name_site :: "string \<Rightarrow> log_level \<times> string \<times> varg list" where
  "if_name_site nm = (ERROR, ''Could not find the desired interface according to if_name '' @ [CHR 0x27] @ ''%s'' @ [CHR 0x27], [VStr nm])"

definition direction_site :: "log_level \<times> string \<times> varg list" where
  "direction_site = (ERROR, ''invalid packet direction, drop it.'', [])"

definition protocol_site :: "u8 \<Rightarrow> log_level \<times> string \<times> varg list" where
  "protocol_site p = (ERROR, ''received non-TCP packet (0x%0hhx), drop it'', [VInt (uint p)])"

definition nat_init_site :: "log_level \<times> string \<times> varg list" where
  "nat_init_site = (ERROR, ''Could not find the desired interfaces for nat.'', [])"

definition ether_type_site :: "u16 \<Rightarrow> log_level \<times> string \<times> varg list" where
  "ether_type_site t = (ERROR, ''Unknown packet type 0x%04hx, ingore it.'', [VInt (uint t)])"

definition malloc_site :: "log_level \<times> string \<times> varg list" where
  "malloc_site = (ERROR, ''malloc failed when receiving packet.'', [])"

lemmas log_sites = sweeping_site_def fd_to_iface_site_def no_ifaces_site_def ifaces_site_def receive_error_site_def
  if_name_site_def direction_site_def protocol_site_def nat_init_site_def ether_type_site_def malloc_site_def

datatype log_call =
    Aged_removed int | No_iface_fd int | No_ifaces | Ifaces string | Receive_error string | No_iface_name string
  | Bad_direction | Not_tcp u8 | No_nat_ifaces | Unknown_type u16 | No_memory

fun log_site :: "log_call \<Rightarrow> log_level \<times> string \<times> varg list" where
  "log_site (Aged_removed n) = sweeping_site n"
| "log_site (No_iface_fd fd) = fd_to_iface_site fd"
| "log_site No_ifaces = no_ifaces_site"
| "log_site (Ifaces s) = ifaces_site s"
| "log_site (Receive_error s) = receive_error_site s"
| "log_site (No_iface_name s) = if_name_site s"
| "log_site Bad_direction = direction_site"
| "log_site (Not_tcp p) = protocol_site p"
| "log_site No_nat_ifaces = nat_init_site"
| "log_site (Unknown_type t) = ether_type_site t"
| "log_site No_memory = malloc_site"

fun log_calls :: "log_level \<Rightarrow> log_call list \<Rightarrow> string \<Rightarrow> string option" where
  "log_calls this [] err = Some err"
| "log_calls this (c # cs) err = Option.bind (log_msg this (log_site c) err) (log_calls this cs)"

section \<open>What is meant\<close>

text \<open>The message of a call, and a reader of the log: lines, each a level, a colon, a blank and the message.\<close>

definition int_text :: "int \<Rightarrow> string" where
  "int_text n = (if n < 0 then ''-'' else []) @ dec (nat \<bar>n\<bar>)"

definition hex4 :: "u16 \<Rightarrow> string" where
  "hex4 w = map (\<lambda>k. hex_char (unat w div 16 ^ k mod 16)) [3, 2, 1, 0]"

fun message :: "log_call \<Rightarrow> string" where
  "message (Aged_removed n) = int_text n @ '' aged entries in mac_port table are removed.''"
| "message (No_iface_fd fd) = ''Could not find the desired interface according to fd '' @ int_text fd"
| "message No_ifaces = ''could not find available interfaces.''"
| "message (Ifaces s) = ''find the following interfaces: '' @ s @ ''.''"
| "message (Receive_error s) = ''receive packet error: '' @ s"
| "message (No_iface_name s) = ''Could not find the desired interface according to if_name '' @ [CHR 0x27] @ s @ [CHR 0x27]"
| "message Bad_direction = ''invalid packet direction, drop it.''"
| "message (Not_tcp p) = ''received non-TCP packet (0x'' @ hexs (unat p) @ ''), drop it''"
| "message No_nat_ifaces = ''Could not find the desired interfaces for nat.''"
| "message (Unknown_type t) = ''Unknown packet type 0x'' @ hex4 t @ '', ingore it.''"
| "message No_memory = ''malloc failed when receiving packet.''"

definition level_of :: "log_call \<Rightarrow> log_level" where
  "level_of c = fst (log_site c)"

fun text_lines :: "string \<Rightarrow> string \<Rightarrow> string list" where
  "text_lines acc [] = []"
| "text_lines acc (c # cs) = (if c = newline then acc # text_lines [] cs else text_lines (acc @ [c]) cs)"

definition read_line :: "string \<Rightarrow> (log_level \<times> string) option" where
  "read_line l = map_option (\<lambda>v. (v, drop 2 (dropWhile (\<lambda>c. c \<noteq> CHR '':'') l)))
     (map_of [(''DEBUG'', DEBUG), (''INFO'', INFO), (''WARNING'', WARNING), (''ERROR'', ERROR)]
        (takeWhile (\<lambda>c. c \<noteq> CHR '':'') l))"

definition read_log :: "string \<Rightarrow> (log_level \<times> string) option list" where
  "read_log err = map read_line (text_lines [] err)"

text \<open>Calls whose arguments are C values: an \<open>int\<close> fits, a text has no line break.\<close>

fun call_ok :: "log_call \<Rightarrow> bool" where
  "call_ok (Aged_removed n) \<longleftrightarrow> - (2 ^ 31) \<le> n \<and> n < 2 ^ 31"
| "call_ok (No_iface_fd n) \<longleftrightarrow> - (2 ^ 31) \<le> n \<and> n < 2 ^ 31"
| "call_ok (Ifaces s) \<longleftrightarrow> newline \<notin> set s"
| "call_ok (Receive_error s) \<longleftrightarrow> newline \<notin> set s"
| "call_ok (No_iface_name s) \<longleftrightarrow> newline \<notin> set s"
| "call_ok c \<longleftrightarrow> True"

section \<open>Lemmas\<close>

text \<open>Numbers.\<close>

lemma dec_no_newline: "newline \<notin> set (dec n)"
proof (induction n rule: dec.induct)
  case (1 n)
  have "digit_char d \<noteq> newline" if "d < 10" for d using of_digit_char [OF that] by (auto simp: newline_def)
  with 1 show ?case by (subst dec.simps) (auto dest: sym)
qed

lemma hex_char_no_newline: "d < 16 \<Longrightarrow> hex_char d \<noteq> newline"
proof
  assume "d < 16" and "hex_char d = newline"
  then have "of_char (hex_char d) = (10 :: nat)" by (simp add: newline_def)
  then show False using \<open>d < 16\<close> by (simp add: hex_char_def split: if_splits)
qed

lemma hexs_no_newline: "newline \<notin> set (hexs n)"
proof (induction n rule: hexs.induct)
  case (1 n)
  then show ?case by (subst hexs.simps) (auto dest: sym simp: hex_char_no_newline)
qed

lemma hexs_pad4:
  assumes "n < 65536"
  shows "replicate (4 - length (hexs n)) (CHR ''0'') @ hexs n = map (\<lambda>k. hex_char (n div 16 ^ k mod 16)) [3, 2, 1, 0]"
proof -
  have z: "CHR ''0'' = hex_char 0" using digit_char_zero [of 0] by (simp add: hex_char_def digit_char_def)
  have r: "replicate 3 c = [c, c, c]" "replicate 2 c = [c, c]" for c :: char by (simp_all add: numeral_eq_Suc)
  have h: "n div 16 div 16 = n div 256" "n div 256 div 16 = n div 4096" by (simp_all add: div_mult2_eq [symmetric])
  consider "n < 16" | "16 \<le> n" "n < 256" | "256 \<le> n" "n < 4096" | "4096 \<le> n" using assms by linarith
  then show ?thesis
    using assms
    by cases (simp_all add: hexs.simps [of n] hexs.simps [of "n div 16"] hexs.simps [of "n div 256"]
        hexs.simps [of "n div 4096"] h z r less_mult_imp_div_less)
qed

lemma convert_int: "- (2 ^ 31) \<le> n \<Longrightarrow> n < 2 ^ 31 \<Longrightarrow> convert (CHR ''d'') (False, 0, 0) (VInt n) = Some (int_text n)"
  by (simp add: conv_bits_def pad_number_def int_text_def Let_def signed_take_bit_int_eq_self)

lemma convert_byte: "convert (CHR ''x'') (True, 0, Suc (Suc 0)) (VInt (uint (p :: u8))) = Some (hexs (unat p))"
proof -
  have "uint p mod 256 = uint p" using unsigned_less [of p, where 'a = int] by simp
  then show ?thesis by (simp add: conv_bits_def pad_number_def Let_def)
qed

lemma convert_short: "convert (CHR ''x'') (True, 4, Suc 0) (VInt (uint (t :: u16))) = Some (hex4 t)"
proof -
  have "uint t mod 65536 = uint t" using unsigned_less [of t, where 'a = int] by simp
  then show ?thesis
    using hexs_pad4 [of "unat t"] unsigned_less [of t, where 'a = nat] by (simp add: conv_bits_def pad_number_def Let_def hex4_def)
qed

text \<open>A call prints one line.\<close>

lemma log_it_site:
  assumes "call_ok c"
  shows "log_it (fst (snd (log_site c))) lvl (snd (snd (log_site c))) = Some (lvl @ '': '' @ message c @ [newline])"
  using assms
  by (cases c) (simp_all add: log_sites log_it_def newline_def convert_int convert_byte convert_short del: convert.simps(2))

lemmas no_newline = dec_no_newline hexs_no_newline hex_char_no_newline

lemma message_line: "call_ok c \<Longrightarrow> newline \<notin> set (message c)"
  by (cases c) (auto simp: int_text_def hex4_def newline_def no_newline [unfolded newline_def] dest: sym)

definition log_line :: "log_call \<Rightarrow> string" where
  "log_line c = log_level_str ! level_num (level_of c) @ '': '' @ message c"

definition passes :: "log_level \<Rightarrow> log_call \<Rightarrow> bool" where
  "passes this c \<longleftrightarrow> level_num this \<le> level_num (level_of c)"

lemma log_msg_line:
  assumes "call_ok c"
  shows "log_msg this (log_site c) err = Some (if passes this c then err @ log_line c @ [newline] else err)"
  using log_it_site [OF assms, of "log_level_str ! level_num (level_of c)"]
  by (cases "log_site c") (auto simp: log_msg_def passes_def level_of_def log_line_def)

lemma log_calls_text:
  "list_all call_ok cs \<Longrightarrow> log_calls this cs err = Some (err @ concat (map (\<lambda>c. log_line c @ [newline]) (filter (passes this) cs)))"
  by (induction cs arbitrary: err) (simp_all add: log_msg_line)

lemma text_lines_line:
  "newline \<notin> set l \<Longrightarrow> text_lines acc (l @ newline # r) = (acc @ l) # text_lines [] r"
  by (induction l arbitrary: acc) auto

lemma level_str_no_newline: "newline \<notin> set (log_level_str ! level_num v)"
  by (cases v) (simp_all add: log_level_str_def newline_def)

lemma read_line_line: "read_line (log_level_str ! level_num v @ CHR '':'' # CHR '' '' # m) = Some (v, m)"
  by (cases v) (simp_all add: log_level_str_def read_line_def)

lemma log_line_no_newline: "call_ok c \<Longrightarrow> newline \<notin> set (log_line c)"
  using message_line [of c] level_str_no_newline [of "level_of c"] by (simp add: log_line_def) (simp add: newline_def)

lemma read_log_lines:
  "list_all call_ok cs \<Longrightarrow> read_log (concat (map (\<lambda>c. log_line c @ [newline]) cs)) = map (\<lambda>c. Some (level_of c, message c)) cs"
proof (induction cs)
  case (Cons c cs)
  then show ?case
    using text_lines_line [of "log_line c" "[]" "concat (map (\<lambda>c. log_line c @ [newline]) cs)"]
    by (simp add: read_log_def log_line_no_newline) (simp add: log_line_def read_line_line)
qed (simp add: read_log_def)

section \<open>Properties\<close>

text \<open>C32. The log can be read back: every call the stacks make of \<open>log\<close>, in any order and at any level in force, is
  formatted without undefined behaviour (each conversion has an argument of its kind) and prints exactly one line; from the
  text on \<open>stderr\<close> the level and the message of every call at or above the level in force can be read back, in order, and
  nothing else. With the level that is in force, \<open>DEBUG\<close>, that is every call.\<close>

theorem log_reads_back:
  assumes "list_all call_ok calls"
  shows "\<exists>err. log_calls this calls [] = Some err
    \<and> read_log err = map (\<lambda>c. Some (level_of c, message c)) (filter (passes this) calls)
    \<and> filter (passes this_log_level) calls = calls"
proof -
  have "list_all call_ok (filter (passes this) calls)" using assms by (auto simp: list_all_iff)
  moreover have "filter (passes this_log_level) calls = calls" by (simp add: passes_def this_log_level_def)
  ultimately show ?thesis using log_calls_text [OF assms, of this "[]"] by (simp add: read_log_lines)
qed

definition demo_log :: "log_call list" where
  "demo_log = [Ifaces '' s1-eth0'', No_iface_fd (- 1), Aged_removed 7, Unknown_type 0x86dd, Not_tcp 17]"

lemma demo_digits: "dec (Suc 0) = ''1''" "hexs 17 = ''11''" "hex4 0x86dd = ''86dd''"
  by (subst dec.simps) (simp_all add: hexs.simps hex4_def hex_char_def digit_char_def of_char_eq_iff [symmetric, where 'a = nat])

theorem log_reads_back_witness:
  "\<exists>err. log_calls INFO demo_log [] = Some err
    \<and> read_log err = [Some (ERROR, ''Could not find the desired interface according to fd -1''),
        Some (ERROR, ''Unknown packet type 0x86dd, ingore it.''), Some (ERROR, ''received non-TCP packet (0x11), drop it'')]"
proof -
  have "list_all call_ok demo_log" by (simp add: demo_log_def newline_def)
  moreover have "map (\<lambda>c. Some (level_of c, message c)) (filter (passes INFO) demo_log)
    = [Some (ERROR, ''Could not find the desired interface according to fd -1''),
        Some (ERROR, ''Unknown packet type 0x86dd, ingore it.''), Some (ERROR, ''received non-TCP packet (0x11), drop it'')]"
    by (simp add: demo_log_def passes_def level_of_def log_sites int_text_def demo_digits)
  ultimately show ?thesis using log_reads_back [of demo_log INFO] by metis
qed

end
