(* ===== verification/Examples.thy ===== *)
theory Examples
  imports Buckets
begin

text \<open>
  The example programs of the repository: \<^verbatim>\<open>example/list_example.c\<close>, which fills, prints and
  thins out a list of \<^verbatim>\<open>list.h\<close>, and \<^verbatim>\<open>example/pthread_example.c\<close>, two threads that sleep and
  print under a lock.
\<close>

section \<open>list_example.c\<close>

text \<open>A node of the list holds a number; the head is a variable on the stack.\<close>

type_synonym list_mem = "heap \<times> int store"

definition example_fill :: "(heap \<Rightarrow> addr) \<Rightarrow> nat list \<Rightarrow> list_mem \<Rightarrow> list_mem result" where
  "example_fill malloc is m = fold_r (\<lambda>i (h, d).
     let node = malloc h;
         d = d(node \<mapsto> int i)
     in bind_r (list_add_tail (malloc_node h node) node (bucket_head 0)) (\<lambda>h. Inr (h, d))) is m"

definition example_print :: "addr \<Rightarrow> heap \<times> int store \<times> int list \<Rightarrow> (heap \<times> int store \<times> int list, unit) flow result" where
  "example_print entry s = (case s of (h, d, out) \<Rightarrow>
     bind_r (ld_entry d entry) (\<lambda>number. Inr (Continue (h, d, out @ [number]))))"

definition example_thin :: "addr \<Rightarrow> heap \<times> int store \<times> int list \<Rightarrow> (heap \<times> int store \<times> int list, unit) flow result" where
  "example_thin entry s = (case s of (h, d, out) \<Rightarrow>
     bind_r (ld_entry d entry) (\<lambda>number.
     if number mod 2 = 0 then
       bind_r (list_delete_entry h entry) (\<lambda>h.
       bind_r (free_entry h d entry) (\<lambda>(h, d).
         Inr (Continue (h, d, out))))
     else Inr (Continue (h, d, out @ [number]))))"

text \<open>The result: what the two loops print, and the memory when \<open>example\<close> returns.\<close>

definition list_example :: "(heap \<Rightarrow> addr) \<Rightarrow> (int list \<times> int list \<times> list_mem) result option" where
  "list_example malloc =
     bind_p (Some (init_list_head (zeroed_heads 1) (bucket_head 0))) (\<lambda>h.
     bind_p (Some (example_fill malloc [0..<10] (h, Map.empty))) (\<lambda>(h, d).
     bind_p (after_loop id (\<lambda>x. id) (list_for_each_entry example_print (bucket_head 0) (h, d, []))) (\<lambda>(h, d, all).
     bind_p (after_loop id (\<lambda>x. id) (list_for_each_entry_safe example_thin (bucket_head 0) (h, d, []))) (\<lambda>(h, d, odd).
       Some (Inr (all, odd, h, d))))))"

lemma example_bodies:
  "example_print = visit_entry (keep (\<lambda>e out. Inr (Continue (out @ [e]))))"
  "example_thin = visit_entry (\<lambda>e out. Inr (if e mod 2 = 0 then (True, Continue out) else (False, Continue (out @ [e]))))"
  by (auto simp: fun_eq_iff example_print_def example_thin_def visit_entry_def ld_entry_def free_entry_def keep_def
      split: option.splits)

lemma example_fill_ok:
  assumes "malloc_fresh malloc" and "in_memory h d {} [es]"
  shows "\<exists>h' d'. example_fill malloc is (h, d) = Inr (h', d') \<and> in_memory h' d' {} [es @ map int is]"
  using assms(2)
proof (induction "is" arbitrary: h d es)
  case Nil
  then show ?case by (simp add: example_fill_def)
next
  case (Cons i "is")
  note a = in_memory_fresh [OF assms(1) Cons.prems]
  obtain h' where h': "list_add_tail (malloc_node h (malloc h)) (malloc h) (bucket_head 0) = Inr h'"
    "in_memory h' (d(malloc h \<mapsto> int i)) {} [es @ [int i]]"
    using in_memory_add_tail [OF Cons.prems, of 0 "malloc h" "int i"] a by auto
  have "example_fill malloc (i # is) (h, d) = example_fill malloc is (h', d(malloc h \<mapsto> int i))"
    by (simp add: example_fill_def h'(1) Let_def)
  then show ?case using Cons.IH [OF h'(2)] by (simp only: append_assoc append_Cons append_Nil list.map)
qed

lemma visit_print: "visit_list (keep (\<lambda>e out. Inr (Continue (out @ [e])))) es out = Inr (es, Continue (out @ es))"
  by (induction es arbitrary: out) (simp_all add: keep_def)

lemma visit_thin:
  "visit_list (\<lambda>e out. Inr (if e mod 2 = 0 then (True, Continue out) else (False, Continue (out @ [e])))) es out
   = Inr (filter (\<lambda>e. e mod 2 \<noteq> 0) es, Continue (out @ filter (\<lambda>e. e mod 2 \<noteq> 0) es))" for es :: "int list"
  by (induction es arbitrary: out) simp_all

text \<open>A loop over the only list of a table.\<close>

lemma for_one_bucket: "for_buckets body [i] s = body i s"
  by (cases "body i s") (auto split: sum.split flow.split)

lemma one_list_safe:
  assumes "in_memory h d G [es]" and "visit_list f es c = Inr (es', Continue c')"
  shows "\<exists>h' d'. after_loop id (\<lambda>x. id) (list_for_each_entry_safe (visit_entry f :: _ \<Rightarrow> _ \<Rightarrow> (_, unit) flow result) (bucket_head 0) (h, d, c)) = Some (Inr (h', d', c'))
    \<and> in_memory h' d' G [es']"
  using for_buckets_safe [OF assms(1), of f c] assms(2)
  by (auto simp: for_one_bucket table_ok_def after_loop_def simp del: for_buckets.simps)

lemma one_list_plain:
  assumes "in_memory h d G [es]" and "visit_list (keep g) es c = Inr (es', Continue c')"
  shows "\<exists>h' d'. after_loop id (\<lambda>x. id) (list_for_each_entry (visit_entry (keep g) :: _ \<Rightarrow> _ \<Rightarrow> (_, unit) flow result) (bucket_head 0) (h, d, c)) = Some (Inr (h', d', c'))
    \<and> in_memory h' d' G [es']"
  using for_buckets_plain [OF assms(1), of g c] assms(2)
  by (auto simp: for_one_bucket table_ok_def after_loop_def simp del: for_buckets.simps)

text \<open>\<open>list_example.c\<close> prints the numbers from 0 to 9 and then the odd ones; it ends, touches no freed
  memory, frees the five even nodes, and returns without freeing the five others.\<close>

theorem list_example_output:
  assumes "malloc_fresh malloc"
  shows "\<exists>h d. list_example malloc = Some (Inr ([0, 1, 2, 3, 4, 5, 6, 7, 8, 9], [1, 3, 5, 7, 9], h, d))
    \<and> in_memory h d {} [[1, 3, 5, 7, 9]] \<and> card (dom d) = 5"
proof -
  obtain h0 where h0: "init_list_head (zeroed_heads 1) (bucket_head 0) = Inr h0" "in_memory h0 (Map.empty :: int store) {} [[]]"
    using init_heads_ok [of 1] by (auto simp: bind_r_eq_Inr)
  obtain h1 d1 where h1: "example_fill malloc [0..<10] (h0, Map.empty) = Inr (h1, d1)" "in_memory h1 d1 {} [map int [0..<10]]"
    using example_fill_ok [OF assms h0(2), of "[0..<10]"] by auto
  have nums: "map int [0..<10] = [0, 1, 2, 3, 4, 5, 6, 7, 8, 9]" by (simp add: upt_rec)
  obtain h2 d2 where h2: "after_loop id (\<lambda>x. id) (list_for_each_entry example_print (bucket_head 0) (h1, d1, []))
      = Some (Inr (h2, d2, map int [0..<10]))" "in_memory h2 d2 {} [map int [0..<10]]"
    using one_list_plain [OF h1(2) visit_print, of "[]"] unfolding example_bodies by auto
  obtain h3 d3 where h3: "after_loop id (\<lambda>x. id) (list_for_each_entry_safe example_thin (bucket_head 0) (h2, d2, []))
      = Some (Inr (h3, d3, [1, 3, 5, 7, 9]))" "in_memory h3 d3 {} [[1, 3, 5, 7, 9]]"
    using one_list_safe [OF h2(2) visit_thin, of "[]"] unfolding example_bodies nums by auto
  have "list_example malloc = Some (Inr ([0, 1, 2, 3, 4, 5, 6, 7, 8, 9], [1, 3, 5, 7, 9], h3, d3))"
    by (simp only: list_example_def h0(1) h1(1) h2(1) h3(1) nums bind_p_simps prod.case)
  moreover have "card (dom d3) = 5" using in_memory_card(2) [OF h3(2)] by simp
  ultimately show ?thesis using h3(2) by blast
qed

theorem list_example_output_witness:
  "\<exists>h d. list_example bump_malloc = Some (Inr ([0, 1, 2, 3, 4, 5, 6, 7, 8, 9], [1, 3, 5, 7, 9], h, d)) \<and> card (dom d) = 5"
  using list_example_output [OF bump_malloc_fresh] by blast

section \<open>pthread_example.c\<close>

text \<open>
  The two threads, the lock \<open>output_lock\<close>, and \<open>main\<close>, which creates both and waits for the
  first, then for the second. \<open>clock\<close> counts seconds; a thread that went to sleep wakes when its
  duration has passed. The output lines carry the time at which they were printed.
\<close>

record thread_arg =
  ta_index :: nat
  ta_duration :: nat

datatype thread_pc = NotCreated | Sleeping nat | Locking | Printing | Unlocking | Exited

datatype main_pc = Create1 | Create2 | Join1 | Join2 | Returned

record threads =
  clock :: nat
  output_lock :: "nat option"
  th1 :: thread_pc
  th2 :: thread_pc
  th_main :: main_pc
  th_out :: "(nat \<times> nat \<times> nat) list"

text \<open>One step of the function \<open>thread\<close>; \<open>None\<close> where it waits or has ended.\<close>

definition thread_step :: "thread_arg \<Rightarrow> thread_pc \<Rightarrow> threads \<Rightarrow> (thread_pc \<times> threads) option" where
  "thread_step arg pc s = (case pc of
     NotCreated \<Rightarrow> None
   | Sleeping since \<Rightarrow> if since + ta_duration arg \<le> clock s then Some (Locking, s) else None
   | Locking \<Rightarrow> if output_lock s = None then Some (Printing, s\<lparr>output_lock := Some (ta_index arg)\<rparr>) else None
   | Printing \<Rightarrow> Some (Unlocking, s\<lparr>th_out := th_out s @ [(clock s, ta_index arg, ta_duration arg)]\<rparr>)
   | Unlocking \<Rightarrow> Some (Exited, s\<lparr>output_lock := None\<rparr>)
   | Exited \<Rightarrow> None)"

definition thread_main_step :: "threads \<Rightarrow> threads option" where
  "thread_main_step s = (case th_main s of
     Create1 \<Rightarrow> Some (s\<lparr>th1 := Sleeping (clock s), th_main := Create2\<rparr>)
   | Create2 \<Rightarrow> Some (s\<lparr>th2 := Sleeping (clock s), th_main := Join1\<rparr>)
   | Join1 \<Rightarrow> if th1 s = Exited then Some (s\<lparr>th_main := Join2\<rparr>) else None
   | Join2 \<Rightarrow> if th2 s = Exited then Some (s\<lparr>th_main := Returned\<rparr>) else None
   | Returned \<Rightarrow> None)"

text \<open>The arguments \<open>main\<close> builds from two values of \<open>rand\<close>.\<close>

definition arg1 :: "nat \<Rightarrow> thread_arg" where
  "arg1 r = \<lparr>ta_index = 1, ta_duration = r mod 5\<rparr>"

definition arg2 :: "nat \<Rightarrow> thread_arg" where
  "arg2 r = \<lparr>ta_index = 2, ta_duration = r mod 5\<rparr>"

definition threads_start :: threads where
  "threads_start = \<lparr>clock = 0, output_lock = None, th1 = NotCreated, th2 = NotCreated, th_main = Create1, th_out = []\<rparr>"

inductive th_step :: "nat \<Rightarrow> nat \<Rightarrow> threads \<Rightarrow> threads \<Rightarrow> bool" for r1 r2 where
  main: "thread_main_step s = Some s' \<Longrightarrow> th_step r1 r2 s s'"
| one: "thread_step (arg1 r1) (th1 s) s = Some (pc, s') \<Longrightarrow> th_step r1 r2 s (s'\<lparr>th1 := pc\<rparr>)"
| two: "thread_step (arg2 r2) (th2 s) s = Some (pc, s') \<Longrightarrow> th_step r1 r2 s (s'\<lparr>th2 := pc\<rparr>)"
| tick: "th_step r1 r2 s (s\<lparr>clock := Suc (clock s)\<rparr>)"

inductive_cases th_stepE: "th_step r1 r2 s s'"

definition in_section :: "thread_pc \<Rightarrow> bool" where
  "in_section pc \<longleftrightarrow> pc = Printing \<or> pc = Unlocking"

text \<open>The lines a thread has printed.\<close>

definition printed :: "nat \<Rightarrow> nat \<Rightarrow> threads \<Rightarrow> thread_pc \<Rightarrow> bool" where
  "printed i dur s pc \<longleftrightarrow> (if pc = Unlocking \<or> pc = Exited
     then (\<exists>t. filter (\<lambda>l. fst (snd l) = i) (th_out s) = [(t, i, dur)] \<and> dur \<le> t \<and> t \<le> clock s)
     else filter (\<lambda>l. fst (snd l) = i) (th_out s) = [])"

definition slept :: "nat \<Rightarrow> threads \<Rightarrow> thread_pc \<Rightarrow> bool" where
  "slept dur s pc \<longleftrightarrow> (case pc of NotCreated \<Rightarrow> True | Sleeping since \<Rightarrow> since \<le> clock s | _ \<Rightarrow> dur \<le> clock s)"

definition printers :: "threads \<Rightarrow> nat set" where
  "printers s = (\<lambda>l. fst (snd l)) ` set (th_out s)"

text \<open>The invariant of a thread: it holds the lock exactly inside its section.\<close>

definition one_inv :: "nat \<Rightarrow> nat \<Rightarrow> threads \<Rightarrow> thread_pc \<Rightarrow> bool" where
  "one_inv i dur s pc \<longleftrightarrow> printed i dur s pc \<and> slept dur s pc \<and> (output_lock s = Some i \<longleftrightarrow> in_section pc)"

text \<open>How far \<open>main\<close> is tells which threads exist and which have ended.\<close>

definition main_inv :: "main_pc \<Rightarrow> thread_pc \<Rightarrow> thread_pc \<Rightarrow> bool" where
  "main_inv m pc1 pc2 \<longleftrightarrow> (case m of
     Create1 \<Rightarrow> pc1 = NotCreated \<and> pc2 = NotCreated
   | Create2 \<Rightarrow> pc1 \<noteq> NotCreated \<and> pc2 = NotCreated
   | Join1 \<Rightarrow> pc1 \<noteq> NotCreated \<and> pc2 \<noteq> NotCreated
   | Join2 \<Rightarrow> pc1 = Exited \<and> pc2 \<noteq> NotCreated
   | Returned \<Rightarrow> pc1 = Exited \<and> pc2 = Exited)"

lemma main_inv_move:
  "main_inv m pc1 pc2 \<Longrightarrow> pc1 \<noteq> NotCreated \<Longrightarrow> pc1 \<noteq> Exited \<Longrightarrow> pc \<noteq> NotCreated \<Longrightarrow> main_inv m pc pc2"
  "main_inv m pc1 pc2 \<Longrightarrow> pc2 \<noteq> NotCreated \<Longrightarrow> pc2 \<noteq> Exited \<Longrightarrow> pc \<noteq> NotCreated \<Longrightarrow> main_inv m pc1 pc"
  by (auto simp: main_inv_def split: main_pc.splits)

definition th_inv :: "nat \<Rightarrow> nat \<Rightarrow> threads \<Rightarrow> bool" where
  "th_inv r1 r2 s \<longleftrightarrow> one_inv 1 (r1 mod 5) s (th1 s) \<and> one_inv 2 (r2 mod 5) s (th2 s)
     \<and> output_lock s \<in> {None, Some 1, Some 2} \<and> printers s \<subseteq> {1, 2}
     \<and> main_inv (th_main s) (th1 s) (th2 s)"

lemmas one_inv_defs = one_inv_def printed_def slept_def in_section_def

lemma one_inv_cong:
  "one_inv i dur (s\<lparr>th1 := pc1\<rparr>) pc = one_inv i dur s pc" "one_inv i dur (s\<lparr>th2 := pc1\<rparr>) pc = one_inv i dur s pc"
  "one_inv i dur (s\<lparr>th_main := m\<rparr>) pc = one_inv i dur s pc"
  "printers (s\<lparr>th1 := pc1\<rparr>) = printers s" "printers (s\<lparr>th2 := pc1\<rparr>) = printers s"
  by (simp_all add: one_inv_defs printers_def split: thread_pc.split)

lemma thread_step_self:
  assumes "thread_step arg pc s = Some (pc', s')" and "one_inv (ta_index arg) (ta_duration arg) s pc"
  shows "one_inv (ta_index arg) (ta_duration arg) s' pc'"
  using assms by (cases pc) (auto simp: thread_step_def one_inv_defs split: if_splits)

lemma thread_step_other:
  assumes "thread_step arg pc s = Some (pc', s')" and "one_inv (ta_index arg) (ta_duration arg) s pc"
    and "one_inv j dj s pj" and "j \<noteq> ta_index arg"
  shows "one_inv j dj s' pj"
  using assms by (cases pc) (auto simp: thread_step_def one_inv_defs split: if_splits thread_pc.split)

lemma thread_step_rest:
  assumes "thread_step arg pc s = Some (pc', s')"
  shows "th_main s' = th_main s \<and> th1 s' = th1 s \<and> th2 s' = th2 s \<and> pc \<noteq> NotCreated \<and> pc \<noteq> Exited \<and> pc' \<noteq> NotCreated
    \<and> output_lock s' \<in> {None, output_lock s, Some (ta_index arg)}
    \<and> printers s' \<subseteq> insert (ta_index arg) (printers s)"
  using assms by (cases pc) (auto simp: thread_step_def printers_def split: if_splits)

lemma arg_simps [simp]:
  "ta_index (arg1 r) = 1" "ta_duration (arg1 r) = r mod 5" "ta_index (arg2 r) = 2" "ta_duration (arg2 r) = r mod 5"
  by (simp_all add: arg1_def arg2_def)

lemma th_step_inv: "th_step r1 r2 s s' \<Longrightarrow> th_inv r1 r2 s \<Longrightarrow> th_inv r1 r2 s'"
proof (induction rule: th_step.induct)
  case (main s s')
  have created: "one_inv i dur s NotCreated \<Longrightarrow> one_inv i dur s (Sleeping (clock s))" for i dur
    by (simp add: one_inv_defs)
  have inv: "one_inv 1 (r1 mod 5) s (th1 s)" "one_inv 2 (r2 mod 5) s (th2 s)" "output_lock s \<in> {None, Some 1, Some 2}"
    "printers s \<subseteq> {1, 2}" "main_inv (th_main s) (th1 s) (th2 s)"
    using main.prems by (simp_all add: th_inv_def)
  have "main_inv (th_main s') (th1 s') (th2 s')"
    using main.hyps inv(5) by (cases "th_main s") (auto simp: thread_main_step_def main_inv_def split: if_splits)
  moreover have "one_inv 1 (r1 mod 5) s' (th1 s') \<and> one_inv 2 (r2 mod 5) s' (th2 s')"
    using main.hyps inv(1,2,5) created
    by (cases "th_main s") (auto simp: thread_main_step_def one_inv_cong main_inv_def split: if_splits)
  moreover have "output_lock s' = output_lock s \<and> th_out s' = th_out s"
    using main.hyps by (cases "th_main s") (auto simp: thread_main_step_def split: if_splits)
  ultimately show ?case using inv(3,4) by (simp add: th_inv_def printers_def)
next
  case (one s pc s')
  have inv: "one_inv 1 (r1 mod 5) s (th1 s)" "one_inv 2 (r2 mod 5) s (th2 s)" using one.prems by (simp_all add: th_inv_def)
  have "one_inv 1 (r1 mod 5) s' pc" "one_inv 2 (r2 mod 5) s' (th2 s)"
    using thread_step_self [OF one.hyps] thread_step_other [OF one.hyps _ inv(2)] inv(1) by simp_all
  moreover have "main_inv (th_main s') pc (th2 s)"
    using thread_step_rest [OF one.hyps] one.prems main_inv_move(1) by (auto simp: th_inv_def)
  moreover have "output_lock s' \<in> {None, Some 1, Some 2}" "printers s' \<subseteq> {1, 2}"
    using thread_step_rest [OF one.hyps] one.prems by (auto simp: th_inv_def)
  ultimately show ?case using thread_step_rest [OF one.hyps] by (simp add: th_inv_def one_inv_cong)
next
  case (two s pc s')
  have inv: "one_inv 1 (r1 mod 5) s (th1 s)" "one_inv 2 (r2 mod 5) s (th2 s)" using two.prems by (simp_all add: th_inv_def)
  have "one_inv 2 (r2 mod 5) s' pc" "one_inv 1 (r1 mod 5) s' (th1 s)"
    using thread_step_self [OF two.hyps] thread_step_other [OF two.hyps _ inv(1)] inv(2) by simp_all
  moreover have "main_inv (th_main s') (th1 s) pc"
    using thread_step_rest [OF two.hyps] two.prems main_inv_move(2) by (auto simp: th_inv_def)
  moreover have "output_lock s' \<in> {None, Some 1, Some 2}" "printers s' \<subseteq> {1, 2}"
    using thread_step_rest [OF two.hyps] two.prems by (auto simp: th_inv_def)
  ultimately show ?case using thread_step_rest [OF two.hyps] by (simp add: th_inv_def one_inv_cong)
next
  case (tick s)
  have "one_inv i dur s pc \<Longrightarrow> one_inv i dur (s\<lparr>clock := Suc (clock s)\<rparr>) pc" for i dur pc
    by (auto simp: one_inv_defs split: thread_pc.splits)
  then show ?case using tick by (simp add: th_inv_def printers_def)
qed

lemma th_reach_inv: "(th_step r1 r2)\<^sup>*\<^sup>* threads_start s \<Longrightarrow> th_inv r1 r2 s"
proof (induction rule: rtranclp_induct)
  case base
  then show ?case by (simp add: th_inv_def threads_start_def one_inv_defs main_inv_def printers_def)
qed (blast intro: th_step_inv)

lemma two_lines:
  assumes "(\<lambda>l. fst (snd l)) ` set xs \<subseteq> {1, 2 :: nat}"
    and "filter (\<lambda>l. fst (snd l) = 1) xs = [x]" and "filter (\<lambda>l. fst (snd l) = 2) xs = [y]"
  shows "xs = [x, y] \<or> xs = [y, x]"
proof -
  have "filter (\<lambda>l. \<not> fst (snd l) = 1) xs = filter (\<lambda>l. fst (snd l) = 2) xs"
    using assms(1) by (intro filter_cong) auto
  then have "length xs = 2" using sum_length_filter_compl [of "\<lambda>l. fst (snd l) = 1" xs] assms(2,3) by simp
  then obtain a b where "xs = [a, b]" by (auto simp: numeral_2_eq_2 length_Suc_conv)
  then show ?thesis using assms(2,3) by (auto split: if_splits)
qed

text \<open>\<open>pthread_example.c\<close>: when \<open>main\<close> returns, each thread has printed its line exactly once, in either order, not
  before its sleep was over, and nobody holds the lock; at any time at most one thread is between
  \<open>pthread_mutex_lock\<close> and \<open>pthread_mutex_unlock\<close>.\<close>

theorem threads_output:
  assumes "(th_step r1 r2)\<^sup>*\<^sup>* threads_start s"
  shows "\<not> (in_section (th1 s) \<and> in_section (th2 s))
    \<and> (th_main s = Returned \<longrightarrow> output_lock s = None \<and> (\<exists>t1 t2. r1 mod 5 \<le> t1 \<and> r2 mod 5 \<le> t2
          \<and> th_out s \<in> {[(t1, 1, r1 mod 5), (t2, 2, r2 mod 5)], [(t2, 2, r2 mod 5), (t1, 1, r1 mod 5)]}))"
proof -
  have inv: "one_inv 1 (r1 mod 5) s (th1 s)" "one_inv 2 (r2 mod 5) s (th2 s)" "output_lock s \<in> {None, Some 1, Some 2}"
    "printers s \<subseteq> {1, 2}" "main_inv (th_main s) (th1 s) (th2 s)"
    using th_reach_inv [OF assms] by (simp_all add: th_inv_def)
  have "output_lock s = None \<and> (\<exists>t1 t2. r1 mod 5 \<le> t1 \<and> r2 mod 5 \<le> t2
          \<and> th_out s \<in> {[(t1, 1, r1 mod 5), (t2, 2, r2 mod 5)], [(t2, 2, r2 mod 5), (t1, 1, r1 mod 5)]})" if "th_main s = Returned"
  proof -
    have ex: "th1 s = Exited" "th2 s = Exited" using inv(5) that by (simp_all add: main_inv_def)
    then obtain t1 t2 where t: "filter (\<lambda>l. fst (snd l) = 1) (th_out s) = [(t1, 1, r1 mod 5)]" "r1 mod 5 \<le> t1"
      "filter (\<lambda>l. fst (snd l) = 2) (th_out s) = [(t2, 2, r2 mod 5)]" "r2 mod 5 \<le> t2"
      using inv(1,2) by (auto simp: one_inv_def printed_def)
    have "output_lock s = None" using ex inv(1-3) by (auto simp: one_inv_def in_section_def)
    then show ?thesis using two_lines [OF inv(4) [unfolded printers_def] t(1,3)] t(2,4) by blast
  qed
  moreover have "\<not> (in_section (th1 s) \<and> in_section (th2 s))" using inv(1,2) by (auto simp: one_inv_def)
  ultimately show ?thesis by blast
qed

text \<open>A run along a schedule: 0 is \<open>main\<close>, 1 and 2 are the threads, anything else lets time pass.\<close>

fun run_threads :: "nat \<Rightarrow> nat \<Rightarrow> nat list \<Rightarrow> threads \<Rightarrow> threads option" where
  "run_threads r1 r2 [] s = Some s"
| "run_threads r1 r2 (w # ws) s =
     (case if w = 0 then thread_main_step s
           else if w = 1 then map_option (\<lambda>(pc, s). s\<lparr>th1 := pc\<rparr>) (thread_step (arg1 r1) (th1 s) s)
           else if w = 2 then map_option (\<lambda>(pc, s). s\<lparr>th2 := pc\<rparr>) (thread_step (arg2 r2) (th2 s) s)
           else Some (s\<lparr>clock := Suc (clock s)\<rparr>) of
        None \<Rightarrow> None
      | Some s' \<Rightarrow> run_threads r1 r2 ws s')"

lemma run_threads_reach: "run_threads r1 r2 ws s = Some s' \<Longrightarrow> (th_step r1 r2)\<^sup>*\<^sup>* s s'"
proof (induction ws arbitrary: s)
  case (Cons w ws)
  then obtain s1 where "th_step r1 r2 s s1" "run_threads r1 r2 ws s1 = Some s'"
    by (auto intro: th_step.intros split: option.splits if_splits)
  then show ?case using Cons.IH by (meson converse_rtranclp_into_rtranclp)
qed simp

text \<open>The second thread prints first.\<close>

theorem threads_output_witness:
  "\<exists>s. (th_step 3 1)\<^sup>*\<^sup>* threads_start s \<and> th_main s = Returned \<and> th_out s = [(1, 2, 1), (3, 1, 3)]
     \<and> output_lock s = None"
proof -
  define s where "s = the (run_threads 3 1 [0, 0, 9, 2, 2, 2, 2, 9, 9, 1, 1, 1, 1, 0, 0] threads_start)"
  have "run_threads 3 1 [0, 0, 9, 2, 2, 2, 2, 9, 9, 1, 1, 1, 1, 0, 0] threads_start \<noteq> None" by code_simp
  then have "(th_step 3 1)\<^sup>*\<^sup>* threads_start s" unfolding s_def by (metis option.collapse run_threads_reach)
  moreover have "th_main s = Returned \<and> th_out s = [(1, 2, 1), (3, 1, 3)]" unfolding s_def by code_simp
  ultimately show ?thesis using threads_output [of 3 1 s] by blast
qed

end
