(* ===== verification/Spec2Isabelle.thy ===== *)
theory Spec2Isabelle
  imports SwitchHeap LookupRace InsertRace RouterHeap OutOfMemory NatHashHeap NatHashSearch LetterSocket AnswerLock Structs Log Examples
begin

text \<open>
  A verification development for the networking programs of this repository: an Ethernet
  learning switch (\<^verbatim>\<open>src/switch_stack\<close>) and a NAT router
  (\<^verbatim>\<open>src/nat_stack\<close>), both user-level programs in C that read raw frames from the
  interfaces of a Mininet node, and a distributed letter count over sockets
  (\<^verbatim>\<open>src/socket-exp\<close>).

  \<^bold>\<open>The programs.\<close> The first two have the same frame: \<^verbatim>\<open>main.c\<close> finds the interfaces, opens a
  raw socket for each, and loops over \<open>poll\<close> and \<open>recvfrom\<close>, handing each frame to
  \<open>handle_packet\<close>. In the switch, \<open>handle_packet\<close> looks up the destination address in the table of
  \<^verbatim>\<open>mac.c\<close>, sends or broadcasts the frame with \<^verbatim>\<open>packet.c\<close>, and
  records the source address; a second thread removes aged entries. In the router,
  \<open>handle_ip_packet\<close> answers pings to itself and gives everything else to
  \<open>nat_translate_packet\<close> of \<^verbatim>\<open>nat.c\<close> (or of \<^verbatim>\<open>nat_new_2.c\<close>, a second
  version with a hash table that the Makefile does not build), which rewrites addresses, ports
  and checksums in place and calls the IP library the program is linked with. All tables are
  built from the lists of \<^verbatim>\<open>include/list.h\<close>. In the letter count, \<^verbatim>\<open>server.c\<close>
  splits a file among the workers that connect, one thread each, and adds up the answers;
  \<^verbatim>\<open>client.c\<close> counts its part.

  \<^bold>\<open>Theories.\<close>
  \<^item> \<^verbatim>\<open>Prelude\<close>: the integer types, C faults as values (\<open>c_error\<close>, \<open>result\<close>),
    byte order, checked access to packet buffers, counted loops (\<open>fold_r\<close>).
  \<^item> \<^verbatim>\<open>ListHead\<close> (\<^verbatim>\<open>list.h\<close>): the list operations and iteration macros on a store of
    nodes with explicit \<open>next\<close> and \<open>prev\<close> pointers. \<open>dlist\<close> is the shape of a circular list; the operations
    keep it, search, visit and sweep loops over it terminate. The interface its clients rely on is the
    locale \<open>list_impl\<close>, interpreted as \<open>clist\<close>.
  \<^item> \<^verbatim>\<open>Buckets\<close>: what the tables of both stacks share, an array of list heads with entries from
    \<open>malloc\<close>. \<open>in_memory h d G t\<close> says that memory holds the table \<open>t\<close> and, apart from it, only the lost entries \<open>G\<close>;
    a loop over all lists whose body may unlink and free its entry computes the recursion
    \<open>visit_buckets\<close> on lists of lists (\<open>for_buckets_safe\<close>, \<open>for_buckets_plain\<close>).
  \<^item> \<^verbatim>\<open>Hash\<close> (\<^verbatim>\<open>hash.h\<close>, \<open>nat_hash\<close>, \<^verbatim>\<open>tcp_hash.h\<close>),
    \<^verbatim>\<open>Checksum\<close> (\<^verbatim>\<open>checksum.h\<close>), \<^verbatim>\<open>Headers\<close>
    (\<^verbatim>\<open>ether.h\<close>, \<^verbatim>\<open>ip.h\<close>, \<^verbatim>\<open>tcp.h\<close>, \<^verbatim>\<open>icmp.h\<close>): header
    fields as offsets into the buffer; the checksum against the RFC 1071 sum on natural numbers, and
    that recomputing the checksums of a rewritten packet makes it valid (\<open>resummed\<close>).
  \<^item> \<^verbatim>\<open>Structs\<close>: the header structs of the same files and of \<^verbatim>\<open>arp.h\<close> as records, their
    packed layout both ways, and the format macros.
  \<^item> \<^verbatim>\<open>Inet\<close>: \<open>inet_ntoa\<close> and \<open>inet_addr\<close> of the C library, and that the second reads what
    the first prints.
  \<^item> \<^verbatim>\<open>Os\<close>: the answers of the operating system, inputs of the model.
  \<^item> \<^verbatim>\<open>SwitchPacket\<close> (\<^verbatim>\<open>packet.c\<close>), \<^verbatim>\<open>Mac\<close>
    (\<^verbatim>\<open>mac.c\<close>), \<^verbatim>\<open>SwitchMain\<close> (\<^verbatim>\<open>switch_stack/main.c\<close>): the
    switch. \<open>fdb_inv\<close> is the invariant of the table, the locale \<open>learning_table\<close> its contract
    (interpreted as \<open>fdb\<close>), \<open>ls_ports\<close> and \<open>ls_learn\<close> the abstract learning switch that the frame handler
    refines, \<open>sw_step\<close> and \<open>sw_reach\<close> the program with its sweeping thread, \<open>switch_main\<close> the whole program.
  \<^item> \<^verbatim>\<open>MacHeap\<close>: the functions of \<^verbatim>\<open>mac.c\<close> again, on memory with linked lists, \<open>malloc\<close> and \<open>free\<close>
    (suffix \<open>_p\<close>), and that they refine those of \<open>Mac\<close>. \<^verbatim>\<open>SwitchHeap\<close>: the frame handler and the two
    threads in turns on this memory; three levels are joined, memory (\<open>switch_mem\<close>), lists (\<open>switch\<close>) and the
    map of a learning switch that forgets (\<open>ls_run\<close>). \<^verbatim>\<open>MacRace\<close> and \<^verbatim>\<open>LookupRace\<close>: an insertion or
    a lookup of one thread and a removal by the other, split into their memory accesses and interleaved.
    \<^verbatim>\<open>InsertRace\<close>: the same for an insertion and the walk of the other thread that looks for an entry to remove, in
    the switch and in both versions of the router.
  \<^item> \<^verbatim>\<open>NatTable\<close> (\<^verbatim>\<open>nat.h\<close>, \<^verbatim>\<open>base.h\<close>): the data of the router, the
    functions both versions share, and the contracts \<open>port_pool\<close> and \<open>nat_store\<close> with the lemmas that follow from them:
    capacity of the pool, round trip from a flow to its port and back.
  \<^item> \<^verbatim>\<open>NatC\<close> (\<^verbatim>\<open>nat.c\<close>): interprets both contracts (\<open>pool\<close>, \<open>store\<close>);
    \<open>nat_inv\<close> is the invariant of its table, \<open>nat_spec\<close> the abstract translation it refines. \<^verbatim>\<open>NatHeap\<close>: the same
    functions on memory (suffix \<open>_p\<close>), their refinement to \<open>NatC\<close>, and the mappings that leak.
  \<^item> \<^verbatim>\<open>NatHash\<close> (\<^verbatim>\<open>nat_new_2.c\<close>): the same contracts for the hashed table
    (\<open>pool_h\<close>, \<open>store_h\<close>), with pointers to mappings as places in the table, since the code writes
    through them. \<^verbatim>\<open>NatHashSearch\<close>: where mappings are stored (\<open>placed\<close>), and that the hashed lookup equals
    the exhaustive search of \<^verbatim>\<open>nat.c\<close>. \<^verbatim>\<open>NatHashHeap\<close>: the same functions on memory with real pointers
    (suffix \<open>_hp\<close>); a place in the table is the address of its node (\<open>ref_addr\<close>). \<^verbatim>\<open>NatEquiv\<close>: both translators on
    the same packets, and where they differ (\<open>sent_alike\<close>).
  \<^item> \<^verbatim>\<open>NatMain\<close> (\<^verbatim>\<open>nat_stack/main.c\<close>): start-up, dispatch, receive loop, and the
    transition system \<open>nat_step\<close> of packets and passes of the time-out thread. \<^verbatim>\<open>OutOfMemory\<close>: the receive loop when
    \<open>malloc\<close> fails for some frames. \<^verbatim>\<open>RouterHeap\<close>: the same program on the memory
    of \<open>NatHeap\<close>, and that it does what the list of flows in their order determines (\<open>rt_run\<close>, \<open>flow_port\<close>).
  \<^item> \<^verbatim>\<open>LetterCount\<close> (\<^verbatim>\<open>server.c\<close>, \<^verbatim>\<open>client.c\<close>): the tasks, the counting
    loops with \<open>strlen\<close> over memory, and the threads that add their answers in any order (\<open>srv_reach\<close>).
    \<^verbatim>\<open>LetterSocket\<close>: both \<open>main\<close> functions and the conversation over a stream socket, one call at a time
    (\<open>server_step\<close>, \<open>client_step\<close>, \<open>sess_step\<close>). \<^verbatim>\<open>AnswerLock\<close>: the threads of the server with their mutex, the loads and
    stores of \<open>ans\<close>, and \<open>main\<close> that creates, joins and prints (\<open>srv_step\<close>); it refines \<open>srv_reach\<close>.
  \<^item> \<^verbatim>\<open>Log\<close> (\<^verbatim>\<open>log.h\<close>): the levels, the macro and every call of it (\<open>log_site\<close>), with the part
    of \<open>fprintf\<close> they use (\<open>vformat\<close>), and a reader of the log (\<open>read_log\<close>).
  \<^item> \<^verbatim>\<open>Examples\<close> (\<^verbatim>\<open>example/list_example.c\<close>, \<^verbatim>\<open>example/pthread_example.c\<close>).

  \<^bold>\<open>What is shown.\<close> The switch refines an abstract learning switch and never faults;
  aged entries are forgotten, one per round. The router computes the abstract
  translation on every packet with complete headers, delivers replies to the host that opened a
  flow, never uses an external port for two flows while the pool lasts (and port 65535 for all flows after that), disposes of every IP packet once, and
  its table keeps its invariant in all reachable states. The hashed version sends the same packets, except the first of each flow,
  as long as no packet is unsolicited. All three tables, run on linked nodes in memory, compute
  the same and touch no freed memory; the table of the switch and the hashed table do not leak, \<^verbatim>\<open>nat.c\<close> loses one
  mapping for each packet. The switch as a whole, on memory and with its sweeping thread, is a learning switch that forgets; the router as a whole is a list of flows, and its memory grows with every packet. Both programs have a complete list of the ways their start can fail. An insertion and a sweep by the two threads of the switch do not disturb each other
  unless the sweep removes the last entry, where an interleaving writes to freed memory; an insertion and a walk do not if the node was initialised first, as only \<^verbatim>\<open>nat_new_2.c\<close> does, and can
  follow a null pointer otherwise; a lookup can read any entry after it was freed, and is correct if it never holds the
  entry when that happens. What is logged can be read back. The letter count is exact up to the bytes
  between the parts, which are identified, when every message is read as it was sent, the memory behind the buffers of the workers happens to hold null bytes, and
  all threads are done before the output; these are conditions the program does not ensure. A session stops after at most eight calls: answered, with a crashed client, or in a deadlock,
  and what the two sides have read then is stated (\<open>session_answered\<close>, \<open>session_starved\<close>). The mutex of the server makes the additions of its threads atomic and the server ends, but the output, which is read
  without the mutex after one thread was joined, can mix old and new counts. Where the code departs from what its
  comments say (the first packet of a flow, unsolicited packets, time-outs, the exhausted pool, odd
  lengths and carries in checksums, short packets), a theorem states what it does instead.

  \<^bold>\<open>Conventions and bounds.\<close> Machine integers keep their width; \<open>time_t\<close> is an integer and the cast to
  \<open>int\<close> in the aging test is written out. The host is little endian. A read or write outside a buffer, a
  null pointer that is followed, and \<open>exit\<close> are values of \<open>c_error\<close>. Loops over tables
  are structural recursions, the port search loops have termination measures, the loops over linked
  nodes are partial functions proved to return. \<open>malloc\<close> is a parameter that succeeds with an unused address (\<open>malloc_fresh\<close>), except in \<open>OutOfMemory\<close>.
  A step of the interleaved theories is one read or write of a word of memory, in program order, as on a sequentially consistent machine. An endless receive loop is
  modelled on a finite list of poll results of any length, so there is no fuel. In \<open>SwitchMain\<close> and \<open>NatMain\<close> the threads interleave at the granularity of
  whole functions; the code takes its locks only around reads. The numbers that \<open>log\<close> prints fit their C types, its texts have no line break.

  \<^bold>\<open>Not modelled.\<close> The IP library (\<open>ip_send_packet\<close>, \<open>icmp_send_packet\<close>, ARP cache, routing table), of
  which the repository has only declarations: its calls are events, and \<^verbatim>\<open>arpcache.h\<close>, \<^verbatim>\<open>rtable.h\<close> and the prototypes of
  the other headers have no code to translate. A failing \<open>malloc\<close> in \<^verbatim>\<open>mac.c\<close>, \<^verbatim>\<open>nat.c\<close> and the start-up, where the code clears the block without a
  test. The text that \<open>perror\<close> and the \<open>printf\<close> calls of the stacks print. Data races other than those of \<open>MacRace\<close>, \<open>LookupRace\<close> and \<open>InsertRace\<close>: in
  the theorems on whole runs the two threads of a stack take turns between whole functions. The locks of the two tables:
  the switch takes its own only to print and to destroy the table, the router only to read the header fields of a packet and to
  destroy the table, so they order none of the accesses that race. The Mininet script in Python.
\<close>

end
